(* ===== verification/Prelude.thy ===== *)
theory Prelude
  imports Complex_Main "HOL-Library.Word" "HOL-Library.AList" "HOL-Library.List_Lexorder"
    "HOL-Library.Char_ord" "HOL-Library.Multiset"
begin

text \<open>
  Shared vocabulary of the development: the SDK's \<open>Error\<close> and \<open>Result\<close> types
  (\<open>include/keylight/result.hpp\<close>), the fixed-width signed integers the code computes with,
  the passage between C++ characters and bytes, decimal printing (\<open>std::to_string\<close>), and the
  generic list lemmas the components share.

  Conventions. A \<open>std::string\<close> is a \<open>string\<close> (a list of 8-bit characters). A buffer of
  \<open>uint8_t\<close> is a list of \<open>byte\<close>s. An \<open>int64_t\<close> or \<open>int\<close> is an \<open>int\<close>; every
  addition or subtraction of the code whose result may leave the type's range is written with
  \<open>i64\<close> or \<open>i32\<close>, which reduce to the two's complement range. Signed overflow is
  undefined in C++17, so where a theorem needs the mathematical value it also shows that the
  reduction did nothing.
\<close>

section \<open>Collections\<close>

named_theorems frame \<comment> \<open>which parts of the client an operation leaves alone\<close>
named_theorems decodes \<comment> \<open>a reader applied to what a writer printed\<close>

section \<open>Errors and results\<close>

datatype error_code =
    EC_None | EC_Network | EC_Http | EC_InvalidKey | EC_SeatLimit | EC_NotActivated
  | EC_BadResponse | EC_Crypto | EC_Config | EC_Io

record error =
  code :: error_code
  message :: string

text \<open>\<open>Result<T>\<close>: \<open>Inl\<close> is \<open>Result::err\<close>, \<open>Inr\<close> is \<open>Result::ok\<close>.\<close>

type_synonym 'a result = "error + 'a"

definition err :: "error_code \<Rightarrow> string \<Rightarrow> 'a result" where
  "err c m = Inl \<lparr>code = c, message = m\<rparr>"

definition is_ok :: "'a result \<Rightarrow> bool" where
  "is_ok r = (case r of Inl _ \<Rightarrow> False | Inr _ \<Rightarrow> True)"

lemma is_ok_simps [simp]: "is_ok (Inr x)" "\<not> is_ok (Inl e)" "\<not> is_ok (err c m)"
  by (simp_all add: is_ok_def err_def)

lemma is_ok_iff: "is_ok r \<longleftrightarrow> (\<exists>x. r = Inr x)"
  by (cases r) auto

lemma err_not_Inr [simp]: "err c m \<noteq> Inr x"
  by (simp add: err_def)

section \<open>Fixed-width signed integers\<close>

definition INT64_MAX :: int where "INT64_MAX = 2 ^ 63 - 1"
definition INT64_MIN :: int where "INT64_MIN = - (2 ^ 63)"

definition in64 :: "int \<Rightarrow> bool" where
  "in64 x \<longleftrightarrow> INT64_MIN \<le> x \<and> x \<le> INT64_MAX"

definition in32 :: "int \<Rightarrow> bool" where
  "in32 x \<longleftrightarrow> - (2 ^ 31) \<le> x \<and> x < 2 ^ 31"

definition i64 :: "int \<Rightarrow> int" where
  "i64 x = (x + 2 ^ 63) mod 2 ^ 64 - 2 ^ 63"

definition i32 :: "int \<Rightarrow> int" where
  "i32 x = (x + 2 ^ 31) mod 2 ^ 32 - 2 ^ 31"

lemma i64_id [simp]: "in64 x \<Longrightarrow> i64 x = x"
  by (simp add: in64_def i64_def INT64_MIN_def INT64_MAX_def)

lemma i32_id [simp]: "in32 x \<Longrightarrow> i32 x = x"
  by (simp add: in32_def i32_def)

lemma in64_i64 [simp]: "in64 (i64 x)"
  by (simp add: in64_def i64_def INT64_MIN_def INT64_MAX_def)

lemma in32_i32 [simp]: "in32 (i32 x)"
  by (simp add: in32_def i32_def)

lemma in32_in64: "in32 x \<Longrightarrow> in64 x"
  by (simp add: in32_def in64_def INT64_MIN_def INT64_MAX_def)

section \<open>Characters and bytes\<close>

type_synonym byte = "8 word"

definition byte_of :: "char \<Rightarrow> byte" where
  "byte_of c = of_nat (of_char c)"

definition char_of_byte :: "byte \<Rightarrow> char" where
  "char_of_byte b = char_of (unat b)"

lemma char_of_byte_byte_of [simp]: "char_of_byte (byte_of c) = c"
proof -
  have "unat (of_nat (of_char c) :: byte) = (of_char c :: nat)"
    by (simp add: unat_of_nat)
  then show ?thesis by (simp add: char_of_byte_def byte_of_def)
qed

lemma byte_of_char_of_byte [simp]: "byte_of (char_of_byte b) = b"
proof -
  have "unat b < 256" using unsigned_less [of b] by simp
  then show ?thesis by (simp add: char_of_byte_def byte_of_def)
qed

definition bytes_of :: "string \<Rightarrow> byte list" where
  "bytes_of s = map byte_of s"

definition string_of_bytes :: "byte list \<Rightarrow> string" where
  "string_of_bytes bs = map char_of_byte bs"

lemma string_of_bytes_bytes_of [simp]: "string_of_bytes (bytes_of s) = s"
  by (simp add: string_of_bytes_def bytes_of_def comp_def)

lemma bytes_of_string_of_bytes [simp]: "bytes_of (string_of_bytes b) = b"
  by (simp add: string_of_bytes_def bytes_of_def comp_def)

lemma length_bytes_of [simp]: "length (bytes_of s) = length s"
  by (simp add: bytes_of_def)

lemma length_string_of_bytes [simp]: "length (string_of_bytes s) = length s"
  by (simp add: string_of_bytes_def)

lemma bytes_of_inject [simp]: "bytes_of s = bytes_of t \<longleftrightarrow> s = t"
  by (metis string_of_bytes_bytes_of)

section \<open>Decimal printing\<close>

definition is_digit :: "char \<Rightarrow> bool" where
  "is_digit c \<longleftrightarrow> (48::nat) \<le> of_char c \<and> (of_char c :: nat) \<le> 57"

definition digit_val :: "char \<Rightarrow> int" where
  "digit_val c = int (of_char c) - 48"

definition digit_char :: "nat \<Rightarrow> char" where
  "digit_char d = char_of (48 + d)"

lemma is_digit_digit_char [simp]: "d < 10 \<Longrightarrow> is_digit (digit_char d)"
  by (simp add: is_digit_def digit_char_def)

lemma digit_val_digit_char [simp]: "d < 10 \<Longrightarrow> digit_val (digit_char d) = int d"
  by (simp add: digit_val_def digit_char_def)

lemma digit_chars:
  "digit_char 0 = CHR ''0''" "digit_char 1 = CHR ''1''" "digit_char 2 = CHR ''2''" "digit_char 3 = CHR ''3''"
  "digit_char 4 = CHR ''4''" "digit_char 5 = CHR ''5''" "digit_char 6 = CHR ''6''" "digit_char 7 = CHR ''7''"
  "digit_char 8 = CHR ''8''" "digit_char 9 = CHR ''9''"
  by code_simp+

lemma digit_val_bounds: "is_digit c \<Longrightarrow> 0 \<le> digit_val c \<and> digit_val c \<le> 9"
  by (auto simp: is_digit_def digit_val_def)

text \<open>\<open>std::to_string\<close> on unsigned and on signed values.\<close>

fun nat_str :: "nat \<Rightarrow> string" where
  "nat_str n = (if n < 10 then [digit_char n] else nat_str (n div 10) @ [digit_char (n mod 10)])"

declare nat_str.simps [simp del]

definition int_str :: "int \<Rightarrow> string" where
  "int_str i = (if i < 0 then CHR ''-'' # nat_str (nat (- i)) else nat_str (nat i))"

lemma nat_str_digits: "c \<in> set (nat_str n) \<Longrightarrow> is_digit c"
proof (induction n rule: nat_str.induct)
  case (1 n)
  then show ?case
    by (cases "n < 10") (auto simp: nat_str.simps [of n])
qed

lemma nat_str_nonempty [simp]: "nat_str n \<noteq> []"
  by (subst nat_str.simps) simp

text \<open>Reading the digits back, most significant first.\<close>

definition digits_val :: "string \<Rightarrow> int" where
  "digits_val s = foldl (\<lambda>a c. a * 10 + digit_val c) 0 s"

lemma digits_val_nat_str [simp]: "digits_val (nat_str n) = int n"
proof (induction n rule: nat_str.induct)
  case (1 n)
  show ?case
  proof (cases "n < 10")
    case True
    then show ?thesis by (simp add: nat_str.simps [of n] digits_val_def)
  next
    case False
    then have "digits_val (nat_str (n div 10)) = int (n div 10)" using 1 by simp
    then have "digits_val (nat_str n) = int (n div 10) * 10 + int (n mod 10)"
      using False by (simp add: nat_str.simps [of n] digits_val_def)
    then show ?thesis
      by (metis mult.commute mult_div_mod_eq of_nat_add of_nat_mult of_nat_numeral)
  qed
qed

lemma nat_str_inject [simp]: "nat_str m = nat_str n \<longleftrightarrow> m = n"
  by (metis digits_val_nat_str of_nat_eq_iff)

lemma minus_not_digit [simp]: "\<not> is_digit CHR ''-''"
  by (simp add: is_digit_def)

lemma nat_str_not_minus: "nat_str n \<noteq> CHR ''-'' # s"
  using nat_str_digits [of "CHR ''-''" n] by (metis list.set_intros(1) minus_not_digit)

lemma int_str_inject [simp]: "int_str a = int_str b \<longleftrightarrow> a = b"
  by (auto simp: int_str_def nat_str_not_minus nat_str_not_minus [symmetric] split: if_splits)

lemma int_str_chars: "c \<in> set (int_str i) \<Longrightarrow> is_digit c \<or> c = CHR ''-''"
  by (auto simp: int_str_def dest: nat_str_digits split: if_splits)

section \<open>Lists split at a separator\<close>

text \<open>
  The signed payloads join their fields with a separator; two joined texts whose fields avoid the
  separator are equal only field by field.
\<close>

lemma sep_append_eq:
  assumes "c \<notin> set a" "c \<notin> set b" "a @ c # x = b @ c # y"
  shows "a = b \<and> x = y"
  using assms
proof (induction a arbitrary: b)
  case Nil
  then show ?case by (cases b) auto
next
  case (Cons z a)
  then show ?case by (cases b) auto
qed

lemma map_filter_append [simp]: "List.map_filter f (xs @ ys) = List.map_filter f xs @ List.map_filter f ys"
  by (simp add: List.map_filter_def)

end
