(* ===== verification/Base64.thy ===== *)
theory Base64
  imports Prelude
begin

text \<open>
  Base64 as \<open>include/keylight/result.hpp\<close> (\<open>base64_encode\<close>, \<open>base64_decode\<close>) and
  \<open>include/keylight/verifier.hpp\<close> (\<open>b64_decode_flexible\<close>) write it. Public keys and signatures
  reach the verifiers through the decoder, so its round trip and its tolerance (white space, missing
  padding, the URL-safe alphabet) decide which signatures can be checked at all. The decoder's
  accumulator is a \<open>uint32_t\<close> that is shifted left for every character and never cleared: the
  lemmas show that the bits pushed out at the top do not reach the output.
\<close>

unbundle bit_operations_syntax

type_synonym u32 = "32 word"

section \<open>Definitions\<close>

definition b64_chars :: string where
  "b64_chars = ''ABCDEFGHIJKLMNOPQRSTUVWXYZabcdefghijklmnopqrstuvwxyz0123456789+/''"

definition b64_val :: "char \<Rightarrow> int" where
  "b64_val c =
     (let n = (of_char c :: nat) in
      if 65 \<le> n \<and> n \<le> 90 then int n - 65
      else if 97 \<le> n \<and> n \<le> 122 then int n - 97 + 26
      else if 48 \<le> n \<and> n \<le> 57 then int n - 48 + 52
      else if c = CHR ''+'' then 62
      else if c = CHR ''/'' then 63
      else if c = CHR ''='' then -1
      else -2)"

definition b64_char :: "u32 \<Rightarrow> char" where
  "b64_char w = b64_chars ! unat (w AND 0x3F)"

text \<open>One turn of the encoder's loop packs up to three bytes into 24 bits.\<close>

definition b64_group :: "byte \<Rightarrow> byte list \<Rightarrow> u32" where
  "b64_group x xs =
     push_bit 16 (ucast x)
     OR (case xs of [] \<Rightarrow> 0 | y # _ \<Rightarrow> push_bit 8 (ucast y))
     OR (case xs of _ # z # _ \<Rightarrow> ucast z | _ \<Rightarrow> 0)"

fun encode_bytes :: "byte list \<Rightarrow> string" where
  "encode_bytes [] = []"
| "encode_bytes (x # xs) =
     (let b = b64_group x xs in
      b64_char (drop_bit 18 b) # b64_char (drop_bit 12 b)
      # (if xs \<noteq> [] then b64_char (drop_bit 6 b) else CHR ''='')
      # (if 2 \<le> length xs then b64_char b else CHR ''='')
      # encode_bytes (drop 2 xs))"

definition base64_encode :: "string \<Rightarrow> string" where
  "base64_encode s = encode_bytes (bytes_of s)"

fun decode_loop :: "u32 \<Rightarrow> nat \<Rightarrow> string \<Rightarrow> byte list" where
  "decode_loop buf bits [] = []"
| "decode_loop buf bits (c # cs) =
     (let v = b64_val c in
      if v = -2 then decode_loop buf bits cs
      else if v = -1 then []
      else let buf' = push_bit 6 buf OR of_int v; bits' = bits + 6 in
        if 8 \<le> bits'
        then ucast (drop_bit (bits' - 8) buf' AND 0xFF) # decode_loop buf' (bits' - 8) cs
        else decode_loop buf' bits' cs)"

definition base64_decode :: "string \<Rightarrow> string" where
  "base64_decode s = string_of_bytes (decode_loop 0 0 s)"

definition is_b64_space :: "char \<Rightarrow> bool" where
  "is_b64_space c \<longleftrightarrow> c = CHR '' '' \<or> c = CHR 0x09 \<or> c = CHR 0x0A \<or> c = CHR 0x0D"

fun b64_normalise :: "string \<Rightarrow> string" where
  "b64_normalise [] = []"
| "b64_normalise (c # cs) =
     (if is_b64_space c then b64_normalise cs
      else if c = CHR ''-'' then CHR ''+'' # b64_normalise cs
      else if c = CHR ''_'' then CHR ''/'' # b64_normalise cs
      else c # b64_normalise cs)"

definition b64_decode_flexible :: "string \<Rightarrow> string" where
  "b64_decode_flexible s =
     (let norm = b64_normalise s; pad = length norm mod 4
      in base64_decode (if pad \<noteq> 0 then norm @ replicate (4 - pad) CHR ''='' else norm))"

section \<open>The alphabet\<close>

lemma length_b64_chars: "length b64_chars = 64"
  by (simp add: b64_chars_def)

lemma alphabet_values: "map b64_val b64_chars = map int [0..<64]"
  by (simp add: b64_chars_def b64_val_def upt_rec)

lemma alphabet_plain:
  "list_all (\<lambda>c. \<not> is_b64_space c \<and> c \<noteq> CHR ''-'' \<and> c \<noteq> CHR ''_'') b64_chars"
  by (simp add: b64_chars_def is_b64_space_def)

lemma alphabet:
  assumes "n < 64"
  shows "b64_val (b64_chars ! n) = int n" "\<not> is_b64_space (b64_chars ! n)"
    "b64_chars ! n \<noteq> CHR ''-''" "b64_chars ! n \<noteq> CHR ''_''"
proof -
  have len: "n < length b64_chars" using assms by (simp add: length_b64_chars)
  have "b64_val (b64_chars ! n) = map b64_val b64_chars ! n" using len by simp
  also have "\<dots> = int n" using assms by (simp add: alphabet_values)
  finally show "b64_val (b64_chars ! n) = int n" .
  have "b64_chars ! n \<in> set b64_chars" using len by simp
  then show "\<not> is_b64_space (b64_chars ! n)" "b64_chars ! n \<noteq> CHR ''-''"
    "b64_chars ! n \<noteq> CHR ''_''"
    using alphabet_plain by (auto simp: list_all_iff)
qed

lemma and_3F: "(w :: u32) AND 0x3F = take_bit 6 w"
  by (simp add: take_bit_eq_mask mask_eq_decr_exp)

lemma and_FF: "(w :: u32) AND 0xFF = take_bit 8 w"
  by (simp add: take_bit_eq_mask mask_eq_decr_exp)

lemma unat_and_3F: "unat ((w :: u32) AND 0x3F) < 64"
  using take_bit_nat_less_exp [of 6 "unat w"] by (simp add: and_3F unsigned_take_bit_eq)

lemma b64_val_char [simp]: "b64_val (b64_char w) = uint (w AND 0x3F)"
  by (simp add: b64_char_def alphabet unat_and_3F)

lemma b64_char_plain [simp]:
  "\<not> is_b64_space (b64_char w)" "b64_char w \<noteq> CHR ''-''" "b64_char w \<noteq> CHR ''_''"
  by (simp_all add: b64_char_def alphabet unat_and_3F)

lemma pad_plain: "\<not> is_b64_space CHR ''=''"
  by (simp add: is_b64_space_def)

lemma pad_val [simp]: "b64_val CHR ''='' = -1"
  by (simp add: b64_val_def)

lemma uint_not_negative [simp]: "uint w \<noteq> -1" "uint w \<noteq> -2"
  using unsigned_greater_eq [of w] by (metis neg_0_le_iff_le not_numeral_le_zero not_one_le_zero)+

lemma decode_pad: "decode_loop buf bits (CHR ''='' # cs) = []"
  by simp

section \<open>One group of four characters\<close>

definition b64_push :: "u32 \<Rightarrow> u32 \<Rightarrow> u32" where
  "b64_push buf w = push_bit 6 buf OR (w AND 0x3F)"

lemma decode_char:
  "decode_loop buf bits (b64_char w # cs) =
     (if 2 \<le> bits
      then ucast (take_bit 8 (drop_bit (bits - 2) (b64_push buf w)))
             # decode_loop (b64_push buf w) (bits - 2) cs
      else decode_loop (b64_push buf w) (bits + 6) cs)"
  by (simp add: Let_def b64_push_def [symmetric] and_FF del: drop_bit_or)

lemma bit_b64_push:
  "bit (b64_push buf w) n \<longleftrightarrow> n < 32 \<and> (if n < 6 then bit w n else bit buf (n - 6))"
  by (auto simp: b64_push_def and_3F bit_simps)

lemma bit_group:
  "bit (b64_group x xs) n \<longleftrightarrow>
     (if n < 8 then (case xs of _ # z # _ \<Rightarrow> bit z n | _ \<Rightarrow> False)
      else if n < 16 then (case xs of y # _ \<Rightarrow> bit y (n - 8) | _ \<Rightarrow> False)
      else n < 24 \<and> bit x (n - 16))"
  by (auto simp: b64_group_def bit_simps split: list.splits dest: bit_imp_le_length)

lemma group_first:
  "ucast (take_bit 8 (drop_bit 4 (b64_push (b64_push buf (drop_bit 18 (b64_group x xs)))
     (drop_bit 12 (b64_group x xs))))) = x"
  by (rule bit_word_eqI) (auto simp: bit_simps bit_b64_push bit_group)

lemma group_second:
  "ucast (take_bit 8 (drop_bit 2 (b64_push (b64_push (b64_push buf (drop_bit 18 (b64_group x (y # ys))))
     (drop_bit 12 (b64_group x (y # ys)))) (drop_bit 6 (b64_group x (y # ys)))))) = y"
  by (rule bit_word_eqI) (auto simp: bit_simps bit_b64_push bit_group)

lemma group_third:
  "ucast (take_bit 8 (b64_push (b64_push (b64_push (b64_push buf
     (drop_bit 18 (b64_group x (y # z # zs)))) (drop_bit 12 (b64_group x (y # z # zs))))
     (drop_bit 6 (b64_group x (y # z # zs)))) (b64_group x (y # z # zs)))) = z"
  by (rule bit_word_eqI) (auto simp: bit_simps bit_b64_push bit_group)

lemmas decode_simps = decode_char decode_pad Let_def

declare decode_loop.simps(2) [simp del]

lemma decode_loop_encode: "decode_loop buf 0 (encode_bytes bs) = bs"
proof (induction bs arbitrary: buf rule: encode_bytes.induct)
  case 1
  then show ?case by simp
next
  case (2 x xs)
  show ?case
  proof (cases xs)
    case Nil
    then show ?thesis using group_first [of buf x xs] by (simp add: decode_simps)
  next
    case (Cons y ys)
    note xs = Cons
    show ?thesis
    proof (cases ys)
      case Nil
      then show ?thesis
        using xs group_first [of buf x xs] group_second [of buf x y ys]
        by (simp add: decode_simps)
    next
      case (Cons z zs)
      have IH: "decode_loop b 0 (encode_bytes zs) = zs" for b
        using "2.IH" xs Cons by simp
      show ?thesis
        using xs Cons group_first [of buf x xs] group_second [of buf x y ys]
          group_third [of buf x y z zs] IH
        by (simp add: decode_simps)
    qed
  qed
qed

section \<open>Round trips\<close>

text \<open>
  Decoding what the encoder wrote gives back the input, for every byte string: the
  never-cleared 32-bit accumulator of the decoder does not leak into its output, and the padding
  the encoder adds stops the decoder exactly where the data ends.
\<close>
theorem base64_round_trip: "base64_decode (base64_encode s) = s"
  by (simp add: base64_decode_def base64_encode_def decode_loop_encode)

lemma b64_normalise_encode: "b64_normalise (encode_bytes bs) = encode_bytes bs"
  by (induction bs rule: encode_bytes.induct) (simp_all add: Let_def pad_plain)

lemma length_encode_bytes: "length (encode_bytes bs) = 4 * ((length bs + 2) div 3)"
proof (induction bs rule: encode_bytes.induct)
  case (2 x xs)
  have "length (encode_bytes (drop 2 xs)) = 4 * ((length (drop 2 xs) + 2) div 3)"
    by (rule 2) simp
  then show ?case by (auto simp: Let_def)
qed simp

lemma decode_loop_stops: "decode_loop buf bits (s @ CHR ''='' # t) = decode_loop buf bits s"
  by (induction buf bits s rule: decode_loop.induct) (simp_all add: decode_loop.simps Let_def)

lemma decode_loop_pad: "decode_loop buf bits (s @ replicate n CHR ''='') = decode_loop buf bits s"
  by (cases n) (simp_all add: decode_loop_stops)

lemma decode_flexible_eq: "b64_decode_flexible s = base64_decode (b64_normalise s)"
  by (simp add: b64_decode_flexible_def base64_decode_def Let_def decode_loop_pad)

text \<open>The URL-safe spelling of an encoded text, with its padding dropped.\<close>

definition url_safe :: "string \<Rightarrow> string" where
  "url_safe s = map (\<lambda>c. if c = CHR ''+'' then CHR ''-'' else if c = CHR ''/'' then CHR ''_'' else c) s"

definition strip_padding :: "string \<Rightarrow> string" where
  "strip_padding s = takeWhile (\<lambda>c. c \<noteq> CHR ''='') s"

lemma b64_normalise_url_safe: "b64_normalise (url_safe s) = b64_normalise s"
  by (induction s) (auto simp: url_safe_def is_b64_space_def)

lemma decode_loop_strip: "decode_loop buf bits (strip_padding s) = decode_loop buf bits s"
  by (induction buf bits s rule: decode_loop.induct) (simp_all add: decode_loop.simps Let_def strip_padding_def)

lemma b64_normalise_strip: "b64_normalise (strip_padding s) = strip_padding (b64_normalise s)"
  by (induction s) (auto simp: strip_padding_def is_b64_space_def)

lemma decode_flexible_encode: "b64_decode_flexible (base64_encode s) = s"
  by (simp add: decode_flexible_eq base64_decode_def base64_encode_def b64_normalise_encode decode_loop_encode)

text \<open>
  The decoder the verifiers use accepts every rendering of a key or signature that differs
  from the encoder's output only in alphabet (standard or URL-safe) and in its trailing padding, and
  reads all of them as the same bytes.
\<close>
theorem base64_flexible_round_trip:
  "b64_decode_flexible (base64_encode s) = s \<and>
   b64_decode_flexible (url_safe (base64_encode s)) = s \<and>
   b64_decode_flexible (strip_padding (base64_encode s)) = s \<and>
   b64_decode_flexible (url_safe (strip_padding (base64_encode s))) = s"
  by (simp add: decode_flexible_eq b64_normalise_url_safe b64_normalise_strip base64_decode_def
      decode_loop_strip base64_encode_def b64_normalise_encode decode_loop_encode)

end
