(* ===== verification/Binary64.thy ===== *)
theory Binary64
  imports Prelude
begin

text \<open>
  The \<open>double\<close> arithmetic that \<open>json.hpp\<close> uses for numbers outside \<open>int64_t\<close>: IEEE 754 binary64
  with round-to-nearest, ties-to-even. A finite double is its exact rational value, and every
  operation computes the exact rational result and rounds it once. The sign of zero is not kept: no
  operation of the parser can observe it.
\<close>

datatype dbl = DNaN | DPosInf | DNegInf | DFin rat

text \<open>The largest \<open>k\<close> with \<open>2 ^ k \<le> n\<close>, for \<open>n \<ge> 1\<close>.\<close>

fun nlog2 :: "nat \<Rightarrow> nat" where
  "nlog2 n = (if n < 2 then 0 else Suc (nlog2 (n div 2)))"

declare nlog2.simps [simp del]

definition pow2 :: "int \<Rightarrow> rat" where
  "pow2 e = (if 0 \<le> e then 2 ^ nat e else 1 / 2 ^ nat (- e))"

text \<open>The binary exponent of a positive rational: the \<open>e\<close> with \<open>2 ^ e \<le> a < 2 ^ (e + 1)\<close>.\<close>

definition ilog2 :: "rat \<Rightarrow> int" where
  "ilog2 a =
     (if 1 \<le> a then int (nlog2 (nat \<lfloor>a\<rfloor>))
      else let k = int (nlog2 (nat \<lfloor>1 / a\<rfloor>)) in if pow2 (- k) \<le> a then - k else - k - 1)"

definition round_even :: "rat \<Rightarrow> int" where
  "round_even q =
     (let f = \<lfloor>q\<rfloor>; r = q - of_int f in
      if r < 1 / 2 then f else if 1 / 2 < r then f + 1 else if even f then f else f + 1)"

definition rnd :: "rat \<Rightarrow> dbl" where
  "rnd x =
     (if x = 0 then DFin 0
      else let a = \<bar>x\<bar>; e = max (-1074) (ilog2 a - 52); m = of_int (round_even (a / pow2 e)) * pow2 e
        in if m < 2 ^ 1024 then DFin (if x < 0 then - m else m)
           else if x < 0 then DNegInf else DPosInf)"

fun dneg :: "dbl \<Rightarrow> dbl" where
  "dneg DNaN = DNaN"
| "dneg DPosInf = DNegInf"
| "dneg DNegInf = DPosInf"
| "dneg (DFin x) = DFin (- x)"

fun dadd :: "dbl \<Rightarrow> dbl \<Rightarrow> dbl" where
  "dadd (DFin x) (DFin y) = rnd (x + y)"
| "dadd DNaN _ = DNaN"
| "dadd _ DNaN = DNaN"
| "dadd DPosInf DNegInf = DNaN"
| "dadd DNegInf DPosInf = DNaN"
| "dadd DPosInf _ = DPosInf"
| "dadd DNegInf _ = DNegInf"
| "dadd _ y = y"

text \<open>Multiplication and division of an operand by a finite, non-zero constant of known sign, which
  is all the parser does; the general cases follow IEEE 754.\<close>

fun dsign_inf :: "bool \<Rightarrow> dbl" where
  "dsign_inf True = DNegInf"
| "dsign_inf False = DPosInf"

fun dmul :: "dbl \<Rightarrow> dbl \<Rightarrow> dbl" where
  "dmul (DFin x) (DFin y) = rnd (x * y)"
| "dmul DNaN _ = DNaN"
| "dmul _ DNaN = DNaN"
| "dmul (DFin x) y = (if x = 0 then DNaN else dsign_inf ((x < 0) \<noteq> (y = DNegInf)))"
| "dmul x (DFin y) = (if y = 0 then DNaN else dsign_inf ((x = DNegInf) \<noteq> (y < 0)))"
| "dmul x y = dsign_inf ((x = DNegInf) \<noteq> (y = DNegInf))"

fun ddiv :: "dbl \<Rightarrow> dbl \<Rightarrow> dbl" where
  "ddiv (DFin x) (DFin y) =
     (if y \<noteq> 0 then rnd (x / y) else if x = 0 then DNaN else dsign_inf (x < 0))"
| "ddiv DNaN _ = DNaN"
| "ddiv _ DNaN = DNaN"
| "ddiv (DFin x) _ = DFin 0"
| "ddiv x (DFin y) = dsign_inf ((x = DNegInf) \<noteq> (y < 0))"
| "ddiv _ _ = DNaN"

definition d_of_int :: "int \<Rightarrow> dbl" where
  "d_of_int i = rnd (of_int i)"

text \<open>\<open>Json::as_int\<close> on a double: NaN reads as 0, values outside the range saturate, everything
  else is truncated toward zero (\<open>static_cast\<close>).\<close>

definition trunc_rat :: "rat \<Rightarrow> int" where
  "trunc_rat q = (if 0 \<le> q then \<lfloor>q\<rfloor> else - \<lfloor>- q\<rfloor>)"

fun d_as_int :: "dbl \<Rightarrow> int" where
  "d_as_int DNaN = 0"
| "d_as_int DPosInf = INT64_MAX"
| "d_as_int DNegInf = INT64_MIN"
| "d_as_int (DFin d) =
     (if 2 ^ 63 \<le> d then INT64_MAX else if d < - (2 ^ 63) then INT64_MIN else trunc_rat d)"

lemma trunc_rat_in64:
  assumes "d < 2 ^ 63" "- (2 ^ 63) \<le> d"
  shows "in64 (trunc_rat d)"
proof (cases "0 \<le> d")
  case True
  then have "0 \<le> \<lfloor>d\<rfloor>" by simp
  moreover have "\<lfloor>d\<rfloor> < 2 ^ 63" using assms(1) by (simp add: floor_less_iff)
  ultimately show ?thesis using True
    by (simp add: trunc_rat_def in64_def INT64_MIN_def INT64_MAX_def)
next
  case False
  define f where "f = \<lfloor>- d\<rfloor>"
  have "0 \<le> f" using False by (simp add: f_def)
  moreover have "f < 2 ^ 63 + 1" using assms(2) unfolding f_def by (subst floor_less_iff) simp
  moreover have "trunc_rat d = - f" using False by (simp add: trunc_rat_def f_def)
  ultimately show ?thesis by (simp add: in64_def INT64_MIN_def INT64_MAX_def)
qed

lemma in64_d_as_int: "in64 (d_as_int d)"
proof (cases d)
  case (DFin q)
  then show ?thesis
    using trunc_rat_in64 [of q] by (auto simp: in64_def INT64_MIN_def INT64_MAX_def)
qed (simp_all add: in64_def INT64_MIN_def INT64_MAX_def)

section \<open>Evaluating closed terms\<close>

lemma nlog2_small: "n < 2 \<Longrightarrow> nlog2 n = 0"
  by (simp add: nlog2.simps [of n])

lemma nlog2_big: "2 \<le> n \<Longrightarrow> nlog2 n = Suc (nlog2 (n div 2))"
  by (simp add: nlog2.simps [of n])

lemma round_even_near:
  assumes "\<bar>q - of_int n\<bar> < 1 / 2"
  shows "round_even q = n"
proof (cases "of_int n \<le> q")
  case True
  then have "\<lfloor>q\<rfloor> = n" using assms by (intro floor_unique) (auto simp: abs_less_iff)
  then show ?thesis using assms True by (simp add: round_even_def Let_def)
next
  case False
  then have "\<lfloor>q\<rfloor> = n - 1" using assms by (intro floor_unique) (auto simp: abs_less_iff)
  then show ?thesis using assms False by (simp add: round_even_def Let_def)
qed

lemma round_even_int: "round_even (of_int n) = n"
  by (simp add: round_even_def)

text \<open>The rounding step at a known exponent.\<close>

lemma rnd_at:
  assumes "0 < x" "ilog2 x = e" "0 \<le> e - 52" "e \<le> 1000"
    "round_even (x / 2 ^ nat (e - 52)) = n" "of_int n * 2 ^ nat (e - 52) < (2 :: rat) ^ 1024"
  shows "rnd x = DFin (of_int n * 2 ^ nat (e - 52))"
  using assms by (simp add: rnd_def Let_def pow2_def max_def)

end
