(* ===== verification/Json.thy ===== *)
theory Json
  imports Binary64
begin

text \<open>
  The JSON reader of \<open>include/keylight/json.hpp\<close> (\<open>json_detail::Parser\<close> and the accessors of
  \<open>Json\<close>) and the JSON writers of \<open>include/keylight/client.hpp\<close> (\<open>json_str\<close>). Every body the
  server sends and every blob the store returns goes through this parser.

  A parser takes the unread input and returns the value with the rest, or \<open>None\<close> where the code
  returns \<open>false\<close>. The cursor \<open>p\<close> of the code is the unread suffix. An object keeps its members
  in insertion order and a repeated key replaces the earlier value, as \<open>obj_keys\<close> and \<open>obj_map\<close>
  do together. The exponent of a number is accumulated in an \<open>int64_t\<close> without a guard, so it is
  reduced with \<open>i64\<close> here; the recursion depth of the C++ parser, bounded by its stack, is not
  modelled.
\<close>

unbundle bit_operations_syntax

datatype jvalue =
    JNull
  | JBool bool
  | JInt int
  | JDouble dbl
  | JString string
  | JArray "jvalue list"
  | JObject "(string \<times> jvalue) list"

section \<open>Accessors\<close>

definition jget :: "jvalue \<Rightarrow> string \<Rightarrow> jvalue" where
  "jget j key =
     (case j of JObject kvs \<Rightarrow> (case map_of kvs key of Some v \<Rightarrow> v | None \<Rightarrow> JNull) | _ \<Rightarrow> JNull)"

definition jat :: "jvalue \<Rightarrow> nat \<Rightarrow> jvalue" where
  "jat j i = (case j of JArray vs \<Rightarrow> if i < length vs then vs ! i else JNull | _ \<Rightarrow> JNull)"

definition is_array :: "jvalue \<Rightarrow> bool" where
  "is_array j = (case j of JArray _ \<Rightarrow> True | _ \<Rightarrow> False)"

definition jsize :: "jvalue \<Rightarrow> nat" where
  "jsize j = (case j of JArray vs \<Rightarrow> length vs | JObject kvs \<Rightarrow> length kvs | _ \<Rightarrow> 0)"

definition as_string :: "jvalue \<Rightarrow> string" where
  "as_string j = (case j of JString s \<Rightarrow> s | _ \<Rightarrow> [])"

definition as_int :: "jvalue \<Rightarrow> int" where
  "as_int j = (case j of JInt i \<Rightarrow> i | JDouble d \<Rightarrow> d_as_int d | _ \<Rightarrow> 0)"

definition as_bool :: "jvalue \<Rightarrow> bool" where
  "as_bool j = (case j of JBool b \<Rightarrow> b | _ \<Rightarrow> False)"

definition as_string_array :: "jvalue \<Rightarrow> string list" where
  "as_string_array j = (case j of JArray vs \<Rightarrow> map as_string vs | _ \<Rightarrow> [])"

definition jkeys :: "jvalue \<Rightarrow> string list" where
  "jkeys j = (case j of JObject kvs \<Rightarrow> map fst kvs | _ \<Rightarrow> [])"

section \<open>The parser\<close>

definition is_ws :: "char \<Rightarrow> bool" where
  "is_ws c \<longleftrightarrow> c = CHR '' '' \<or> c = CHR 0x09 \<or> c = CHR 0x0A \<or> c = CHR 0x0D"

definition skip_ws :: "string \<Rightarrow> string" where
  "skip_ws s = dropWhile is_ws s"

fun consume :: "char \<Rightarrow> string \<Rightarrow> string option" where
  "consume c [] = None"
| "consume c (x # xs) = (if x = c then Some xs else None)"

definition hex_nibble :: "char \<Rightarrow> nat option" where
  "hex_nibble c =
     (let n = (of_char c :: nat) in
      if 48 \<le> n \<and> n \<le> 57 then Some (n - 48)
      else if 97 \<le> n \<and> n \<le> 102 then Some (n - 97 + 10)
      else if 65 \<le> n \<and> n \<le> 70 then Some (n - 65 + 10)
      else None)"

fun hex4 :: "string \<Rightarrow> (nat \<times> string) option" where
  "hex4 (a # b # c # d # r) =
     (case (hex_nibble a, hex_nibble b, hex_nibble c, hex_nibble d) of
        (Some w, Some x, Some y, Some z) \<Rightarrow> Some (((w * 16 + x) * 16 + y) * 16 + z, r)
      | _ \<Rightarrow> None)"
| "hex4 _ = None"

definition utf8_byte :: "32 word \<Rightarrow> char" where
  "utf8_byte w = char_of_byte (ucast w)"

definition encode_utf8 :: "32 word \<Rightarrow> string" where
  "encode_utf8 cp =
     (if cp < 0x80 then [utf8_byte cp]
      else if cp < 0x800 then
        [utf8_byte (0xC0 OR drop_bit 6 cp), utf8_byte (0x80 OR (cp AND 0x3F))]
      else if cp < 0x10000 then
        [utf8_byte (0xE0 OR drop_bit 12 cp), utf8_byte (0x80 OR (drop_bit 6 cp AND 0x3F)),
         utf8_byte (0x80 OR (cp AND 0x3F))]
      else
        [utf8_byte (0xF0 OR drop_bit 18 cp), utf8_byte (0x80 OR (drop_bit 12 cp AND 0x3F)),
         utf8_byte (0x80 OR (drop_bit 6 cp AND 0x3F)), utf8_byte (0x80 OR (cp AND 0x3F))])"

text \<open>The \<open>\u\<close> escape, with the second half of a surrogate pair.\<close>

definition unicode_escape :: "string \<Rightarrow> (nat \<times> string) option" where
  "unicode_escape s =
     (case hex4 s of
        None \<Rightarrow> None
      | Some (cp, r) \<Rightarrow>
          if 0xD800 \<le> cp \<and> cp \<le> 0xDBFF then
            (case r of
               b # u # r' \<Rightarrow>
                 if length r < 6 \<or> b \<noteq> CHR 0x5C \<or> u \<noteq> CHR ''u'' then None
                 else (case hex4 r' of
                         None \<Rightarrow> None
                       | Some (low, r'') \<Rightarrow>
                           if low < 0xDC00 \<or> 0xDFFF < low then None
                           else Some (0x10000 + (cp - 0xD800) * 1024 + (low - 0xDC00), r''))
             | _ \<Rightarrow> None)
          else Some (cp, r))"

definition simple_escape :: "char \<Rightarrow> char option" where
  "simple_escape c =
     (if c = CHR 0x22 then Some CHR 0x22
      else if c = CHR 0x5C then Some CHR 0x5C
      else if c = CHR ''/'' then Some CHR ''/''
      else if c = CHR ''b'' then Some CHR 0x08
      else if c = CHR ''f'' then Some CHR 0x0C
      else if c = CHR ''n'' then Some CHR 0x0A
      else if c = CHR ''r'' then Some CHR 0x0D
      else if c = CHR ''t'' then Some CHR 0x09
      else None)"

lemma hex4_length: "hex4 s = Some (n, r) \<Longrightarrow> length s = length r + 4"
  by (induction s rule: hex4.induct) (auto split: option.splits)

lemma unicode_escape_length: "unicode_escape s = Some (n, r) \<Longrightarrow> length r < length s"
  by (auto simp: unicode_escape_def dest!: hex4_length split: option.splits if_splits list.splits)

function parse_string :: "string \<Rightarrow> string \<Rightarrow> (string \<times> string) option" where
  "parse_string out s =
     (case s of
        [] \<Rightarrow> None
      | c # cs \<Rightarrow>
          if c = CHR 0x22 then Some (out, cs)
          else if c = CHR 0x5C then
            (case cs of
               [] \<Rightarrow> None
             | esc # es \<Rightarrow>
                 (case simple_escape esc of
                    Some ch \<Rightarrow> parse_string (out @ [ch]) es
                  | None \<Rightarrow>
                      if esc = CHR ''u'' then
                        (case unicode_escape es of
                           None \<Rightarrow> None
                         | Some (cp, r) \<Rightarrow> parse_string (out @ encode_utf8 (of_nat cp)) r)
                      else None))
          else parse_string (out @ [c]) cs)"
  by pat_completeness auto
termination
  by (relation "measure (\<lambda>(out, s). length s)") (auto dest: unicode_escape_length)

declare parse_string.simps [simp del]

text \<open>The equations of the loop, one per kind of character.\<close>

lemma parse_string_Nil: "parse_string out [] = None"
  by (simp add: parse_string.simps)

lemma parse_string_close: "parse_string out (CHR 0x22 # cs) = Some (out, cs)"
  by (simp add: parse_string.simps)

lemma parse_string_plain:
  "c \<noteq> CHR 0x22 \<Longrightarrow> c \<noteq> CHR 0x5C \<Longrightarrow> parse_string out (c # cs) = parse_string (out @ [c]) cs"
  by (simp add: parse_string.simps [of out])

lemma parse_string_escape:
  "simple_escape e = Some ch \<Longrightarrow>
     parse_string out (CHR 0x5C # e # cs) = parse_string (out @ [ch]) cs"
  by (simp add: parse_string.simps [of out])

lemma parse_string_backslashE:
  assumes "parse_string out (CHR 0x5C # cs) = Some (t, r)"
  obtains out' s' where "length s' < Suc (length cs)" "parse_string out' s' = Some (t, r)"
proof (cases cs)
  case Nil
  then show ?thesis using assms by (simp add: parse_string.simps)
next
  case (Cons e es)
  show ?thesis
  proof (cases "simple_escape e")
    case None
    then obtain cp r' where "unicode_escape es = Some (cp, r')"
      "parse_string (out @ encode_utf8 (of_nat cp)) r' = Some (t, r)"
      using assms Cons by (auto simp: parse_string.simps [of out] split: if_splits option.splits)
    moreover from this have "length r' < length es" by (auto dest: unicode_escape_length)
    ultimately show ?thesis using that [of r'] Cons by simp
  next
    case (Some ch)
    then show ?thesis using that [of es] assms Cons by (simp add: parse_string_escape)
  qed
qed

lemma parse_string_length: "parse_string out s = Some (t, r) \<Longrightarrow> length r < length s"
proof (induction "length s" arbitrary: out s rule: less_induct)
  case less
  show ?case
  proof (cases s)
    case Nil
    then show ?thesis using less.prems by (simp add: parse_string_Nil)
  next
    case (Cons c cs)
    note s = Cons
    consider "c = CHR 0x22" | "c = CHR 0x5C" | "c \<noteq> CHR 0x22" "c \<noteq> CHR 0x5C" by blast
    then show ?thesis
    proof cases
      case 1
      then show ?thesis using less.prems s by (simp add: parse_string_close)
    next
      case 2
      then obtain out' s' where "length s' < length s" "parse_string out' s' = Some (t, r)"
        using less.prems s by (auto elim: parse_string_backslashE)
      then show ?thesis using less.hyps by fastforce
    next
      case 3
      then have "parse_string (out @ [c]) cs = Some (t, r)"
        using less.prems s by (simp add: parse_string_plain)
      then have "length r < length cs" using less.hyps s by simp
      then show ?thesis using s by simp
    qed
  qed
qed

section \<open>Numbers\<close>

text \<open>
  \<open>parse_number\<close>: the integer part is accumulated in an \<open>int64_t\<close> while it fits and promoted to a
  double at the first digit that would overflow; a fraction or an exponent also makes it a double.
\<close>

record int_scan =
  ival :: int
  big :: dbl
  overflow :: bool

definition int_digit :: "int_scan \<Rightarrow> int \<Rightarrow> int_scan" where
  "int_digit st digit =
     (let st1 =
        (if overflow st then st
         else if (INT64_MAX - digit) div 10 < ival st
           then st\<lparr>overflow := True, big := d_of_int (ival st)\<rparr>
           else st\<lparr>ival := ival st * 10 + digit\<rparr>)
      in if overflow st1 then st1\<lparr>big := dadd (dmul (big st1) (DFin 10)) (d_of_int digit)\<rparr> else st1)"

fun scan_int :: "int_scan \<Rightarrow> string \<Rightarrow> int_scan \<times> string" where
  "scan_int st [] = (st, [])"
| "scan_int st (c # cs) =
     (if is_digit c then scan_int (int_digit st (digit_val c)) cs else (st, c # cs))"

fun scan_frac :: "dbl \<Rightarrow> dbl \<Rightarrow> string \<Rightarrow> dbl \<times> string" where
  "scan_frac dval place [] = (dval, [])"
| "scan_frac dval place (c # cs) =
     (if is_digit c
      then scan_frac (dadd dval (dmul (d_of_int (digit_val c)) place)) (dmul place (rnd (1 / 10))) cs
      else (dval, c # cs))"

fun scan_exp :: "int \<Rightarrow> string \<Rightarrow> int \<times> string" where
  "scan_exp e [] = (e, [])"
| "scan_exp e (c # cs) =
     (if is_digit c then scan_exp (i64 (i64 (e * 10) + digit_val c)) cs else (e, c # cs))"

definition scale10 :: "bool \<Rightarrow> int \<Rightarrow> dbl \<Rightarrow> dbl" where
  "scale10 eneg e dval =
     ((\<lambda>d. if eneg then ddiv d (DFin 10) else dmul d (DFin 10)) ^^ nat e) dval"

definition fraction_part :: "dbl \<Rightarrow> string \<Rightarrow> bool \<times> dbl \<times> string" where
  "fraction_part dval s =
     (case consume CHR ''.'' s of
        None \<Rightarrow> (False, dval, s)
      | Some r \<Rightarrow> (let (d, r') = scan_frac dval (rnd (1 / 10)) r in (True, d, r')))"

definition exponent_part :: "dbl \<Rightarrow> string \<Rightarrow> bool \<times> dbl \<times> string" where
  "exponent_part dval s =
     (case s of
        c # r \<Rightarrow>
          if c = CHR ''e'' \<or> c = CHR ''E'' then
            (let (eneg, r1) =
               (case r of
                  x # xs \<Rightarrow> if x = CHR ''+'' \<or> x = CHR ''-'' then (x = CHR ''-'', xs) else (False, r)
                | [] \<Rightarrow> (False, r));
               (e, r2) = scan_exp 0 r1
             in (True, scale10 eneg e dval, r2))
          else (False, dval, s)
      | [] \<Rightarrow> (False, dval, s))"

definition parse_number :: "string \<Rightarrow> (jvalue \<times> string) option" where
  "parse_number s =
     (let (neg, s1) = (case consume CHR ''-'' s of Some r \<Rightarrow> (True, r) | None \<Rightarrow> (False, s)) in
      if s1 = [] \<or> \<not> is_digit (hd s1) then None
      else
        (let (st, s2) = scan_int \<lparr>ival = 0, big = DFin 0, overflow = False\<rparr> s1;
           dval = (if overflow st then big st else d_of_int (ival st));
           (has_frac, dval1, s3) = fraction_part dval s2;
           (has_exp, dval2, s4) = exponent_part dval1 s3
         in if overflow st \<or> has_frac \<or> has_exp
            then Some (JDouble (if neg then dneg dval2 else dval2), s4)
            else Some (JInt (if neg then - ival st else ival st), s4)))"

lemma consume_length: "consume c s = Some r \<Longrightarrow> length s = Suc (length r)"
  by (cases s) (auto split: if_splits)

lemma scan_int_length: "length (snd (scan_int st s)) \<le> length s"
  by (induction st s rule: scan_int.induct) (auto simp: le_Suc_eq)

lemma scan_int_length_digit:
  "s \<noteq> [] \<Longrightarrow> is_digit (hd s) \<Longrightarrow> length (snd (scan_int st s)) < length s"
  using scan_int_length by (cases s) (auto simp: le_imp_less_Suc)

lemma scan_frac_length: "length (snd (scan_frac d f s)) \<le> length s"
  by (induction d f s rule: scan_frac.induct) (auto simp: le_Suc_eq)

lemma scan_exp_length: "length (snd (scan_exp e s)) \<le> length s"
  by (induction e s rule: scan_exp.induct) (auto simp: le_Suc_eq)

lemma fraction_part_length: "fraction_part d s = (b, d', r) \<Longrightarrow> length r \<le> length s"
  using scan_frac_length [of d "rnd (1 / 10)" "tl s"]
  by (cases s) (auto simp: fraction_part_def split: if_splits prod.splits)

lemma exponent_part_length:
  assumes "exponent_part d s = (b, d', r)"
  shows "length r \<le> length s"
proof -
  have "length (snd (scan_exp 0 x)) \<le> length x" for x by (rule scan_exp_length)
  from this [of "tl s"] this [of "tl (tl s)"] show ?thesis
    using assms by (cases s)
      (auto simp: exponent_part_def split: if_splits prod.splits list.splits)
qed

lemma parse_number_length:
  assumes "parse_number s = Some (v, r)"
  shows "length r < length s"
proof -
  define s1 where "s1 = (case consume CHR ''-'' s of Some r \<Rightarrow> r | None \<Rightarrow> s)"
  define st where "st = scan_int \<lparr>ival = 0, big = DFin 0, overflow = False\<rparr> s1"
  have s1: "length s1 \<le> length s"
    by (auto simp: s1_def dest: consume_length split: option.splits)
  have ne: "s1 \<noteq> []" "is_digit (hd s1)"
    using assms by (auto simp: parse_number_def s1_def split: option.splits if_splits prod.splits)
  have "length (snd st) < length s1"
    unfolding st_def using ne by (rule scan_int_length_digit)
  moreover have "length r \<le> length (snd st)"
    using assms fraction_part_length exponent_part_length
    by (fastforce simp: parse_number_def st_def s1_def Let_def split: option.splits if_splits prod.splits)
  ultimately show ?thesis using s1 by simp
qed

section \<open>Values\<close>

function (sequential) parse_value :: "string \<Rightarrow> (jvalue \<times> string) option"
  and parse_members :: "(string \<times> jvalue) list \<Rightarrow> string \<Rightarrow> (jvalue \<times> string) option"
  and parse_elems :: "jvalue list \<Rightarrow> string \<Rightarrow> (jvalue \<times> string) option"
where
  "parse_value s =
     (case skip_ws s of
        [] \<Rightarrow> None
      | c # cs \<Rightarrow>
          if c = CHR 0x22 then
            (case parse_string [] cs of None \<Rightarrow> None | Some (t, r) \<Rightarrow> Some (JString t, r))
          else if c = CHR ''{'' then
            (case consume CHR ''}'' (skip_ws cs) of
               Some r \<Rightarrow> Some (JObject [], r)
             | None \<Rightarrow> parse_members [] (skip_ws cs))
          else if c = CHR ''['' then
            (case consume CHR '']'' (skip_ws cs) of
               Some r \<Rightarrow> Some (JArray [], r)
             | None \<Rightarrow> parse_elems [] (skip_ws cs))
          else if c = CHR ''t'' then
            (if take 3 cs = ''rue'' then Some (JBool True, drop 3 cs) else None)
          else if c = CHR ''f'' then
            (if take 4 cs = ''alse'' then Some (JBool False, drop 4 cs) else None)
          else if c = CHR ''n'' then
            (if take 3 cs = ''ull'' then Some (JNull, drop 3 cs) else None)
          else if c = CHR ''-'' \<or> is_digit c then parse_number (c # cs)
          else None)"
| "parse_members acc s =
     (case consume CHR 0x22 (skip_ws s) of
        None \<Rightarrow> None
      | Some s1 \<Rightarrow>
          (case parse_string [] s1 of
             None \<Rightarrow> None
           | Some (key, s2) \<Rightarrow>
               (case consume CHR '':'' (skip_ws s2) of
                  None \<Rightarrow> None
                | Some s3 \<Rightarrow>
                    (case parse_value (skip_ws s3) of
                       None \<Rightarrow> None
                     | Some (v, s4) \<Rightarrow>
                         (case consume CHR ''}'' (skip_ws s4) of
                            Some r \<Rightarrow> Some (JObject (AList.update key v acc), r)
                          | None \<Rightarrow>
                              (case consume CHR '','' (skip_ws s4) of
                                 None \<Rightarrow> None
                               | Some s5 \<Rightarrow> parse_members (AList.update key v acc) s5))))))"
| "parse_elems acc s =
     (case parse_value (skip_ws s) of
        None \<Rightarrow> None
      | Some (v, s1) \<Rightarrow>
          (case consume CHR '']'' (skip_ws s1) of
             Some r \<Rightarrow> Some (JArray (acc @ [v]), r)
           | None \<Rightarrow>
               (case consume CHR '','' (skip_ws s1) of
                  None \<Rightarrow> None
                | Some s2 \<Rightarrow> parse_elems (acc @ [v]) s2)))"
  by pat_completeness auto

lemma skip_ws_length: "length (skip_ws s) \<le> length s"
  by (simp add: skip_ws_def length_dropWhile_le)

lemma skip_ws_Cons_length: "skip_ws s = c # cs \<Longrightarrow> length cs < length s"
  using skip_ws_length [of s] by simp

lemma consume_skip_length: "consume c (skip_ws s) = Some r \<Longrightarrow> length r < length s"
  using skip_ws_length [of s] by (auto dest: consume_length)

text \<open>The parsers read at least one character; needed before termination, hence on the domain.\<close>

lemma parse_lengths_dom:
  "parse_value_parse_members_parse_elems_dom (Inl s) \<Longrightarrow>
     (\<And>v r. parse_value s = Some (v, r) \<Longrightarrow> length r < length s)"
  "parse_value_parse_members_parse_elems_dom (Inr (Inl (acc, s))) \<Longrightarrow>
     (\<And>v r. parse_members acc s = Some (v, r) \<Longrightarrow> length r < length s)"
  "parse_value_parse_members_parse_elems_dom (Inr (Inr (acc', s))) \<Longrightarrow>
     (\<And>v r. parse_elems acc' s = Some (v, r) \<Longrightarrow> length r < length s)"
proof (induction rule: parse_value_parse_members_parse_elems.pinduct)
  case (1 s)
  show ?case
  proof (cases "skip_ws s")
    case Nil
    then show ?thesis using 1(1,4) by (simp add: parse_value.psimps)
  next
    case (Cons c cs)
    have len: "length cs < length s" using Cons by (rule skip_ws_Cons_length)
    have num: "parse_number (c # cs) = Some (v, r) \<Longrightarrow> length r < length s"
      using parse_number_length [of "c # cs" v r] len by simp
    have str: "parse_string [] cs = Some (t, r) \<Longrightarrow> length r < length s" for t
      using parse_string_length [of "[]" cs t r] len by simp
    have skip: "length (skip_ws cs) \<le> length cs" by (rule skip_ws_length)
    show ?thesis
      using 1(1,4) 1(2,3) [OF Cons] len num str skip
      by (auto simp: parse_value.psimps Cons split: if_splits option.splits dest: consume_length)
  qed
next
  case (2 acc s)
  note eq = parse_members.psimps [OF 2(1)]
  obtain s1 key s2 s3 w s4 where steps: "consume CHR 0x22 (skip_ws s) = Some s1"
    "parse_string [] s1 = Some (key, s2)" "consume CHR '':'' (skip_ws s2) = Some s3"
    "parse_value (skip_ws s3) = Some (w, s4)"
    using 2(4) unfolding eq by (auto split: option.splits)
  have IH: "length s4 < length (skip_ws s3)"
    using 2(2) [OF steps(1) steps(2) refl steps(3)] steps(4) by blast
  have lens: "length s1 < length s" "length s2 < length s1" "length s3 < length s2"
    using steps(1-3) by (auto dest: consume_skip_length parse_string_length)
  have s4: "length s4 < length s" using IH lens skip_ws_length [of s3] by simp
  show ?case
  proof (cases "consume CHR ''}'' (skip_ws s4)")
    case (Some x)
    then show ?thesis using 2(4) s4 unfolding eq by (auto simp: steps dest: consume_skip_length)
  next
    case None
    then obtain s5 where s5: "consume CHR '','' (skip_ws s4) = Some s5"
      "parse_members (AList.update key w acc) s5 = Some (v, r)"
      using 2(4) unfolding eq by (auto simp: steps split: option.splits)
    have "length r < length s5"
      using 2(3) [OF steps(1) steps(2) refl steps(3) steps(4) refl None s5(1)] s5(2) by blast
    then show ?thesis using s4 s5(1) by (auto dest: consume_skip_length)
  qed
next
  case (3 acc' s)
  note eq = parse_elems.psimps [OF 3(1)]
  obtain w s1 where steps: "parse_value (skip_ws s) = Some (w, s1)"
    using 3(4) unfolding eq by (auto split: option.splits)
  have s1: "length s1 < length s"
    using 3(2) steps skip_ws_length [of s] by fastforce
  show ?case
  proof (cases "consume CHR '']'' (skip_ws s1)")
    case (Some x)
    then show ?thesis using 3(4) s1 unfolding eq by (auto simp: steps dest: consume_skip_length)
  next
    case None
    then obtain s2 where s2: "consume CHR '','' (skip_ws s1) = Some s2"
      "parse_elems (acc' @ [w]) s2 = Some (v, r)"
      using 3(4) unfolding eq by (auto simp: steps split: option.splits)
    have "length r < length s2" using 3(3) [OF steps refl None s2(1)] s2(2) by blast
    then show ?thesis using s1 s2(1) by (auto dest: consume_skip_length)
  qed
qed

termination parse_value
proof (relation "measure (\<lambda>x. case x of Inl s \<Rightarrow> 2 * length s
    | Inr (Inl (acc, s)) \<Rightarrow> 2 * length s + 1 | Inr (Inr (acc, s)) \<Rightarrow> 2 * length s + 1)", goal_cases)
  case (2 s c cs)
  then show ?case using skip_ws_length [of cs] skip_ws_Cons_length [of s c cs] by simp
next
  case (3 s c cs)
  then show ?case using skip_ws_length [of cs] skip_ws_Cons_length [of s c cs] by simp
next
  case (4 acc s s1 x key s2 s3)
  then show ?case
    using skip_ws_length [of s3] parse_string_length [of "[]" s1 key s2]
    by (auto dest!: consume_skip_length)
next
  case (5 acc s s1 x key s2 s3 y v s4 s5)
  then have "length s4 < length (skip_ws s3)" by (auto dest: parse_lengths_dom(1))
  then show ?case
    using 5 skip_ws_length [of s3] parse_string_length [of "[]" s1 key s2]
    by (auto dest!: consume_skip_length)
next
  case (6 acc s)
  then show ?case using skip_ws_length [of s] by simp
next
  case (7 acc s x v s1 s2)
  then have "length s1 < length (skip_ws s)" by (auto dest: parse_lengths_dom(1))
  then show ?case using 7 skip_ws_length [of s] by (auto dest!: consume_skip_length)
qed simp

declare parse_value.simps [simp del] parse_members.simps [simp del] parse_elems.simps [simp del]

text \<open>\<open>Json::parse\<close>: one value, nothing but white space after it.\<close>

definition json_parse :: "string \<Rightarrow> jvalue result" where
  "json_parse src =
     (if src = [] then err EC_BadResponse ''empty JSON input''
      else (case parse_value src of
              None \<Rightarrow> err EC_BadResponse ''malformed JSON''
            | Some (v, r) \<Rightarrow>
                if skip_ws r = [] then Inr v
                else err EC_BadResponse ''trailing garbage in JSON''))"

section \<open>Writers\<close>

definition json_escape :: "char \<Rightarrow> string" where
  "json_escape c =
     (if c = CHR 0x22 then [CHR 0x5C, CHR 0x22]
      else if c = CHR 0x5C then [CHR 0x5C, CHR 0x5C]
      else if c = CHR 0x0A then [CHR 0x5C, CHR ''n'']
      else if c = CHR 0x0D then [CHR 0x5C, CHR ''r'']
      else if c = CHR 0x09 then [CHR 0x5C, CHR ''t'']
      else [c])"

definition json_str :: "string \<Rightarrow> string" where
  "json_str s = CHR 0x22 # concat (map json_escape s) @ [CHR 0x22]"

fun comma_join :: "string list \<Rightarrow> string" where
  "comma_join [] = []"
| "comma_join [x] = x"
| "comma_join (x # y # ys) = x @ CHR '','' # comma_join (y # ys)"

text \<open>The text the SDK's writers produce for a value; they never print a double.\<close>

fun render :: "jvalue \<Rightarrow> string" where
  "render JNull = ''null''"
| "render (JBool b) = (if b then ''true'' else ''false'')"
| "render (JInt i) = int_str i"
| "render (JDouble d) = int_str (d_as_int d)"
| "render (JString s) = json_str s"
| "render (JArray vs) = CHR ''['' # comma_join (map render vs) @ [CHR '']'']"
| "render (JObject kvs) =
     CHR ''{'' # comma_join (map (\<lambda>(k, v). json_str k @ CHR '':'' # render v) kvs) @ [CHR ''}'']"

section \<open>Reading back what was written\<close>

subsection \<open>Strings\<close>

lemma parse_string_escaped:
  "parse_string out (json_escape c @ s) = parse_string (out @ [c]) s"
  by (simp add: json_escape_def parse_string_plain parse_string_escape simple_escape_def)

lemma parse_string_concat:
  "parse_string out (concat (map json_escape t) @ CHR 0x22 # r) = Some (out @ t, r)"
  by (induction t arbitrary: out) (simp_all add: parse_string_escaped parse_string_close)

lemma parse_string_json_str [decodes]:
  "\<exists>q. json_str t @ r = CHR 0x22 # q \<and> parse_string [] q = Some (t, r)"
  by (simp add: json_str_def parse_string_concat)

lemma parse_value_json_str [decodes]: "parse_value (json_str t @ r) = Some (JString t, r)"
  by (simp add: parse_value.simps json_str_def skip_ws_def is_ws_def parse_string_concat)

subsection \<open>Integers\<close>

definition num_stop :: "string \<Rightarrow> bool" where
  "num_stop r \<longleftrightarrow>
     (case r of [] \<Rightarrow> True
      | c # _ \<Rightarrow> \<not> is_digit c \<and> c \<noteq> CHR ''.'' \<and> c \<noteq> CHR ''e'' \<and> c \<noteq> CHR ''E'')"

abbreviation digit_step :: "int \<Rightarrow> char \<Rightarrow> int" where
  "digit_step a c \<equiv> a * 10 + digit_val c"

lemma foldl_digits_ge:
  "\<forall>c \<in> set s. is_digit c \<Longrightarrow> 0 \<le> a \<Longrightarrow> a \<le> foldl digit_step a s"
proof (induction s arbitrary: a)
  case (Cons c s)
  then have "0 \<le> digit_val c" by (simp add: digit_val_bounds)
  then have "a \<le> digit_step a c" "0 \<le> digit_step a c" using Cons.prems by simp_all
  then show ?case using Cons.IH [of "digit_step a c"] Cons.prems by simp
qed simp

lemma scan_int_fits:
  assumes "\<forall>c \<in> set s. is_digit c" "0 \<le> a" "foldl digit_step a s \<le> INT64_MAX"
  shows "scan_int \<lparr>ival = a, big = b, overflow = False\<rparr> (s @ r) =
    scan_int \<lparr>ival = foldl digit_step a s, big = b, overflow = False\<rparr> r"
  using assms
proof (induction s arbitrary: a)
  case (Cons c s)
  have d: "0 \<le> digit_val c" "digit_val c \<le> 9" using Cons.prems(1) by (simp_all add: digit_val_bounds)
  then have nonneg: "0 \<le> digit_step a c" using Cons.prems(2) by simp
  have "digit_step a c \<le> INT64_MAX"
    using foldl_digits_ge [of s "digit_step a c"] Cons.prems nonneg by simp
  then have "\<not> (INT64_MAX - digit_val c) div 10 < a" by linarith
  then show ?case
    using Cons.IH [of "digit_step a c"] Cons.prems nonneg by (simp add: int_digit_def)
qed simp

lemma scan_int_stop: "num_stop r \<Longrightarrow> scan_int st r = (st, r)"
  by (cases r) (auto simp: num_stop_def)

lemma no_fraction: "num_stop r \<Longrightarrow> fraction_part d r = (False, d, r)"
  by (cases r) (auto simp: num_stop_def fraction_part_def)

lemma no_exponent: "num_stop r \<Longrightarrow> exponent_part d r = (False, d, r)"
  by (cases r) (auto simp: num_stop_def exponent_part_def)

lemma nat_str_digit_list: "\<forall>c \<in> set (nat_str n). is_digit c"
  by (auto dest: nat_str_digits)

lemma hd_nat_str: "is_digit (hd (nat_str n @ r))"
  using nat_str_digits [of "hd (nat_str n)" n] by simp

lemma consume_minus_nat_str: "consume CHR ''-'' (nat_str n @ r) = None"
  using hd_nat_str [of n r] by (cases "nat_str n") (auto simp: nat_str_not_minus)

lemma scan_int_nat_str:
  assumes "int n \<le> INT64_MAX"
  shows "scan_int \<lparr>ival = 0, big = b, overflow = False\<rparr> (nat_str n @ r) =
    scan_int \<lparr>ival = int n, big = b, overflow = False\<rparr> r"
  using scan_int_fits [of "nat_str n" 0 b r] assms digits_val_nat_str [of n]
  by (simp add: nat_str_digit_list digits_val_def)

lemma parse_number_int:
  assumes "in64 i" "i \<noteq> INT64_MIN" "num_stop r"
  shows "parse_number (int_str i @ r) = Some (JInt i, r)"
proof (cases "i < 0")
  case True
  then have "int (nat (- i)) \<le> INT64_MAX"
    using assms(1,2) by (simp add: in64_def INT64_MIN_def INT64_MAX_def)
  then show ?thesis
    using True assms(3) hd_nat_str [of "nat (- i)" r]
    by (simp add: parse_number_def int_str_def scan_int_nat_str scan_int_stop no_fraction no_exponent)
next
  case False
  then have "int (nat i) \<le> INT64_MAX" using assms(1) by (simp add: in64_def)
  then show ?thesis
    using False assms(3) hd_nat_str [of "nat i" r]
    by (simp add: parse_number_def int_str_def consume_minus_nat_str scan_int_nat_str scan_int_stop
        no_fraction no_exponent)
qed

subsection \<open>The one integer that does not come back as an integer\<close>

text \<open>
  \<open>INT64_MIN\<close> prints nineteen digits whose magnitude is one above \<open>INT64_MAX\<close>, so the parser promotes
  it to a double; the double is exact and \<open>as_int\<close> reads it back as \<open>INT64_MIN\<close>.
\<close>

lemma d_of_int_prefix: "d_of_int 922337203685477580 = DFin 922337203685477632"
proof -
  have e: "ilog2 922337203685477580 = 59"
    by (simp add: ilog2_def nlog2_big nlog2_small)
  have n: "round_even (922337203685477580 / 2 ^ nat (59 - 52)) = 7205759403792794"
    by (rule round_even_near) simp
  have "rnd 922337203685477580 = DFin (of_int 7205759403792794 * 2 ^ nat (59 - 52))"
    by (rule rnd_at [OF _ e _ _ n]) simp_all
  then show ?thesis by (simp add: d_of_int_def)
qed

lemma rnd_2_63:
  assumes "x = 9223372036854776320 \<or> x = 9223372036854775816"
  shows "rnd x = DFin 9223372036854775808"
proof -
  have e: "ilog2 x = 63"
    using assms by (elim disjE) (simp_all add: ilog2_def nlog2_big nlog2_small)
  have n: "round_even (x / 2 ^ nat (63 - 52)) = 4503599627370496"
    using assms by (elim disjE) (simp_all add: round_even_near)
  have "rnd x = DFin (of_int 4503599627370496 * 2 ^ nat (63 - 52))"
    by (rule rnd_at [OF _ e _ _ n]) (use assms in auto)
  then show ?thesis by simp
qed

lemma d_of_int_8: "d_of_int 8 = DFin 8"
proof -
  have "ilog2 8 = 3" by (simp add: ilog2_def nlog2_big nlog2_small)
  moreover have "round_even 4503599627370496 = 4503599627370496"
    using round_even_int [of 4503599627370496] by simp
  ultimately show ?thesis by (simp add: d_of_int_def rnd_def pow2_def)
qed

definition min_double :: jvalue where
  "min_double = JDouble (DFin (- 9223372036854775808))"

lemma as_int_min_double: "as_int min_double = INT64_MIN"
  by (simp add: as_int_def min_double_def trunc_rat_def INT64_MIN_def)

lemma parse_number_min:
  assumes "num_stop r"
  shows "parse_number (int_str INT64_MIN @ r) = Some (min_double, r)"
proof -
  have str: "int_str INT64_MIN = CHR ''-'' # nat_str 922337203685477580 @ ''8''"
    by (simp add: int_str_def INT64_MIN_def nat_str.simps [of 9223372036854775808] digit_chars)
  have step: "int_digit \<lparr>ival = 922337203685477580, big = DFin 0, overflow = False\<rparr> 8 =
      \<lparr>ival = 922337203685477580, big = DFin 9223372036854775808, overflow = True\<rparr>"
    by (simp add: int_digit_def INT64_MAX_def d_of_int_prefix d_of_int_8 rnd_2_63)
  have "scan_int \<lparr>ival = 0, big = DFin 0, overflow = False\<rparr> (nat_str 922337203685477580 @ ''8'' @ r) =
      (\<lparr>ival = 922337203685477580, big = DFin 9223372036854775808, overflow = True\<rparr>, r)"
    using assms step
    by (simp add: scan_int_nat_str INT64_MAX_def scan_int_stop is_digit_def digit_val_def)
  then show ?thesis
    using assms hd_nat_str [of 922337203685477580 "''8'' @ r"]
    by (simp add: parse_number_def str no_fraction no_exponent min_double_def)
qed

definition jint :: "int \<Rightarrow> jvalue" where
  "jint i = (if i = INT64_MIN then min_double else JInt i)"

lemma as_int_jint [simp, decodes]: "as_int (jint i) = i"
  by (simp add: jint_def as_int_min_double) (simp add: as_int_def)

lemma parse_number_int_str [decodes]:
  "in64 i \<Longrightarrow> num_stop r \<Longrightarrow> parse_number (int_str i @ r) = Some (jint i, r)"
  by (simp add: jint_def parse_number_int parse_number_min)

subsection \<open>Values\<close>

text \<open>What the writers can print, and the value the parser makes of it.\<close>

fun writable :: "jvalue \<Rightarrow> bool" where
  "writable JNull = True"
| "writable (JBool b) = True"
| "writable (JInt i) = in64 i"
| "writable (JDouble d) = False"
| "writable (JString s) = True"
| "writable (JArray vs) = list_all writable vs"
| "writable (JObject kvs) = (distinct (map fst kvs) \<and> list_all (\<lambda>(k, v). writable v) kvs)"

fun reread :: "jvalue \<Rightarrow> jvalue" where
  "reread (JInt i) = jint i"
| "reread (JArray vs) = JArray (map reread vs)"
| "reread (JObject kvs) = JObject (map (\<lambda>(k, v). (k, reread v)) kvs)"
| "reread v = v"

text \<open>A printed value starts with a character that is neither white space nor a closing bracket.\<close>

definition opens_value :: "char \<Rightarrow> bool" where
  "opens_value c \<longleftrightarrow> \<not> is_ws c \<and> c \<noteq> CHR '']'' \<and> c \<noteq> CHR ''}''"

lemma digit_opens: "is_digit c \<Longrightarrow> opens_value c"
  by (auto simp: opens_value_def is_ws_def is_digit_def)

lemma int_str_opens: "\<exists>c cs. int_str i = c # cs \<and> opens_value c \<and> (c = CHR ''-'' \<or> is_digit c)"
proof (cases "i < 0")
  case True
  then show ?thesis by (simp add: int_str_def opens_value_def is_ws_def)
next
  case False
  then obtain c cs where "int_str i = c # cs" "is_digit c"
    using nat_str_digits [of _ "nat i"] by (cases "nat_str (nat i)") (auto simp: int_str_def)
  then show ?thesis by (simp add: digit_opens)
qed

lemma render_opens: "\<exists>c cs. render v = c # cs \<and> opens_value c"
proof (cases v)
  case (JInt i)
  then show ?thesis using int_str_opens [of i] by auto
next
  case (JDouble d)
  then show ?thesis using int_str_opens [of "d_as_int d"] by auto
qed (auto simp: opens_value_def is_ws_def json_str_def)

lemma skip_ws_render [simp]: "skip_ws (render v @ r) = render v @ r"
  using render_opens [of v] by (auto simp: skip_ws_def opens_value_def)

lemma consume_render:
  "consume CHR '']'' (render v @ r) = None" "consume CHR ''}'' (render v @ r) = None"
  using render_opens [of v] by (auto simp: opens_value_def)

lemma skip_ws_punct [simp]:
  "skip_ws (CHR '','' # r) = CHR '','' # r" "skip_ws (CHR '']'' # r) = CHR '']'' # r"
  "skip_ws (CHR ''}'' # r) = CHR ''}'' # r" "skip_ws (CHR '':'' # r) = CHR '':'' # r"
  "skip_ws (CHR ''['' # r) = CHR ''['' # r" "skip_ws (CHR ''{'' # r) = CHR ''{'' # r"
  "skip_ws (CHR 0x22 # r) = CHR 0x22 # r" "skip_ws (json_str k @ r) = json_str k @ r"
  by (simp_all add: skip_ws_def is_ws_def json_str_def)

lemma num_stop_punct [simp]:
  "num_stop (CHR '','' # r)" "num_stop (CHR '']'' # r)" "num_stop (CHR ''}'' # r)" "num_stop []"
  by (simp_all add: num_stop_def is_digit_def)

lemma parse_value_int_str:
  assumes "in64 i" "num_stop r"
  shows "parse_value (int_str i @ r) = Some (jint i, r)"
proof -
  obtain c cs where c: "int_str i = c # cs" "opens_value c" "c = CHR ''-'' \<or> is_digit c"
    using int_str_opens by blast
  moreover have "c \<noteq> CHR 0x22" "c \<noteq> CHR ''{''" "c \<noteq> CHR ''[''" "c \<noteq> CHR ''t''"
    "c \<noteq> CHR ''f''" "c \<noteq> CHR ''n''"
    using c(3) by (auto simp: is_digit_def)
  ultimately show ?thesis
    using parse_number_int_str [OF assms]
    by (simp add: parse_value.simps skip_ws_def opens_value_def)
qed

lemma update_new: "k \<notin> fst ` set kvs \<Longrightarrow> AList.update k v kvs = kvs @ [(k, v)]"
  by (induction kvs) auto

abbreviation render_member :: "string \<times> jvalue \<Rightarrow> string" where
  "render_member \<equiv> \<lambda>(k, v). json_str k @ CHR '':'' # render v"

lemma parse_elems_render:
  assumes "vs \<noteq> []"
    "\<And>v r. v \<in> set vs \<Longrightarrow> num_stop r \<Longrightarrow> parse_value (render v @ r) = Some (reread v, r)"
  shows "parse_elems acc (comma_join (map render vs) @ CHR '']'' # r) =
    Some (JArray (acc @ map reread vs), r)"
  using assms
proof (induction vs arbitrary: acc)
  case (Cons v vs)
  then show ?case by (cases vs) (simp_all add: parse_elems.simps [of acc])
qed simp

lemma parse_members_render:
  assumes "kvs \<noteq> []" "distinct (map fst kvs)" "fst ` set kvs \<inter> fst ` set acc = {}"
    "\<And>k v r. (k, v) \<in> set kvs \<Longrightarrow> num_stop r \<Longrightarrow> parse_value (render v @ r) = Some (reread v, r)"
  shows "parse_members acc (comma_join (map render_member kvs) @ CHR ''}'' # r) =
    Some (JObject (acc @ map (\<lambda>(k, v). (k, reread v)) kvs), r)"
  using assms
proof (induction kvs arbitrary: acc)
  case (Cons kv kvs)
  obtain k v where kv: "kv = (k, v)" by (cases kv)
  have pv: "parse_value (render v @ s) = Some (reread v, s)" if "num_stop s" for s
    using Cons.prems(4) [of k v s] that kv by simp
  have new: "AList.update k x acc = acc @ [(k, x)]" for x
    using Cons.prems(3) kv by (intro update_new) auto
  have key: "\<exists>q. json_str k @ s = CHR 0x22 # q \<and> parse_string [] q = Some (k, s)" for s
    by (rule parse_string_json_str)
  show ?case
  proof (cases kvs)
    case Nil
    then show ?thesis
      using key [of "CHR '':'' # render v @ CHR ''}'' # r"]
      by (auto simp: parse_members.simps [of acc] kv pv new)
  next
    case (Cons kv' kvs')
    have "parse_members (acc @ [(k, reread v)]) (comma_join (map render_member kvs) @ CHR ''}'' # r) =
      Some (JObject ((acc @ [(k, reread v)]) @ map (\<lambda>(k, v). (k, reread v)) kvs), r)"
      by (rule Cons.IH) (use Cons.prems Cons kv in auto)
    then show ?thesis
      using Cons key [of "CHR '':'' # render v @ CHR '','' # comma_join (map render_member kvs) @ CHR ''}'' # r"]
      by (auto simp: parse_members.simps [of acc] kv pv new)
  qed
qed simp

lemma parse_value_render:
  "writable v \<Longrightarrow> num_stop r \<Longrightarrow> parse_value (render v @ r) = Some (reread v, r)"
proof (induction v arbitrary: r)
  case (JArray vs)
  show ?case
  proof (cases vs)
    case Nil
    then show ?thesis by (simp add: parse_value.simps skip_ws_def is_ws_def)
  next
    case (Cons v ws)
    have none: "consume CHR '']'' (comma_join (map render vs) @ s) = None" for s
      using Cons consume_render(1) by (cases ws) auto
    have skip: "skip_ws (comma_join (map render vs) @ s) = comma_join (map render vs) @ s" for s
      using Cons skip_ws_render by (cases ws) auto
    have "parse_elems [] (comma_join (map render vs) @ CHR '']'' # r) = Some (JArray ([] @ map reread vs), r)"
      by (rule parse_elems_render) (use JArray Cons in \<open>auto simp: list_all_iff\<close>)
    then show ?thesis
      by (simp add: parse_value.simps [of "CHR ''['' # _"] none skip)
  qed
next
  case (JObject kvs)
  show ?case
  proof (cases kvs)
    case Nil
    then show ?thesis by (simp add: parse_value.simps skip_ws_def is_ws_def)
  next
    case (Cons kv ws)
    have head: "\<exists>q. comma_join (map render_member kvs) @ s = CHR 0x22 # q" for s
      using Cons by (cases ws) (auto simp: json_str_def split: prod.splits)
    have none: "consume CHR ''}'' (comma_join (map render_member kvs) @ s) = None" for s
      using head [of s] by auto
    have skip: "skip_ws (comma_join (map render_member kvs) @ s) = comma_join (map render_member kvs) @ s" for s
      using head [of s] by auto
    have ih: "parse_value (render v @ s) = Some (reread v, s)"
      if "(k, v) \<in> set kvs" "num_stop s" for k v s
      using JObject.IH [of "(k, v)" v s] JObject.prems that by (auto simp: list_all_iff)
    have "parse_members [] (comma_join (map render_member kvs) @ CHR ''}'' # r) =
      Some (JObject ([] @ map (\<lambda>(k, v). (k, reread v)) kvs), r)"
      by (rule parse_members_render) (use ih JObject.prems Cons in auto)
    then show ?thesis
      by (simp add: parse_value.simps [of "CHR ''{'' # _"] none skip)
  qed
qed (simp_all add: parse_value_int_str parse_value_json_str,
    simp_all add: parse_value.simps skip_ws_def is_ws_def)

lemma parse_render:
  assumes "writable v"
  shows "json_parse (render v) = Inr (reread v)"
proof -
  have "parse_value (render v) = Some (reread v, [])"
    using parse_value_render [OF assms, of "[]"] by simp
  moreover have "render v \<noteq> []" using render_opens [of v] by auto
  ultimately show ?thesis by (simp add: json_parse_def skip_ws_def)
qed

text \<open>
  C38. Whatever the SDK's writers print -- any nesting of arrays and objects with distinct keys, any
  byte string, any 64-bit integer -- the SDK's parser reads back as the same value. The only change
  is that \<open>INT64_MIN\<close> comes back as a double; \<open>as_int\<close> reads it as the same integer
  (\<open>as_int_jint\<close>).
\<close>
theorem json_round_trip:
  assumes "writable v"
  shows "json_parse (render v) = Inr (reread v)"
  using assms by (rule parse_render)

theorem json_round_trip_witness:
  "json_parse (render (JObject [(''a'', JArray [JInt (-5), JBool True]), (''b'', JString ''x'')])) =
     Inr (JObject [(''a'', JArray [JInt (-5), JBool True]), (''b'', JString ''x'')])"
proof -
  let ?v = "JObject [(''a'', JArray [JInt (-5), JBool True]), (''b'', JString ''x'')]"
  have "writable ?v" by (simp add: in64_def INT64_MIN_def INT64_MAX_def)
  from json_round_trip [OF this] show ?thesis by (simp add: jint_def INT64_MIN_def)
qed

section \<open>Integers stay in range\<close>

fun in_range :: "jvalue \<Rightarrow> bool" where
  "in_range (JInt i) = in64 i"
| "in_range (JArray vs) = list_all in_range vs"
| "in_range (JObject kvs) = list_all (\<lambda>(k, v). in_range v) kvs"
| "in_range v = True"

lemma scan_int_range:
  assumes "0 \<le> ival st" "ival st \<le> INT64_MAX"
  shows "0 \<le> ival (fst (scan_int st s)) \<and> ival (fst (scan_int st s)) \<le> INT64_MAX"
  using assms
proof (induction st s rule: scan_int.induct)
  case (2 st c cs)
  show ?case
  proof (cases "is_digit c")
    case True
    then have d: "0 \<le> digit_val c" "digit_val c \<le> 9" by (simp_all add: digit_val_bounds)
    have "0 \<le> ival (int_digit st (digit_val c)) \<and> ival (int_digit st (digit_val c)) \<le> INT64_MAX"
    proof (cases "(INT64_MAX - digit_val c) div 10 < ival st")
      case False
      then have "ival st * 10 + digit_val c \<le> INT64_MAX" by linarith
      then show ?thesis using False 2 d by (simp add: int_digit_def Let_def)
    qed (use 2 in \<open>simp add: int_digit_def Let_def\<close>)
    then show ?thesis using 2 True by simp
  qed (use 2 in simp)
qed simp

lemma parse_number_in_range: "parse_number s = Some (v, r) \<Longrightarrow> in_range v"
proof -
  assume a: "parse_number s = Some (v, r)"
  have "in64 (ival (fst (scan_int \<lparr>ival = 0, big = DFin 0, overflow = False\<rparr> x)))"
    "in64 (- ival (fst (scan_int \<lparr>ival = 0, big = DFin 0, overflow = False\<rparr> x)))" for x
    using scan_int_range [of "\<lparr>ival = 0, big = DFin 0, overflow = False\<rparr>" x]
    by (auto simp: in64_def INT64_MIN_def INT64_MAX_def)
  from this [of s] this [of "tl s"] show ?thesis
    using a by (cases s)
      (auto simp: parse_number_def Let_def split: if_splits prod.splits)
qed

lemma in_range_update:
  "list_all (\<lambda>(k, v). in_range v) kvs \<Longrightarrow> in_range v \<Longrightarrow>
     list_all (\<lambda>(k, v). in_range v) (AList.update k v kvs)"
  by (induction kvs) auto

lemma parse_in_range:
  "parse_value s = Some (v, r) \<Longrightarrow> in_range v"
  "parse_members acc s = Some (v, r) \<Longrightarrow> list_all (\<lambda>(k, v). in_range v) acc \<Longrightarrow> in_range v"
  "parse_elems acc' s = Some (v, r) \<Longrightarrow> list_all in_range acc' \<Longrightarrow> in_range v"
proof (induction s and acc s and acc' s arbitrary: v r and v r and v r
    rule: parse_value_parse_members_parse_elems.induct)
  case (1 s)
  show ?case
  proof (cases "skip_ws s")
    case Nil
    then show ?thesis using 1 by (simp add: parse_value.simps)
  next
    case (Cons c cs)
    have m: "c = CHR ''{'' \<Longrightarrow> consume CHR ''}'' (skip_ws cs) = None \<Longrightarrow>
        parse_members [] (skip_ws cs) = Some (v, r) \<Longrightarrow> in_range v"
      using 1(1) [OF Cons] by simp
    have e: "c = CHR ''['' \<Longrightarrow> consume CHR '']'' (skip_ws cs) = None \<Longrightarrow>
        parse_elems [] (skip_ws cs) = Some (v, r) \<Longrightarrow> in_range v"
      using 1(2) [OF Cons] by simp
    have n: "parse_number (c # cs) = Some (v, r) \<Longrightarrow> in_range v"
      by (rule parse_number_in_range)
    show ?thesis
      using 1(3) m e n unfolding parse_value.simps [of s] Cons
      by (simp split: if_split_asm option.split_asm prod.split_asm) auto
  qed
next
  case (2 acc s)
  obtain s1 key s2 s3 w s4 where steps: "consume CHR 0x22 (skip_ws s) = Some s1"
    "parse_string [] s1 = Some (key, s2)" "consume CHR '':'' (skip_ws s2) = Some s3"
    "parse_value (skip_ws s3) = Some (w, s4)"
    using 2(3) unfolding parse_members.simps [of acc s] by (auto split: option.splits)
  have "in_range w" using 2(1) [OF steps(1) steps(2) refl steps(3) steps(4)] .
  then have upd: "list_all (\<lambda>(k, v). in_range v) (AList.update key w acc)"
    using 2(4) by (rule in_range_update [rotated])
  show ?case
  proof (cases "consume CHR ''}'' (skip_ws s4)")
    case (Some x)
    then show ?thesis
      using 2(3) upd unfolding parse_members.simps [of acc s] by (auto simp: steps)
  next
    case None
    then obtain s5 where s5: "consume CHR '','' (skip_ws s4) = Some s5"
      "parse_members (AList.update key w acc) s5 = Some (v, r)"
      using 2(3) unfolding parse_members.simps [of acc s] by (auto simp: steps split: option.splits)
    show ?thesis
      using 2(2) [OF steps(1) steps(2) refl steps(3) steps(4) refl None s5(1) s5(2) upd] .
  qed
next
  case (3 acc' s)
  obtain w s1 where steps: "parse_value (skip_ws s) = Some (w, s1)"
    using 3(3) unfolding parse_elems.simps [of acc' s] by (auto split: option.splits)
  have "in_range w" using 3(1) [OF steps] .
  then have upd: "list_all in_range (acc' @ [w])" using 3(4) by simp
  show ?case
  proof (cases "consume CHR '']'' (skip_ws s1)")
    case (Some x)
    then show ?thesis
      using 3(3) upd unfolding parse_elems.simps [of acc' s] by (auto simp: steps)
  next
    case None
    then obtain s2 where s2: "consume CHR '','' (skip_ws s1) = Some s2"
      "parse_elems (acc' @ [w]) s2 = Some (v, r)"
      using 3(3) unfolding parse_elems.simps [of acc' s] by (auto simp: steps split: option.splits)
    show ?thesis using 3(2) [OF steps refl None s2(1) s2(2) upd] .
  qed
qed

lemma as_int_in64: "in_range v \<Longrightarrow> in64 (as_int v)"
  using in64_d_as_int
  by (cases v) (simp_all add: as_int_def, simp_all add: in64_def INT64_MIN_def INT64_MAX_def)

lemma in_range_jget: "in_range j \<Longrightarrow> in_range (jget j k)"
  by (auto simp: jget_def list_all_iff split: jvalue.splits option.splits dest!: map_of_SomeD)

lemma in_range_jat: "in_range j \<Longrightarrow> in_range (jat j i)"
  by (auto simp: jat_def list_all_iff split: jvalue.splits)

lemma json_parse_in_range: "json_parse s = Inr j \<Longrightarrow> in_range j"
  by (auto simp: json_parse_def parse_in_range(1) split: if_splits option.splits)

text \<open>
  Reading an integer field of any body the parser accepts -- however long its digits, whatever
  its fraction or exponent, absent or of another type -- gives a value of \<open>int64_t\<close>: the
  accumulation never leaves the range and the conversion of a double saturates instead of
  overflowing.
\<close>
theorem json_ints_in_range:
  assumes "json_parse body = Inr j"
  shows "in64 (as_int (jget j key)) \<and> in64 (as_int (jat j i))"
  using assms by (simp add: as_int_in64 in_range_jget in_range_jat json_parse_in_range)

theorem json_ints_in_range_witness:
  "json_parse (render (JObject [(''a'', JInt 7)])) = Inr (JObject [(''a'', JInt 7)]) \<and>
   in64 (as_int (jget (JObject [(''a'', JInt 7)]) ''a''))"
proof -
  have "parse_value (render (JObject [(''a'', JInt 7)])) = Some (JObject [(''a'', JInt 7)], [])"
    using parse_value_render [of "JObject [(''a'', JInt 7)]" "[]"]
    by (simp add: in64_def INT64_MIN_def INT64_MAX_def jint_def)
  then have p: "json_parse (render (JObject [(''a'', JInt 7)])) = Inr (JObject [(''a'', JInt 7)])"
    by (simp add: json_parse_def skip_ws_def)
  show ?thesis using p json_ints_in_range [OF p, of "''a''" 0] by blast
qed

end
