(* ===== verification/Block_Hash.thy ===== *)
theory Block_Hash
  imports Prelude
begin

text \<open>
  What the two streaming hashes of the SDK (SHA-256 in \<open>sha256.hpp\<close>, SHA-512 in \<open>ed25519.hpp\<close>)
  have in common: a message is absorbed block by block through a compression function, and the bytes
  after the last full block wait in a buffer. The locale states the interface a hash provides (a
  positive block size); its lemmas say how the absorbed state and the waiting bytes change when bytes
  are appended, and both hashes interpret it.
\<close>

function chunks :: "nat \<Rightarrow> 'a list \<Rightarrow> 'a list list" where
  "chunks n xs = (if n = 0 \<or> length xs < n then [] else take n xs # chunks n (drop n xs))"
  by pat_completeness auto
termination
  by (relation "measure (\<lambda>(n, xs). length xs)") auto

declare chunks.simps [simp del]

definition absorb :: "('s \<Rightarrow> 'a list \<Rightarrow> 's) \<Rightarrow> nat \<Rightarrow> 's \<Rightarrow> 'a list \<Rightarrow> 's" where
  "absorb compress B s m = foldl compress s (chunks B m)"

definition waiting :: "nat \<Rightarrow> 'a list \<Rightarrow> 'a list" where
  "waiting B m = drop (B * (length m div B)) m"

lemma length_waiting [simp]: "length (waiting B m) = length m mod B"
  by (simp add: waiting_def minus_mult_div_eq_mod)

locale block_hash =
  fixes compress :: "'s \<Rightarrow> 'a list \<Rightarrow> 's" and B :: nat
  assumes block_pos: "0 < B"
begin

lemma chunks_full:
  assumes "length b = B"
  shows "chunks B (b @ m) = b # chunks B m"
  using assms block_pos by (simp add: chunks.simps [of B "b @ m"])

lemma chunks_short: "length m < B \<Longrightarrow> chunks B m = []"
  by (simp add: chunks.simps)

lemma chunks_append:
  assumes "length m mod B = 0"
  shows "chunks B (m @ n) = chunks B m @ chunks B n"
  using assms
proof (induction B m rule: chunks.induct)
  case (1 B m)
  show ?case
  proof (cases "B = 0 \<or> length m < B")
    case True
    then show ?thesis using 1(2) by (cases m) (auto simp: chunks.simps [of B "[]"] chunks.simps [of 0])
  next
    case False
    then have "length (drop B m) mod B = 0" using 1(2) by (simp add: le_mod_geq)
    with False have "chunks B (drop B m @ n) = chunks B (drop B m) @ chunks B n" by (rule 1(1))
    then show ?thesis using False by (simp add: chunks.simps [of B "m @ n"] chunks.simps [of B m])
  qed
qed

lemma chunks_eq_prefix: "chunks B m = chunks B (take (B * (length m div B)) m)"
proof -
  let ?p = "take (B * (length m div B)) m" and ?q = "drop (B * (length m div B)) m"
  have len: "length ?p = B * (length m div B)"
    by (simp add: min_absorb2)
  have "chunks B (?p @ ?q) = chunks B ?p @ chunks B ?q"
    by (rule chunks_append) (simp only: len mod_mult_self1_is_0)
  moreover have "chunks B ?q = []"
    using block_pos by (intro chunks_short) (simp add: minus_mult_div_eq_mod)
  ultimately show ?thesis by simp
qed

lemma split_waiting:
  obtains p w where "m = p @ w" "w = waiting B m" "length p mod B = 0" "chunks B p = chunks B m"
proof -
  let ?p = "take (B * (length m div B)) m"
  have "length ?p = B * (length m div B)" by (simp add: min_absorb2)
  then have "length ?p mod B = 0" by simp
  then show ?thesis
    using chunks_eq_prefix [of m] by (intro that [of ?p]) (simp_all add: waiting_def)
qed

lemma waiting_unique:
  assumes "length p mod B = 0" "length q < B"
  shows "waiting B (p @ q) = q"
proof -
  have "B * (length (p @ q) div B) = length p"
    using assms block_pos by (auto simp: mod_eq_0_iff_dvd elim!: dvdE)
  then show ?thesis by (simp add: waiting_def)
qed

text \<open>After whole blocks the rest is absorbed as if it were alone.\<close>

lemma aligned_append:
  assumes "length m mod B = 0"
  shows "absorb compress B s (m @ x) = absorb compress B (absorb compress B s m) x"
    and "waiting B (m @ x) = waiting B x"
proof -
  show "absorb compress B s (m @ x) = absorb compress B (absorb compress B s m) x"
    by (simp add: absorb_def chunks_append [OF assms])
  obtain k where k: "length m = B * k" using assms by (auto simp: mod_eq_0_iff_dvd)
  then have "B * (length (m @ x) div B) = length m + B * (length x div B)"
    using block_pos by (simp add: distrib_left)
  then show "waiting B (m @ x) = waiting B x" by (simp add: waiting_def)
qed

lemma absorb_whole: "absorb compress B s (take (B * (length m div B)) m) = absorb compress B s m"
  by (simp add: absorb_def chunks_eq_prefix [symmetric])

lemma absorb_short: "length m < B \<Longrightarrow> absorb compress B s m = s"
  by (simp add: absorb_def chunks_short)

lemma absorb_block:
  assumes "length b = B"
  shows "absorb compress B s b = compress s b"
proof -
  have "chunks B [] = []" using block_pos by (intro chunks_short) simp
  then have "chunks B b = [b]" using chunks_full [OF assms, of "[]"] by simp
  then show ?thesis by (simp add: absorb_def)
qed

text \<open>Appended bytes that do not fill the buffer only wait.\<close>

lemma absorb_wait:
  assumes "length (waiting B m) + length x < B"
  shows "absorb compress B s (m @ x) = absorb compress B s m"
    and "waiting B (m @ x) = waiting B m @ x"
proof -
  obtain p w where p: "m = p @ w" "w = waiting B m" "length p mod B = 0" "chunks B p = chunks B m"
    by (rule split_waiting)
  have mx: "m @ x = p @ (w @ x)" using p(1) by simp
  have len: "length (w @ x) < B" using assms p(2) by simp
  show "waiting B (m @ x) = waiting B m @ x"
    unfolding mx using p(2,3) len by (subst waiting_unique) simp_all
  have "chunks B (m @ x) = chunks B p @ chunks B (w @ x)"
    unfolding mx by (rule chunks_append [OF p(3)])
  then show "absorb compress B s (m @ x) = absorb compress B s m"
    using chunks_short [OF len] p(4) by (simp add: absorb_def)
qed

text \<open>Appended bytes that fill the buffer exactly cause one compression.\<close>

lemma absorb_fill:
  assumes "length (waiting B m) + length x = B"
  shows "absorb compress B s (m @ x) = compress (absorb compress B s m) (waiting B m @ x)"
    and "waiting B (m @ x) = []"
proof -
  obtain p w where p: "m = p @ w" "w = waiting B m" "length p mod B = 0" "chunks B p = chunks B m"
    by (rule split_waiting)
  have mx: "m @ x = p @ (w @ x)" using p(1) by simp
  have full: "length (w @ x) = B" using assms p(2) by simp
  have "length (p @ (w @ x)) mod B = 0" unfolding length_append [of p] full using p(3) by simp
  then show "waiting B (m @ x) = []"
    unfolding mx using waiting_unique [of "p @ (w @ x)" "[]"] block_pos by simp
  have "chunks B (m @ x) = chunks B p @ chunks B (w @ x)"
    unfolding mx by (rule chunks_append [OF p(3)])
  also have "\<dots> = chunks B m @ [w @ x]"
    using chunks_full [OF full, of "[]"] chunks_short [of "[]"] block_pos p(4) by simp
  finally show "absorb compress B s (m @ x) = compress (absorb compress B s m) (waiting B m @ x)"
    by (simp add: absorb_def p(2))
qed

end

text \<open>
  Padding. Both hashes append one marker byte, zeros, and a trailer that ends a block exactly; the
  trailer starts at offset \<open>T\<close> of its block. When the waiting bytes and the marker leave room before
  \<open>T\<close>, one more block is compressed, otherwise two.
\<close>

definition padded :: "'a \<Rightarrow> 'a \<Rightarrow> nat \<Rightarrow> nat \<Rightarrow> 'a list \<Rightarrow> 'a list \<Rightarrow> 'a list" where
  "padded mark zero B T m trailer = m @ mark # replicate ((B + T - 1 - length m mod B) mod B) zero @ trailer"

locale padded_hash = block_hash compress B for compress :: "'s \<Rightarrow> 'a list \<Rightarrow> 's" and B :: nat +
  fixes T :: nat
  assumes trailer_pos: "0 < T" and trailer_less: "T < B"
begin

lemma absorb_padded_one:
  assumes "length trailer = B - T" "length m mod B < T"
  shows "absorb compress B s (padded mark zero B T m trailer) =
    compress (absorb compress B s m) (waiting B m @ mark # replicate (T - 1 - length m mod B) zero @ trailer)"
proof -
  let ?n = "length m mod B"
  have "B + T - 1 - ?n = (T - 1 - ?n) + B" using assms(2) by simp
  then have n: "(B + T - 1 - ?n) mod B = T - 1 - ?n"
    using assms(2) trailer_less by (simp only: mod_add_self2) simp
  show ?thesis
    unfolding padded_def n using assms trailer_less by (intro absorb_fill) simp
qed

lemma absorb_padded_two:
  assumes "length trailer = B - T" "T \<le> length m mod B"
  shows "absorb compress B s (padded mark zero B T m trailer) =
    compress (compress (absorb compress B s m) (waiting B m @ mark # replicate (B - 1 - length m mod B) zero))
      (replicate T zero @ trailer)"
proof -
  let ?n = "length m mod B" and ?z = "mark # replicate (B - 1 - length m mod B) zero"
  have less: "?n < B" using block_pos by simp
  have "B + T - 1 - ?n < B" using assms(2) trailer_pos less by linarith
  then have n: "(B + T - 1 - ?n) mod B = (B - 1 - ?n) + T" using less by (simp only: mod_less)
  have pad: "padded mark zero B T m trailer = (m @ ?z) @ (replicate T zero @ trailer)"
    unfolding padded_def n by (simp add: replicate_add)
  have z: "length (waiting B m) + length ?z = B" using less by simp
  have y: "length (waiting B (m @ ?z)) + length (replicate T zero @ trailer) = B"
    using absorb_fill(2) [OF z] assms(1) trailer_less by simp
  show ?thesis
    unfolding pad using absorb_fill(1) [OF z] absorb_fill(1) [OF y] absorb_fill(2) [OF z] by simp
qed

end

end
