(* ===== verification/Sha256.thy ===== *)
theory Sha256
  imports Block_Hash
begin

text \<open>
  SHA-256 as \<open>include/keylight/sha256.hpp\<close> computes it: the streaming context with its 64-byte
  buffer, the compression function, the padding of \<open>sha256_final\<close>, and the two entry points
  \<open>sha256_bytes\<close> and \<open>sha256_hex\<close>. The contract is the one-shot definition of FIPS 180-4, \<open>sha256_spec\<close>:
  pad the whole message, cut it into 64-byte blocks, fold the compression over them. The refinement
  theorem shows that the streaming code computes it for every message, whatever the uninitialised
  buffer held.
\<close>

unbundle bit_operations_syntax

type_synonym w32 = "32 word"
type_synonym w64 = "64 word"

section \<open>The compression function\<close>

definition kK :: "w32 list" where
  "kK = [
   1116352408, 1899447441, 3049323471, 3921009573, 961987163, 1508970993, 2453635748, 2870763221,
   3624381080, 310598401, 607225278, 1426881987, 1925078388, 2162078206, 2614888103, 3248222580,
   3835390401, 4022224774, 264347078, 604807628, 770255983, 1249150122, 1555081692, 1996064986,
   2554220882, 2821834349, 2952996808, 3210313671, 3336571891, 3584528711, 113926993, 338241895,
   666307205, 773529912, 1294757372, 1396182291, 1695183700, 1986661051, 2177026350, 2456956037,
   2730485921, 2820302411, 3259730800, 3345764771, 3516065817, 3600352804, 4094571909, 275423344,
   430227734, 506948616, 659060556, 883997877, 958139571, 1322822218, 1537002063, 1747873779,
   1955562222, 2024104815, 2227730452, 2361852424, 2428436474, 2756734187, 3204031479, 3329325298]"

definition rotr32 :: "w32 \<Rightarrow> nat \<Rightarrow> w32" where
  "rotr32 x n = drop_bit n x OR push_bit (32 - n) x"

definition ch :: "w32 \<Rightarrow> w32 \<Rightarrow> w32 \<Rightarrow> w32" where
  "ch e f g = (e AND f) XOR (NOT e AND g)"

definition maj :: "w32 \<Rightarrow> w32 \<Rightarrow> w32 \<Rightarrow> w32" where
  "maj a b c = (a AND b) XOR (a AND c) XOR (b AND c)"

definition ep0 :: "w32 \<Rightarrow> w32" where
  "ep0 a = rotr32 a 2 XOR rotr32 a 13 XOR rotr32 a 22"

definition ep1 :: "w32 \<Rightarrow> w32" where
  "ep1 e = rotr32 e 6 XOR rotr32 e 11 XOR rotr32 e 25"

definition sig0 :: "w32 \<Rightarrow> w32" where
  "sig0 x = rotr32 x 7 XOR rotr32 x 18 XOR drop_bit 3 x"

definition sig1 :: "w32 \<Rightarrow> w32" where
  "sig1 x = rotr32 x 17 XOR rotr32 x 19 XOR drop_bit 10 x"

definition load32_be :: "byte list \<Rightarrow> nat \<Rightarrow> w32" where
  "load32_be d j =
     push_bit 24 (ucast (d ! j)) OR push_bit 16 (ucast (d ! (j + 1)))
     OR push_bit 8 (ucast (d ! (j + 2))) OR ucast (d ! (j + 3))"

definition schedule :: "byte list \<Rightarrow> w32 list" where
  "schedule d =
     foldl (\<lambda>m i. m @ [sig1 (m ! (i - 2)) + m ! (i - 7) + sig0 (m ! (i - 15)) + m ! (i - 16)])
       (map (\<lambda>i. load32_be d (4 * i)) [0..<16]) [16..<64]"

type_synonym regs = "w32 \<times> w32 \<times> w32 \<times> w32 \<times> w32 \<times> w32 \<times> w32 \<times> w32"

definition sha_round :: "w32 list \<Rightarrow> regs \<Rightarrow> nat \<Rightarrow> regs" where
  "sha_round m r i =
     (case r of (a, b, c, d, e, f, g, h) \<Rightarrow>
        let t1 = h + ep1 e + ch e f g + kK ! i + m ! i; t2 = ep0 a + maj a b c
        in (t1 + t2, a, b, c, d + t1, e, f, g))"

fun regs_of :: "w32 list \<Rightarrow> regs" where
  "regs_of st = (st ! 0, st ! 1, st ! 2, st ! 3, st ! 4, st ! 5, st ! 6, st ! 7)"

definition sha256_transform :: "w32 list \<Rightarrow> byte list \<Rightarrow> w32 list" where
  "sha256_transform st d =
     (case foldl (sha_round (schedule d)) (regs_of st) [0..<64] of
        (a, b, c, d, e, f, g, h) \<Rightarrow>
          [st ! 0 + a, st ! 1 + b, st ! 2 + c, st ! 3 + d, st ! 4 + e, st ! 5 + f, st ! 6 + g, st ! 7 + h])"

section \<open>The streaming context\<close>

record sha256_ctx =
  sdata :: "byte list"
  datalen :: nat
  bitlen :: w64
  sstate :: "w32 list"

definition sha256_iv :: "w32 list" where
  "sha256_iv = [1779033703, 3144134277, 1013904242, 2773480762,
     1359893119, 2600822924, 528734635, 1541459225]"

text \<open>\<open>sha256_init\<close> does not touch the buffer: it keeps whatever the stack held.\<close>

definition sha256_init :: "byte list \<Rightarrow> sha256_ctx" where
  "sha256_init junk = \<lparr>sdata = junk, datalen = 0, bitlen = 0, sstate = sha256_iv\<rparr>"

definition sha256_push :: "sha256_ctx \<Rightarrow> byte \<Rightarrow> sha256_ctx" where
  "sha256_push ctx b =
     (let c1 = ctx\<lparr>sdata := (sdata ctx)[datalen ctx := b], datalen := datalen ctx + 1\<rparr> in
      if datalen c1 = 64
      then c1\<lparr>sstate := sha256_transform (sstate c1) (sdata c1), bitlen := bitlen c1 + 512, datalen := 0\<rparr>
      else c1)"

definition sha256_update :: "sha256_ctx \<Rightarrow> byte list \<Rightarrow> sha256_ctx" where
  "sha256_update ctx bs = foldl sha256_push ctx bs"

text \<open>The loops \<open>while (i < hi) data[i++] = 0\<close>.\<close>

definition zero_fill :: "nat \<Rightarrow> nat \<Rightarrow> byte list \<Rightarrow> byte list" where
  "zero_fill lo hi d = take lo d @ replicate (hi - lo) 0 @ drop hi d"

definition be64 :: "w64 \<Rightarrow> byte list" where
  "be64 w = map (\<lambda>k. ucast (drop_bit (56 - 8 * k) w)) [0..<8]"

definition be32 :: "w32 \<Rightarrow> byte list" where
  "be32 w = map (\<lambda>k. ucast (drop_bit (24 - 8 * k) w)) [0..<4]"

definition sha256_final :: "sha256_ctx \<Rightarrow> byte list" where
  "sha256_final ctx =
     (let i = datalen ctx; d1 = (sdata ctx)[i := 0x80];
        (d2, st2) =
          (if i < 56 then (zero_fill (i + 1) 56 d1, sstate ctx)
           else (zero_fill 0 56 (zero_fill (i + 1) 64 d1),
                 sha256_transform (sstate ctx) (zero_fill (i + 1) 64 d1)));
        bits = bitlen ctx + of_nat i * 8;
        d3 = take 56 d2 @ be64 bits;
        st3 = sha256_transform st2 d3
      in concat (map be32 st3))"

definition sha256_bytes_from :: "byte list \<Rightarrow> byte list \<Rightarrow> byte list" where
  "sha256_bytes_from junk m = sha256_final (sha256_update (sha256_init junk) m)"

definition sha256_bytes :: "byte list \<Rightarrow> byte list" where
  "sha256_bytes m = sha256_bytes_from (replicate 64 0) m"

definition hex_char :: "nat \<Rightarrow> char" where
  "hex_char n = ''0123456789abcdef'' ! n"

definition hex_byte :: "byte \<Rightarrow> string" where
  "hex_byte b = [hex_char (unat (drop_bit 4 b)), hex_char (unat (b AND 0xF))]"

definition sha256_hex :: "string \<Rightarrow> string" where
  "sha256_hex s = concat (map hex_byte (sha256_bytes (bytes_of s)))"

section \<open>The one-shot definition\<close>

definition sha256_pad :: "byte list \<Rightarrow> byte list" where
  "sha256_pad m =
     m @ 0x80 # replicate ((119 - length m mod 64) mod 64) 0 @ be64 (of_nat (8 * length m))"

definition sha256_spec :: "byte list \<Rightarrow> byte list" where
  "sha256_spec m =
     concat (map be32 (absorb sha256_transform 64 sha256_iv (sha256_pad m)))"

interpretation sha256: padded_hash sha256_transform 64 56
  by unfold_locales simp_all

lemma sha256_pad_eq: "sha256_pad m = padded 0x80 0 64 56 m (be64 (of_nat (8 * length m)))"
  by (simp add: sha256_pad_def padded_def)

section \<open>The code computes it\<close>

text \<open>What the context holds after the bytes \<open>m\<close>: the absorbed blocks, and the rest in the buffer.\<close>

definition sha256_holds :: "sha256_ctx \<Rightarrow> byte list \<Rightarrow> bool" where
  "sha256_holds ctx m \<longleftrightarrow>
     length (sdata ctx) = 64 \<and> datalen ctx = length m mod 64 \<and>
     take (datalen ctx) (sdata ctx) = waiting 64 m \<and>
     bitlen ctx = of_nat (512 * (length m div 64)) \<and>
     sstate ctx = absorb sha256_transform 64 sha256_iv m"

lemma holds_init: "length junk = 64 \<Longrightarrow> sha256_holds (sha256_init junk) []"
  by (simp add: sha256_holds_def sha256_init_def waiting_def absorb_def sha256.chunks_short)

lemma length_snoc_split:
  "length m mod 64 \<noteq> 63 \<Longrightarrow> Suc (length m) mod 64 = Suc (length m mod 64) \<and> Suc (length m) div 64 = length m div 64"
  "length m mod 64 = 63 \<Longrightarrow> Suc (length m) mod 64 = 0 \<and> Suc (length m) div 64 = Suc (length m div 64)"
  for m :: "'a list"
  by (simp_all add: mod_Suc div_Suc)

lemma holds_push:
  assumes "sha256_holds ctx m"
  shows "sha256_holds (sha256_push ctx b) (m @ [b])"
proof -
  let ?d = "datalen ctx"
  have d: "?d = length m mod 64" "?d < 64" "length (sdata ctx) = 64"
    and buf: "take ?d (sdata ctx) = waiting 64 m"
    using assms by (auto simp: sha256_holds_def)
  have upd: "take (Suc ?d) ((sdata ctx)[?d := b]) = waiting 64 m @ [b]"
    using d buf by (simp add: take_Suc_conv_app_nth)
  show ?thesis
  proof (cases "length m mod 64 = 63")
    case True
    have "(sdata ctx)[?d := b] = waiting 64 m @ [b]" using upd d True by simp
    moreover have "length (waiting 64 m) + length [b] = 64" using True by simp
    ultimately show ?thesis
      using assms True d length_snoc_split(2) [OF True]
      by (simp add: sha256_holds_def sha256_push_def Let_def sha256.absorb_fill algebra_simps)
  next
    case False
    then have "length (waiting 64 m) + length [b] < 64" using d by simp
    then show ?thesis
      using assms False d upd length_snoc_split(1) [OF False]
      by (simp add: sha256_holds_def sha256_push_def Let_def sha256.absorb_wait)
  qed
qed

lemma holds_update:
  "sha256_holds ctx m \<Longrightarrow> sha256_holds (sha256_update ctx bs) (m @ bs)"
proof (induction bs arbitrary: ctx m)
  case (Cons b bs)
  then show ?case
    using Cons.IH [of "sha256_push ctx b" "m @ [b]"] holds_push
    by (simp add: sha256_update_def)
qed (simp add: sha256_update_def)

lemma length_be64 [simp]: "length (be64 w) = 8"
  by (simp add: be64_def)

lemma length_be32 [simp]: "length (be32 w) = 4"
  by (simp add: be32_def)

lemma bit_length_total:
  "(of_nat (512 * (n div 64)) :: w64) + of_nat (n mod 64) * 8 = of_nat (8 * n)"
proof -
  have "512 * (n div 64) + n mod 64 * 8 = 8 * n"
    using mult_div_mod_eq [of 64 n] by linarith
  then show ?thesis by (metis of_nat_add of_nat_mult of_nat_numeral)
qed

lemma final_refines:
  assumes "sha256_holds ctx m"
  shows "sha256_final ctx = sha256_spec m"
proof -
  let ?i = "datalen ctx" and ?w = "waiting 64 m" and ?st = "absorb sha256_transform 64 sha256_iv m"
  let ?len = "be64 (of_nat (8 * length m))"
  have i: "?i = length m mod 64" "?i < 64" and len: "length (sdata ctx) = 64"
    and buf: "take ?i (sdata ctx) = ?w" and st: "sstate ctx = ?st"
    and bits: "bitlen ctx + of_nat ?i * 8 = of_nat (8 * length m)"
    using assms bit_length_total by (auto simp: sha256_holds_def)
  have d1: "take (Suc ?i) ((sdata ctx)[?i := 0x80]) = ?w @ [0x80]"
    using i len buf by (simp add: take_Suc_conv_app_nth)
  show ?thesis
  proof (cases "?i < 56")
    case True
    have zero: "take (56 - ?i) ((0x80::byte) # replicate (55 - ?i) 0 @ ys) = 0x80 # replicate (55 - ?i) 0" for ys
    proof -
      have "56 - ?i = Suc (55 - ?i)" using True by simp
      then show ?thesis by simp
    qed
    have "take 56 (zero_fill (?i + 1) 56 ((sdata ctx)[?i := 0x80])) = ?w @ 0x80 # replicate (55 - ?i) 0"
      using i len d1 zero less_imp_le [OF True] by (simp add: zero_fill_def)
    then show ?thesis
      using True st bits sha256.absorb_padded_one [of ?len m sha256_iv "0x80" 0] i(1)
      by (simp add: sha256_final_def sha256_spec_def sha256_pad_eq Let_def)
  next
    case False
    have "zero_fill (?i + 1) 64 ((sdata ctx)[?i := 0x80]) = ?w @ 0x80 # replicate (63 - ?i) 0"
      using False i len d1 by (simp add: zero_fill_def)
    then show ?thesis
      using False st bits sha256.absorb_padded_two [of ?len m sha256_iv "0x80" 0] i
      by (simp add: sha256_final_def sha256_spec_def sha256_pad_eq Let_def zero_fill_def)
  qed
qed

text \<open>
  C39. The streaming SHA-256 of the SDK is the SHA-256 of FIPS 180-4 on every message, in any number
  of updates, and does not depend on what its buffer held before: feeding \<open>a\<close> and then \<open>b\<close> gives the
  digest of \<open>a @ b\<close>.
\<close>
theorem sha256_streaming_refines:
  assumes "length junk = 64"
  shows "sha256_final (sha256_update (sha256_update (sha256_init junk) a) b) = sha256_spec (a @ b)
    \<and> sha256_bytes (a @ b) = sha256_spec (a @ b)"
proof -
  have "sha256_holds (sha256_update (sha256_update (sha256_init junk) a) b) (a @ b)"
    using holds_update [OF holds_update [OF holds_init [OF assms]]] by simp
  moreover have "sha256_holds (sha256_update (sha256_init (replicate 64 0)) (a @ b)) (a @ b)"
    using holds_update [OF holds_init, of "replicate 64 0" "a @ b"] by simp
  ultimately show ?thesis
    by (simp add: final_refines sha256_bytes_def sha256_bytes_from_def)
qed

theorem sha256_streaming_refines_witness:
  "sha256_final (sha256_update (sha256_update (sha256_init (replicate 64 7)) [1]) [2]) =
     sha256_spec [1, 2]"
  using sha256_streaming_refines [of "replicate 64 7" "[1]" "[2]"] by simp

lemma length_regs_transform [simp]: "length (sha256_transform st d) = 8"
  by (simp add: sha256_transform_def split: prod.splits)

lemma length_sha256 [simp]: "length (sha256_bytes m) = 32"
  by (simp add: sha256_bytes_def sha256_bytes_from_def sha256_final_def Let_def length_concat
      comp_def sum_list_triv split: prod.splits)

lemma length_sha256_hex: "length (sha256_hex s) = 64"
  by (simp add: sha256_hex_def length_concat comp_def sum_list_triv hex_byte_def)

end
