(* ===== verification/Policy.thy ===== *)
theory Policy
  imports Prelude
begin

text \<open>
  The SDK's pure policy functions: the clock-rollback test (\<open>clock.hpp\<close>), the license states and the
  lifecycle transition table (\<open>lifecycle.hpp\<close>), and the retry policy (\<open>retry.hpp\<close>). Unsigned 64-bit
  values are \<open>nat\<close>s; every product of the policy is shown to stay in range where the code computes it.
\<close>

section \<open>Clock\<close>

definition CLOCK_BACKWARD_TOLERANCE :: int where
  "CLOCK_BACKWARD_TOLERANCE = 3600"

definition clock_rolled_back :: "int \<Rightarrow> int \<Rightarrow> bool" where
  "clock_rolled_back last_seen now \<longleftrightarrow> CLOCK_BACKWARD_TOLERANCE < i64 (last_seen - now)"

lemma clock_rolled_back_iff:
  assumes "0 \<le> last_seen" "last_seen \<le> INT64_MAX" "0 \<le> now" "now \<le> INT64_MAX"
  shows "clock_rolled_back last_seen now \<longleftrightarrow> now + 3600 < last_seen"
proof -
  have "in64 (last_seen - now)"
    using assms by (simp add: in64_def INT64_MIN_def INT64_MAX_def)
  then show ?thesis
    by (auto simp: clock_rolled_back_def CLOCK_BACKWARD_TOLERANCE_def)
qed

section \<open>License states and lifecycle events\<close>

datatype State = Licensed | Trial | Expired | Invalid | FreeTier | Limited

datatype LifecycleEvent = Ev_Renewed | Ev_Cancelled | Ev_Expired | Ev_Restored

definition lifecycle_event :: "State \<Rightarrow> State \<Rightarrow> bool \<Rightarrow> LifecycleEvent option" where
  "lifecycle_event prv nxt expiry_moved_later =
     (if prv = Licensed \<and> nxt = Licensed then
        (if expiry_moved_later then Some Ev_Renewed else None)
      else if prv = Licensed \<and> (nxt = Expired \<or> nxt = Limited) then Some Ev_Cancelled
      else if nxt = Licensed \<and> (prv = Expired \<or> prv = Limited \<or> prv = Invalid) then Some Ev_Restored
      else if nxt = Expired \<and> prv \<noteq> Expired then Some Ev_Expired
      else None)"

text \<open>What each event tells the host about the transition that caused it.\<close>

lemma lifecycle_event_cases:
  "lifecycle_event p n m = Some Ev_Renewed \<longleftrightarrow> p = Licensed \<and> n = Licensed \<and> m"
  "lifecycle_event p n m = Some Ev_Cancelled \<longleftrightarrow> p = Licensed \<and> n \<in> {Expired, Limited}"
  "lifecycle_event p n m = Some Ev_Restored \<longleftrightarrow> n = Licensed \<and> p \<in> {Expired, Limited, Invalid}"
  "lifecycle_event p n m = Some Ev_Expired \<longleftrightarrow> n = Expired \<and> p \<notin> {Expired, Licensed}"
  by (auto simp: lifecycle_event_def)

section \<open>Retries\<close>

definition RETRY_MAX_ATTEMPTS :: nat where "RETRY_MAX_ATTEMPTS = 3"
definition RETRY_BASE_MS :: nat where "RETRY_BASE_MS = 500"
definition RETRY_CAP_MS :: nat where "RETRY_CAP_MS = 4000"
definition RETRY_MAX_SLEEP_MS :: nat where "RETRY_MAX_SLEEP_MS = 3600000"
definition UINT64_MAX :: nat where "UINT64_MAX = 18446744073709551615"

lemmas retry_consts =
  RETRY_MAX_ATTEMPTS_def RETRY_BASE_MS_def RETRY_CAP_MS_def RETRY_MAX_SLEEP_MS_def

record RetryDecision =
  retry :: bool
  delay_ms :: nat

definition backoff_ms :: "nat \<Rightarrow> nat" where
  "backoff_ms attempt =
     (if attempt = 0 then RETRY_BASE_MS
      else
        let shift = (if 20 < attempt - 1 then 20 else attempt - 1);
            expo = RETRY_BASE_MS * 2 ^ shift
        in if RETRY_CAP_MS < expo then RETRY_CAP_MS else expo)"

definition status_retryable :: "int \<Rightarrow> bool" where
  "status_retryable status \<longleftrightarrow> status = 408 \<or> status = 429 \<or> (500 \<le> status \<and> status \<le> 599)"

definition is_blank :: "char \<Rightarrow> bool" where
  "is_blank c \<longleftrightarrow> c = CHR '' '' \<or> c = CHR 0x09"

fun retry_digits :: "nat \<Rightarrow> string \<Rightarrow> nat option" where
  "retry_digits acc [] = Some acc"
| "retry_digits acc (c # cs) =
     (if \<not> is_digit c then None
      else
        let d = nat (digit_val c) in
        if (UINT64_MAX - d) div 10 < acc then None else retry_digits (acc * 10 + d) cs)"

definition parse_retry_after :: "string \<Rightarrow> nat option" where
  "parse_retry_after value =
     (let v = rev (dropWhile is_blank (rev (dropWhile is_blank value))) in
      if v = [] then None else retry_digits 0 v)"

definition retry_decide :: "int \<Rightarrow> nat \<Rightarrow> nat option \<Rightarrow> RetryDecision" where
  "retry_decide status attempt retry_after_secs =
     (if RETRY_MAX_ATTEMPTS \<le> attempt \<or> \<not> status_retryable status then
        \<lparr>retry = False, delay_ms = 0\<rparr>
      else
        let raw =
          (case retry_after_secs of
             Some secs \<Rightarrow>
               if status = 429 then
                 (if RETRY_MAX_SLEEP_MS div 1000 < secs then RETRY_MAX_SLEEP_MS else secs * 1000)
               else backoff_ms attempt
           | None \<Rightarrow> backoff_ms attempt)
        in \<lparr>retry = True,
            delay_ms = (if RETRY_MAX_SLEEP_MS < raw then RETRY_MAX_SLEEP_MS else raw)\<rparr>)"

lemma backoff_le_cap: "backoff_ms attempt \<le> RETRY_CAP_MS"
  by (simp add: backoff_ms_def retry_consts Let_def)

lemma backoff_mono:
  assumes "a \<le> b" shows "backoff_ms a \<le> backoff_ms b"
proof -
  have form: "backoff_ms n = min 4000 (500 * 2 ^ min (n - 1) 20)" for n
    by (auto simp: backoff_ms_def retry_consts Let_def min_def)
  have "(2::nat) ^ min (a - 1) 20 \<le> 2 ^ min (b - 1) 20"
    using assms by (intro power_increasing) auto
  then show ?thesis
    unfolding form by (intro min.mono mult_le_mono) simp_all
qed

lemma retry_decide_bounds:
  "delay_ms (retry_decide s a ra) \<le> RETRY_MAX_SLEEP_MS"
  "retry (retry_decide s a ra) \<Longrightarrow> a < RETRY_MAX_ATTEMPTS \<and> status_retryable s"
  by (auto simp: retry_decide_def Let_def split: option.splits if_splits)

lemma retry_digits_sound:
  assumes "retry_digits acc cs = Some n" "acc \<le> UINT64_MAX"
  shows "n \<le> UINT64_MAX \<and> int n = foldl (\<lambda>a c. a * 10 + digit_val c) (int acc) cs \<and> list_all is_digit cs"
  using assms
proof (induction cs arbitrary: acc)
  case (Cons c cs)
  let ?d = "nat (digit_val c)"
  have d: "is_digit c" "acc \<le> (UINT64_MAX - ?d) div 10" "retry_digits (acc * 10 + ?d) cs = Some n"
    using Cons.prems(1) by (auto simp: Let_def split: if_splits)
  have "?d \<le> 9" using digit_val_bounds [OF d(1)] by linarith
  then have "acc * 10 + ?d \<le> UINT64_MAX"
    using d(2) by (simp add: UINT64_MAX_def)
  from Cons.IH [OF d(3) this] show ?case
    using d(1) digit_val_bounds [OF d(1)] by simp
qed simp

text \<open>
  A header value of digits that fits in 64 bits is read as its decimal value, and nothing else is
  accepted.
\<close>

lemma retry_digits_complete:
  assumes "list_all is_digit cs" "foldl (\<lambda>a c. a * 10 + digit_val c) (int acc) cs \<le> int UINT64_MAX"
  shows "\<exists>n. retry_digits acc cs = Some n"
  using assms
proof (induction cs arbitrary: acc)
  case (Cons c cs)
  let ?d = "nat (digit_val c)"
  have mono: "int a \<le> foldl (\<lambda>a c. a * 10 + digit_val c) (int a) xs" if "list_all is_digit xs" for a xs
    using that
  proof (induction xs arbitrary: a)
    case (Cons x xs)
    have "0 \<le> digit_val x" using Cons.prems digit_val_bounds by simp
    then have "int (a * 10 + nat (digit_val x)) = int a * 10 + digit_val x" by simp
    then show ?case
      using Cons.IH [of "a * 10 + nat (digit_val x)"] Cons.prems \<open>0 \<le> digit_val x\<close> by simp
  qed simp
  have d: "is_digit c" "0 \<le> digit_val c" "digit_val c \<le> 9" and ds: "list_all is_digit cs"
    using Cons.prems(1) digit_val_bounds by auto
  have step: "int (acc * 10 + ?d) = int acc * 10 + digit_val c" using d by simp
  have fits: "foldl (\<lambda>a c. a * 10 + digit_val c) (int (acc * 10 + ?d)) cs \<le> int UINT64_MAX"
    unfolding step using Cons.prems(2) by simp
  then have "acc * 10 + ?d \<le> UINT64_MAX"
    using mono [OF ds, of "acc * 10 + ?d"] by linarith
  then have "\<not> (UINT64_MAX - ?d) div 10 < acc"
    by (simp add: not_less less_eq_div_iff_mult_less_eq)
  then show ?case
    using Cons.IH [OF ds fits] d(1) by (simp add: Let_def)
qed simp

lemma digits_not_blank: "is_digit c \<Longrightarrow> \<not> is_blank c"
  by (auto simp: is_digit_def is_blank_def)

lemma parse_retry_after_nat_str:
  assumes "n \<le> UINT64_MAX"
  shows "parse_retry_after (nat_str n) = Some n"
proof -
  have all: "list_all is_digit (nat_str n)"
    by (simp add: list_all_iff nat_str_digits)
  then have trim: "dropWhile is_blank (nat_str n) = nat_str n"
      "dropWhile is_blank (rev (nat_str n)) = rev (nat_str n)"
    using digits_not_blank nat_str_digits
    by (metis dropWhile_eq_self_iff hd_in_set nat_str_nonempty)
      (metis digits_not_blank dropWhile_eq_self_iff hd_in_set nat_str_digits set_rev)
  have val: "foldl (\<lambda>a c. a * 10 + digit_val c) (int 0) (nat_str n) = int n"
    using digits_val_nat_str [of n] by (simp add: digits_val_def)
  then obtain k where k: "retry_digits 0 (nat_str n) = Some k"
    using retry_digits_complete [OF all, of 0] assms by auto
  then have "int k = int n" using retry_digits_sound [OF k] val by simp
  then show ?thesis using k trim by (simp add: parse_retry_after_def Let_def)
qed

end
