(* ===== verification/Device.thy ===== *)
theory Device
  imports Sha256
begin

text \<open>
  What the SDK reports about the machine (\<open>device_info.hpp\<close>, \<open>machine_id.hpp\<close>): the coarse hardware
  buckets, the normalised OS version, the display name of the device, the machine hash and the
  random instance id. The reads of the operating system themselves (sysctl, registry, \<open>uname\<close>) are
  inputs of these functions.
\<close>

unbundle bit_operations_syntax

section \<open>Buckets\<close>

definition KL_GIB :: nat where "KL_GIB = 1024 * 1024 * 1024"

definition cpu_cores_bucket :: "nat \<Rightarrow> string" where
  "cpu_cores_bucket cores =
     (if cores = 0 then [] else if cores \<le> 2 then ''1-2'' else if cores \<le> 4 then ''3-4''
      else if cores \<le> 8 then ''5-8'' else if cores \<le> 16 then ''9-16'' else ''17+'')"

definition memory_bucket :: "nat \<Rightarrow> string" where
  "memory_bucket n =
     (if n = 0 then [] else if n < 4 * KL_GIB then ''<4GB'' else if n < 8 * KL_GIB then ''4-8GB''
      else if n < 16 * KL_GIB then ''8-16GB'' else if n < 32 * KL_GIB then ''16-32GB''
      else if n < 64 * KL_GIB then ''32-64GB'' else ''64GB+'')"

section \<open>OS version\<close>

definition OS_VERSION_MAX :: nat where "OS_VERSION_MAX = 32"

definition version_char :: "char \<Rightarrow> bool" where
  "version_char c \<longleftrightarrow> is_digit c \<or> c = CHR ''.''"

definition strip_dots :: "string \<Rightarrow> string" where
  "strip_dots v = rev (dropWhile (\<lambda>c. c = CHR ''.'') (rev v))"

text \<open>The final loop: every component between dots is non-empty.\<close>

function components_ok :: "string \<Rightarrow> bool" where
  "components_ok v =
     (if takeWhile (\<lambda>c. c \<noteq> CHR ''.'') v = [] then False
      else case dropWhile (\<lambda>c. c \<noteq> CHR ''.'') v of [] \<Rightarrow> True | _ # rest \<Rightarrow> components_ok rest)"
  by pat_completeness auto
termination
proof (relation "measure length")
  fix v rest :: string and c
  assume "dropWhile (\<lambda>c. c \<noteq> CHR ''.'') v = c # rest"
  then show "(rest, v) \<in> measure length"
    using length_dropWhile_le [of "\<lambda>c. c \<noteq> CHR ''.''" v] by simp
qed simp

declare components_ok.simps [simp del]

definition dotted_numeric :: "string \<Rightarrow> string" where
  "dotted_numeric raw =
     (let v = strip_dots (takeWhile version_char (dropWhile (\<lambda>c. \<not> is_digit c) raw)) in
      if v = [] \<or> OS_VERSION_MAX < length v then []
      else if components_ok v then v else [])"

text \<open>The contract: digits, then any number of dots each followed by digits.\<close>

definition numeric :: "string \<Rightarrow> bool" where
  "numeric s \<longleftrightarrow> s \<noteq> [] \<and> list_all is_digit s"

fun join_dots :: "string list \<Rightarrow> string" where
  "join_dots [] = []"
| "join_dots [s] = s"
| "join_dots (s # ss) = s @ CHR ''.'' # join_dots ss"

lemma dot_not_digit [simp]: "\<not> is_digit CHR ''.''"
  by (simp add: is_digit_def)

lemma numeric_no_dot: "numeric s \<Longrightarrow> CHR ''.'' \<notin> set s"
  by (auto simp: numeric_def list_all_iff)

lemma components_ok_end:
  assumes "CHR ''.'' \<notin> set s" shows "components_ok s \<longleftrightarrow> s \<noteq> []"
proof -
  have "takeWhile (\<lambda>c. c \<noteq> CHR ''.'') s = s" using assms by (auto simp: takeWhile_eq_all_conv)
  moreover have "dropWhile (\<lambda>c. c \<noteq> CHR ''.'') s = []" using assms by (auto simp: dropWhile_eq_Nil_conv)
  ultimately show ?thesis unfolding components_ok.simps [of s] by (simp only: list.case if_cancel) auto
qed

lemma components_ok_dot:
  assumes "CHR ''.'' \<notin> set s"
  shows "components_ok (s @ CHR ''.'' # t) \<longleftrightarrow> s \<noteq> [] \<and> components_ok t"
proof -
  have "takeWhile (\<lambda>c. c \<noteq> CHR ''.'') (s @ CHR ''.'' # t) = s"
    using assms by (induction s) auto
  moreover have "dropWhile (\<lambda>c. c \<noteq> CHR ''.'') (s @ CHR ''.'' # t) = CHR ''.'' # t"
    using assms by (induction s) auto
  ultimately show ?thesis
    unfolding components_ok.simps [of "s @ CHR ''.'' # t"] by (simp only: list.case) simp
qed

lemma components_ok_sound:
  assumes "components_ok v" "list_all version_char v"
  shows "\<exists>ss. ss \<noteq> [] \<and> list_all numeric ss \<and> v = join_dots ss"
  using assms
proof (induction v rule: components_ok.induct)
  case (1 v)
  let ?w = "takeWhile (\<lambda>c. c \<noteq> CHR ''.'') v" and ?r = "dropWhile (\<lambda>c. c \<noteq> CHR ''.'') v"
  have w: "?w \<noteq> []" using 1(2) by (auto simp: components_ok.simps [of v] split: if_splits)
  have num: "numeric ?w"
    using w 1(3) by (auto simp: numeric_def list_all_iff version_char_def dest: set_takeWhileD)
  show ?case
  proof (cases ?r)
    case Nil
    then have "v = ?w" by (metis append_Nil2 takeWhile_dropWhile_id)
    then show ?thesis using num by (intro exI [of _ "[v]"]) simp
  next
    case (Cons c rest)
    then have v: "v = ?w @ c # rest" by (metis takeWhile_dropWhile_id)
    have c: "c = CHR ''.''" using Cons hd_dropWhile [of "\<lambda>c. c \<noteq> CHR ''.''" v] by auto
    have "components_ok rest" using 1(2) w Cons by (simp add: components_ok.simps [of v])
    moreover have "list_all version_char rest"
      using 1(3) unfolding list_all_iff by (subst (asm) v) auto
    ultimately obtain ss where ss: "ss \<noteq> []" "list_all numeric ss" "rest = join_dots ss"
      using 1(1) w Cons by blast
    then have "v = join_dots (?w # ss)" using v c by (cases ss) auto
    then show ?thesis using ss num by (intro exI [of _ "?w # ss"]) simp
  qed
qed

lemma components_ok_join:
  "ss \<noteq> [] \<Longrightarrow> list_all numeric ss \<Longrightarrow> components_ok (join_dots ss)"
proof (induction ss rule: join_dots.induct)
  case (2 s)
  then show ?case by (simp add: components_ok_end numeric_no_dot) (simp add: numeric_def)
next
  case (3 s t ss)
  then show ?case by (simp add: components_ok_dot numeric_no_dot) (simp add: numeric_def)
qed simp

lemma join_dots_chars: "list_all numeric ss \<Longrightarrow> list_all version_char (join_dots ss)"
  by (induction ss rule: join_dots.induct) (auto simp: numeric_def version_char_def list_all_iff)

lemma join_dots_ends:
  assumes "ss \<noteq> []" "list_all numeric ss"
  shows "join_dots ss \<noteq> [] \<and> is_digit (hd (join_dots ss)) \<and> is_digit (last (join_dots ss))"
  using assms
proof (induction ss rule: join_dots.induct)
  case (2 s)
  then show ?case by (auto simp: numeric_def list_all_iff)
next
  case (3 s t ss)
  then show ?case by (auto simp: numeric_def list_all_iff)
qed simp

lemma strip_dots_id: "v \<noteq> [] \<Longrightarrow> last v \<noteq> CHR ''.'' \<Longrightarrow> strip_dots v = v"
  by (cases v rule: rev_cases) (auto simp: strip_dots_def)

lemma strip_dots_prefix: "\<exists>n. v = strip_dots v @ replicate n CHR ''.''"
proof -
  have "takeWhile (\<lambda>c. c = CHR ''.'') (rev v) = replicate (length (takeWhile (\<lambda>c. c = CHR ''.'') (rev v))) CHR ''.''"
    by (rule replicate_eqI) (auto dest: set_takeWhileD)
  then have "rev (takeWhile (\<lambda>c. c = CHR ''.'') (rev v)) = replicate (length (takeWhile (\<lambda>c. c = CHR ''.'') (rev v))) CHR ''.''"
    by (metis rev_replicate)
  moreover have "v = strip_dots v @ rev (takeWhile (\<lambda>c. c = CHR ''.'') (rev v))"
    unfolding strip_dots_def by (metis rev_append rev_rev_ident takeWhile_dropWhile_id)
  ultimately show ?thesis by metis
qed

text \<open>
  Whatever the platform reports, the OS version that leaves the machine is empty or a dotted number of at
  most 32 characters that occurs in the platform's text; and a text whose first digit starts a
  dotted number of at most 32 characters, followed by neither digit nor dot, is reported as exactly
  that number.
\<close>
theorem dotted_numeric_correct:
  "(dotted_numeric raw = [] \<or>
      (\<exists>ss pre post. ss \<noteq> [] \<and> list_all numeric ss \<and> dotted_numeric raw = join_dots ss
         \<and> length (join_dots ss) \<le> 32 \<and> raw = pre @ join_dots ss @ post))
   \<and> (\<forall>ss pre post. ss \<noteq> [] \<and> list_all numeric ss \<and> length (join_dots ss) \<le> 32
        \<and> (\<forall>c \<in> set pre. \<not> is_digit c) \<and> (post = [] \<or> \<not> version_char (hd post))
        \<longrightarrow> dotted_numeric (pre @ join_dots ss @ post) = join_dots ss)"
proof (intro conjI allI impI)
  let ?d = "dropWhile (\<lambda>c. \<not> is_digit c) raw"
  let ?t = "takeWhile version_char ?d"
  let ?v = "strip_dots ?t"
  show "dotted_numeric raw = [] \<or>
      (\<exists>ss pre post. ss \<noteq> [] \<and> list_all numeric ss \<and> dotted_numeric raw = join_dots ss
         \<and> length (join_dots ss) \<le> 32 \<and> raw = pre @ join_dots ss @ post)"
  proof (cases "dotted_numeric raw = []")
    case False
    then have v: "dotted_numeric raw = ?v" "components_ok ?v" "length ?v \<le> 32"
      by (auto simp: dotted_numeric_def OS_VERSION_MAX_def Let_def split: if_splits)
    obtain n where n: "?t = ?v @ replicate n CHR ''.''" using strip_dots_prefix by blast
    have "list_all version_char ?t" by (auto simp: list_all_iff dest: set_takeWhileD)
    then have "list_all version_char ?v" using n by (metis list_all_append)
    then obtain ss where ss: "ss \<noteq> []" "list_all numeric ss" "?v = join_dots ss"
      using components_ok_sound v(2) by blast
    have "raw = takeWhile (\<lambda>c. \<not> is_digit c) raw @ ?v @ (replicate n CHR ''.'' @ dropWhile version_char ?d)"
      using n by (metis append.assoc takeWhile_dropWhile_id)
    then show ?thesis using ss v by auto
  qed simp
  fix ss pre post
  assume a: "ss \<noteq> [] \<and> list_all numeric ss \<and> length (join_dots ss) \<le> 32
        \<and> (\<forall>c \<in> set pre. \<not> is_digit c) \<and> (post = [] \<or> \<not> version_char (hd post))"
  let ?j = "join_dots ss"
  have ends: "?j \<noteq> []" "is_digit (hd ?j)" "is_digit (last ?j)" and all: "list_all version_char ?j"
    using a join_dots_ends join_dots_chars by auto
  have "dropWhile (\<lambda>c. \<not> is_digit c) (pre @ ?j @ post) = ?j @ post"
    using a ends by (cases ?j) (auto simp: dropWhile_append2)
  moreover have "takeWhile version_char (?j @ post) = ?j"
    using a all by (cases post) (auto simp: takeWhile_append2 list_all_iff)
  moreover have "strip_dots ?j = ?j" using ends by (intro strip_dots_id) auto
  ultimately show "dotted_numeric (pre @ ?j @ post) = ?j"
    using a ends components_ok_join by (simp add: dotted_numeric_def OS_VERSION_MAX_def Let_def)
qed

theorem dotted_numeric_correct_witness:
  "dotted_numeric ''v6.8.0-45-generic'' = ''6.8.0''"
  using conjunct2 [OF dotted_numeric_correct, rule_format,
      of "[''6'', ''8'', ''0'']" "''v''" "''-45-generic''"]
  by (simp add: numeric_def is_digit_def version_char_def)

section \<open>Device name\<close>

definition INSTANCE_NAME_MAX :: nat where "INSTANCE_NAME_MAX = 64"

definition printable :: "char \<Rightarrow> bool" where
  "printable c \<longleftrightarrow> 0x20 \<le> byte_of c \<and> byte_of c \<noteq> 0x7F"

definition utf8_continuation :: "char \<Rightarrow> bool" where
  "utf8_continuation c \<longleftrightarrow> byte_of c AND 0xC0 = 0x80"

fun char_boundary :: "string \<Rightarrow> nat \<Rightarrow> nat" where
  "char_boundary out 0 = 0"
| "char_boundary out (Suc n) =
     (if utf8_continuation (out ! Suc n) then char_boundary out n else Suc n)"

definition sanitize_instance_name :: "string \<Rightarrow> string" where
  "sanitize_instance_name s =
     (let out = rev (dropWhile (\<lambda>c. c = CHR '' '') (rev (filter printable s))) in
      if INSTANCE_NAME_MAX < length out then take (char_boundary out INSTANCE_NAME_MAX) out else out)"

text \<open>
  A UTF-8 character: an ASCII byte, or a lead byte \<open>11xxxxxx\<close> and its continuation bytes \<open>10xxxxxx\<close>.
\<close>

definition utf8_char :: "string \<Rightarrow> bool" where
  "utf8_char u \<longleftrightarrow>
     u \<noteq> [] \<and> list_all utf8_continuation (tl u)
     \<and> (if tl u = [] then byte_of (hd u) AND 0x80 = 0 else byte_of (hd u) AND 0xC0 = 0xC0)"

lemma utf8_hd: assumes "utf8_char u" shows "\<not> utf8_continuation (hd u)"
proof
  assume c: "utf8_continuation (hd u)"
  then have "tl u = []" using assms by (auto simp: utf8_char_def utf8_continuation_def split: if_splits)
  then have "byte_of (hd u) AND 0x80 = 0" using assms by (simp add: utf8_char_def)
  moreover have "(byte_of (hd u) AND 0xC0) AND 0x80 = byte_of (hd u) AND (0xC0 AND 0x80)"
    by (rule and.assoc)
  ultimately show False using c by (simp add: utf8_continuation_def)
qed

lemma char_boundary_le: "char_boundary out n \<le> n"
  by (induction n) auto

lemma char_boundary_stop: "char_boundary out n = 0 \<or> \<not> utf8_continuation (out ! char_boundary out n)"
  by (induction n) auto

lemma cut_at_boundary:
  assumes "list_all utf8_char cs" "n < length (concat cs)"
    "n = 0 \<or> \<not> utf8_continuation (concat cs ! n)"
  shows "\<exists>k. take n (concat cs) = concat (take k cs)"
  using assms
proof (induction cs arbitrary: n)
  case (Cons u cs)
  show ?case
  proof (cases "n = 0")
    case True
    then show ?thesis by (intro exI [of _ 0]) simp
  next
    case False
    have u: "u \<noteq> []" "list_all utf8_continuation (tl u)" using Cons.prems(1) by (auto simp: utf8_char_def split: if_splits)
    have ge: "length u \<le> n"
    proof (rule ccontr)
      assume "\<not> length u \<le> n"
      then have n: "n < length u" by simp
      then obtain m where m: "n = Suc m" "m < length (tl u)" using False by (cases n) auto
      then have "concat (u # cs) ! n = tl u ! m" using n by (simp add: nth_append nth_tl)
      then show False using Cons.prems(3) u m False by (simp add: list_all_length)
    qed
    have "n - length u < length (concat cs) \<or> cs = [] " using Cons.prems(2) ge by (cases cs) auto
    moreover have "n - length u < length (concat cs)" using Cons.prems(2) ge by simp
    moreover have "\<not> utf8_continuation (concat cs ! (n - length u))"
      using Cons.prems(3) False ge by (simp add: nth_append)
    ultimately obtain k where "take (n - length u) (concat cs) = concat (take k cs)"
      using Cons.IH [of "n - length u"] Cons.prems(1) by auto
    then show ?thesis using ge by (intro exI [of _ "Suc k"]) simp
  qed
qed simp

lemma high_byte:
  assumes "utf8_continuation c" shows "printable c" "c \<noteq> CHR '' ''"
proof -
  have "byte_of c AND 0xC0 \<le> byte_of c" by (rule word_and_le2)
  then have ge: "0x80 \<le> byte_of c" using assms by (simp add: utf8_continuation_def)
  then show "printable c" by (auto simp: printable_def word_le_nat_alt)
  show "c \<noteq> CHR '' ''" using ge by (auto simp: byte_of_def)
qed

lemma filter_utf8:
  assumes "utf8_char u"
  shows "filter printable u = (if printable (hd u) then u else [])"
proof (cases u)
  case (Cons c t)
  have t: "filter printable t = t"
    using assms Cons by (auto simp: utf8_char_def list_all_iff filter_id_conv dest: high_byte)
  show ?thesis
  proof (cases "t = []")
    case False
    then have "byte_of c AND 0xC0 = 0xC0" using assms Cons by (simp add: utf8_char_def)
    then have "0xC0 \<le> byte_of c" using word_and_le2 [of "byte_of c" "0xC0"] by simp
    then have "printable c" by (auto simp: printable_def word_le_nat_alt)
    then show ?thesis using Cons t by simp
  qed (simp add: Cons)
qed simp

lemma filter_utf8_concat:
  "list_all utf8_char cs \<Longrightarrow>
     filter printable (concat cs) = concat (filter (\<lambda>u. printable (hd u)) cs)"
  by (induction cs) (simp_all add: filter_utf8)

lemma last_utf8_space:
  assumes "utf8_char u" "last u = CHR '' ''" shows "u = [CHR '' '']"
proof (cases "tl u = []")
  case True
  then show ?thesis using assms by (cases u) (auto simp: utf8_char_def)
next
  case False
  then have "last u \<in> set (tl u)" by (cases u) auto
  then have "utf8_continuation (last u)" using assms(1) by (auto simp: utf8_char_def list_all_iff)
  then have "last u \<noteq> CHR '' ''" by (rule high_byte)
  then show ?thesis using assms(2) by simp
qed

lemma trim_utf8:
  assumes "list_all utf8_char cs"
  shows "\<exists>k. rev (dropWhile (\<lambda>c. c = CHR '' '') (rev (concat cs))) = concat (take k cs)"
  using assms
proof (induction cs rule: rev_induct)
  case (snoc u cs)
  have u: "utf8_char u" using snoc.prems by simp
  show ?case
  proof (cases "last u = CHR '' ''")
    case True
    obtain k where "rev (dropWhile (\<lambda>c. c = CHR '' '') (rev (concat cs))) = concat (take k cs)"
      using snoc by auto
    moreover have "take (min k (length cs)) (cs @ [u]) = take k cs" by (simp add: min_def)
    ultimately show ?thesis using last_utf8_space [OF u True]
      by (intro exI [of _ "min k (length cs)"]) simp
  next
    case False
    moreover obtain w x where "u = w @ [x]"
      using u by (cases u rule: rev_cases) (auto simp: utf8_char_def)
    ultimately have "dropWhile (\<lambda>c. c = CHR '' '') (rev (concat (cs @ [u]))) = rev (concat (cs @ [u]))"
      by simp
    then show ?thesis by (intro exI [of _ "Suc (length cs)"]) (simp only: rev_rev_ident, simp)
  qed
qed simp

text \<open>
  The device name that leaves the machine has at most 64 bytes and no control character; and of
  a name in UTF-8 it is a run of whole characters from the front, the control characters dropped,
  so no character is ever cut in two.
\<close>
theorem sanitize_instance_name_correct:
  "length (sanitize_instance_name s) \<le> 64
   \<and> (\<forall>c \<in> set (sanitize_instance_name s). printable c)
   \<and> (\<forall>cs. s = concat cs \<and> list_all utf8_char cs \<longrightarrow>
        (\<exists>k. sanitize_instance_name s = concat (take k (filter (\<lambda>u. printable (hd u)) cs))))"
proof (intro conjI allI impI)
  let ?out = "rev (dropWhile (\<lambda>c. c = CHR '' '') (rev (filter printable s)))"
  show "length (sanitize_instance_name s) \<le> 64"
    using char_boundary_le [of ?out 64]
    by (auto simp: sanitize_instance_name_def INSTANCE_NAME_MAX_def Let_def min_le_iff_disj)
  have "set ?out \<subseteq> {c. printable c}" by (auto dest: set_dropWhileD)
  then show "\<forall>c \<in> set (sanitize_instance_name s). printable c"
    using set_take_subset [of _ ?out]
    by (auto simp: sanitize_instance_name_def Let_def simp del: set_rev split: if_splits)
  fix cs assume a: "s = concat cs \<and> list_all utf8_char cs"
  let ?cs = "filter (\<lambda>u. printable (hd u)) cs"
  have cs: "list_all utf8_char ?cs" using a by (simp add: list_all_iff)
  obtain k where k: "?out = concat (take k ?cs)"
    using trim_utf8 [OF cs] a filter_utf8_concat [of cs] by auto
  have whole: "list_all utf8_char (take k ?cs)" using cs by (auto simp: list_all_iff dest: in_set_takeD)
  show "\<exists>k. sanitize_instance_name s = concat (take k ?cs)"
  proof (cases "64 < length ?out")
    case True
    let ?n = "char_boundary ?out 64"
    have "?n < length (concat (take k ?cs))" using True char_boundary_le [of ?out 64] k by simp
    moreover have "?n = 0 \<or> \<not> utf8_continuation (concat (take k ?cs) ! ?n)"
      using char_boundary_stop [of ?out 64] k by simp
    ultimately obtain m where "take ?n (concat (take k ?cs)) = concat (take m (take k ?cs))"
      using cut_at_boundary [OF whole] by blast
    then have "take ?n ?out = concat (take (min m k) ?cs)" using k by (simp add: min.commute)
    then show ?thesis using True
      by (intro exI [of _ "min m k"]) (simp add: sanitize_instance_name_def INSTANCE_NAME_MAX_def Let_def)
  next
    case False
    then show ?thesis using k
      by (intro exI [of _ k]) (simp add: sanitize_instance_name_def INSTANCE_NAME_MAX_def Let_def)
  qed
qed

theorem sanitize_instance_name_correct_witness:
  "\<exists>k. sanitize_instance_name [CHR ''a'', CHR 0x07, CHR 0xC3, CHR 0xA9] =
     concat (take k [[CHR ''a''], [CHR 0xC3, CHR 0xA9]])"
  using conjunct2 [OF conjunct2 [OF sanitize_instance_name_correct], rule_format,
      of "[CHR ''a'', CHR 0x07, CHR 0xC3, CHR 0xA9]" "[[CHR ''a''], [CHR 0x07], [CHR 0xC3, CHR 0xA9]]"]
  by (simp add: utf8_char_def utf8_continuation_def printable_def byte_of_def)

section \<open>Machine identity\<close>

definition machine_hash :: "string \<Rightarrow> string \<Rightarrow> string \<Rightarrow> string" where
  "machine_hash tenant_id product_id stable_id =
     sha256_hex (''keylight-keyless-machine-v1|'' @ tenant_id @ ''|'' @ product_id @ ''|'' @ stable_id)"

definition is_space :: "char \<Rightarrow> bool" where
  "is_space c \<longleftrightarrow> c \<in> {CHR '' '', CHR 0x09, CHR 0x0A, CHR 0x0D, CHR 0x0C, CHR 0x0B}"

text \<open>A file is its content, or \<open>None\<close> when it cannot be opened.\<close>

definition read_file_trimmed :: "string option \<Rightarrow> string option" where
  "read_file_trimmed file =
     (case file of
        None \<Rightarrow> None
      | Some s \<Rightarrow>
          (case dropWhile is_space s of
             [] \<Rightarrow> None
           | b \<Rightarrow> Some (rev (dropWhile is_space (rev b)))))"

definition read_hardware_id :: "(string \<Rightarrow> string option) \<Rightarrow> string option" where
  "read_hardware_id fs =
     (case read_file_trimmed (fs ''/etc/machine-id'') of
        Some v \<Rightarrow> Some v
      | None \<Rightarrow> read_file_trimmed (fs ''/var/lib/dbus/machine-id''))"

lemma read_file_trimmed_nonempty:
  assumes "read_file_trimmed f = Some v"
  shows "v \<noteq> [] \<and> \<not> is_space (hd v) \<and> \<not> is_space (last v)"
proof -
  obtain s c t where ct: "dropWhile is_space s = c # t" and v: "v = rev (dropWhile is_space (rev (c # t)))"
    using assms by (auto simp: read_file_trimmed_def split: option.splits list.splits)
  have c: "\<not> is_space c" using hd_dropWhile [of is_space s] ct by simp
  have d: "dropWhile is_space (rev (c # t)) = dropWhile is_space (rev t) @ [c]"
    using c by (simp add: dropWhile_append)
  have "\<not> is_space (hd (dropWhile is_space (rev (c # t))))" by (rule hd_dropWhile) (simp only: d, simp)
  then show ?thesis unfolding v hd_rev last_rev using c d by simp
qed

text \<open>The sixteen bytes the generator drew, as a version-4 UUID.\<close>

definition uuid_v4 :: "byte list \<Rightarrow> string" where
  "uuid_v4 drawn =
     (let b = drawn[6 := (drawn ! 6 AND 0x0F) OR 0x40];
          b = b[8 := (b ! 8 AND 0x3F) OR 0x80]
      in concat (map (\<lambda>i. (if i \<in> {4, 6, 8, 10} then ''-'' else []) @ hex_byte (b ! i)) [0..<16]))"

definition lower_hex :: "char \<Rightarrow> bool" where
  "lower_hex c \<longleftrightarrow> c \<in> set ''0123456789abcdef''"

lemma hex_char_lower: "n < 16 \<Longrightarrow> lower_hex (hex_char n)"
  unfolding hex_char_def lower_hex_def by (rule nth_mem) simp

lemma nibble_high: "unat (drop_bit 4 (b :: byte)) < 16"
proof -
  have "unat b < 256" using unsigned_less [of b] by simp
  then have "drop_bit 4 (unat b) < 16" by (simp add: drop_bit_eq_div less_mult_imp_div_less)
  then show ?thesis by (simp add: unat_drop_bit_eq)
qed

lemma nibble_low: "unat ((b :: byte) AND 0xF) < 16"
proof -
  have "b AND 0xF = take_bit 4 b" using take_bit_eq_mask [of 4 b] by (simp add: mask_eq_exp_minus_1)
  then have "unat (b AND 0xF) = take_bit 4 (unat b)" by (simp add: unsigned_take_bit_eq)
  then show ?thesis using take_bit_nat_less_exp [of 4 "unat b"] by simp
qed

lemma version_nibble: "drop_bit 4 ((x AND 0x0F) OR 0x40 :: byte) = 4"
proof (rule bit_word_eqI)
  fix n assume "n < LENGTH(8)"
  then have "n \<in> {0, 1, 2, 3, 4, 5, 6, 7}" by auto
  then show "bit (drop_bit 4 ((x AND 0x0F) OR 0x40 :: byte)) n = bit (4 :: byte) n"
    by (auto simp: bit_simps bit_numeral_rec)
qed

lemma variant_nibble: "hex_char (unat (drop_bit 4 ((x AND 0x3F) OR 0x80 :: byte))) \<in> set ''89ab''"
proof -
  let ?y = "take_bit 2 (drop_bit 4 x)"
  have eq: "drop_bit 4 ((x AND 0x3F) OR 0x80) = 8 OR ?y"
  proof (rule bit_word_eqI)
    fix n assume "n < LENGTH(8)"
    then have "n \<in> {0, 1, 2, 3, 4, 5, 6, 7}" by auto
    then show "bit (drop_bit 4 ((x AND 0x3F) OR 0x80)) n = bit (8 OR ?y) n"
      by (auto simp: bit_simps bit_numeral_rec)
  qed
  define k where "k = unat ?y"
  have "k < 4"
    using take_bit_nat_less_exp [of 2 "unat (drop_bit 4 x)"] by (simp add: k_def unsigned_take_bit_eq)
  then have k: "k \<in> {0, 1, 2, 3}" by auto
  have y: "?y = of_nat k" unfolding k_def by simp
  show ?thesis unfolding eq y using k by (auto simp: hex_char_def)
qed

text \<open>
  C40. The instance id is an RFC 4122 version-4 UUID whatever the sixteen random bytes are: 36
  characters, dashes at 8, 13, 18 and 23, lower-case hexadecimal digits elsewhere, the version digit
  4 at 14 and a variant digit 8, 9, a or b at 19.
\<close>
theorem uuid_v4_format:
  assumes "length drawn = 16"
  shows "length (uuid_v4 drawn) = 36
    \<and> (\<forall>i < 36. if i \<in> {8, 13, 18, 23} then uuid_v4 drawn ! i = CHR ''-''
         else lower_hex (uuid_v4 drawn ! i))
    \<and> uuid_v4 drawn ! 14 = CHR ''4'' \<and> uuid_v4 drawn ! 19 \<in> set ''89ab''"
proof -
  obtain b0 b1 b2 b3 b4 b5 b6 b7 b8 b9 b10 b11 b12 b13 b14 b15
    where d: "drawn = [b0, b1, b2, b3, b4, b5, b6, b7, b8, b9, b10, b11, b12, b13, b14, b15]"
    using assms by (auto simp: numeral_eq_Suc length_Suc_conv)
  define v r where "v = (b6 AND 0x0F) OR 0x40" and "r = (b8 AND 0x3F) OR 0x80"
  have u: "uuid_v4 drawn =
      concat (map hex_byte [b0, b1, b2, b3]) @ ''-'' @ concat (map hex_byte [b4, b5]) @ ''-'' @
      concat (map hex_byte [v, b7]) @ ''-'' @ concat (map hex_byte [r, b9]) @ ''-'' @
      concat (map hex_byte [b10, b11, b12, b13, b14, b15])"
    unfolding d uuid_v4_def v_def r_def by (simp add: upt_rec Let_def)
  have hex: "lower_hex (hex_char (unat (drop_bit 4 b)))" "lower_hex (hex_char (unat (b AND 0xF)))" for b :: byte
    using hex_char_lower [OF nibble_high] hex_char_lower [OF nibble_low] by auto
  have len: "length (uuid_v4 drawn) = 36" unfolding u by (simp add: hex_byte_def)
  have ver: "uuid_v4 drawn ! 14 = hex_char (unat (drop_bit 4 v))" unfolding u by (simp add: hex_byte_def)
  have var: "uuid_v4 drawn ! 19 = hex_char (unat (drop_bit 4 r))" unfolding u by (simp add: hex_byte_def)
  have each: "list_all2 (\<lambda>i c. if i \<in> {8, 13, 18, 23} then c = CHR ''-'' else lower_hex c)
      [0..<36] (uuid_v4 drawn)"
    unfolding u using hex by (simp add: hex_byte_def upt_rec)
  have "if i \<in> {8, 13, 18, 23} then uuid_v4 drawn ! i = CHR ''-'' else lower_hex (uuid_v4 drawn ! i)"
    if "i < 36" for i
    using list_all2_nthD [OF each, of i] that by simp
  moreover have "uuid_v4 drawn ! 14 = CHR ''4''"
    using ver version_nibble [of b6] by (simp add: v_def hex_char_def)
  ultimately show ?thesis
    using len var variant_nibble [of b8] by (simp add: r_def)
qed

theorem uuid_v4_format_witness:
  "uuid_v4 [0, 1, 2, 3, 4, 5, 255, 7, 255, 9, 10, 11, 12, 13, 14, 15] ! 14 = CHR ''4''"
  using uuid_v4_format [of "[0, 1, 2, 3, 4, 5, 255, 7, 255, 9, 10, 11, 12, 13, 14, 15]"] by simp

end
