(* ===== verification/Lease.thy ===== *)
theory Lease
  imports Base64 Json
begin

text \<open>
  The signed lease (\<open>lease.hpp\<close>), the signed product configuration (\<open>config_payload.hpp\<close>) and the
  verifier (\<open>verifier.hpp\<close>). The signature primitive is an argument of the verifier here; the theory
  \<open>Ed25519\<close> supplies the one the SDK ships.
\<close>

section \<open>The lease\<close>

record Lease =
  kid :: string
  licenseKeyHash :: string
  instanceId :: string
  issuedAt :: int
  expiresAt :: int
  status :: string
  signature :: string
  entitlements :: "string list"

definition lease_from_json :: "jvalue \<Rightarrow> Lease result" where
  "lease_from_json j =
     (let ents = jget j ''entitlements'';
          l = \<lparr>kid = as_string (jget j ''kid''),
               licenseKeyHash = as_string (jget j ''licenseKeyHash''),
               instanceId = as_string (jget j ''instanceId''),
               issuedAt = as_int (jget j ''issuedAt''),
               expiresAt = as_int (jget j ''expiresAt''),
               status = as_string (jget j ''status''),
               signature = as_string (jget j ''signature''),
               entitlements = map (\<lambda>i. as_string (jat ents i)) [0..<jsize ents]\<rparr>
      in if kid l = [] \<or> status l = [] then err EC_BadResponse ''missing required lease fields''
         else Inr l)"

definition csv :: "string list \<Rightarrow> string" where
  "csv ss = comma_join ss"

definition canonical_payload :: "Lease \<Rightarrow> string" where
  "canonical_payload l =
     ''v3|'' @ kid l @ ''|'' @ licenseKeyHash l @ ''|'' @ instanceId l @ ''|''
     @ int_str (issuedAt l) @ ''|'' @ int_str (expiresAt l) @ ''|'' @ status l @ ''|''
     @ csv (sort (entitlements l))"

definition config_canonical_payload ::
    "string \<Rightarrow> string \<Rightarrow> string \<Rightarrow> int \<Rightarrow> int \<Rightarrow> int \<Rightarrow> bool \<Rightarrow> string" where
  "config_canonical_payload k tenant product issued expires trialDays freeTier =
     ''cfg1|'' @ k @ ''|'' @ tenant @ ''|'' @ product @ ''|'' @ int_str issued @ ''|''
     @ int_str expires @ ''|'' @ int_str trialDays @ ''|'' @ (if freeTier then ''true'' else ''false'')"

section \<open>What a signed text determines\<close>

definition bar_free :: "string \<Rightarrow> bool" where
  "bar_free s \<longleftrightarrow> CHR ''|'' \<notin> set s"

text \<open>The fields of a lease the server mints: no separator inside a field, no empty entitlement.\<close>

definition well_formed_lease :: "Lease \<Rightarrow> bool" where
  "well_formed_lease l \<longleftrightarrow>
     bar_free (kid l) \<and> bar_free (licenseKeyHash l) \<and> bar_free (instanceId l) \<and> bar_free (status l)
     \<and> (\<forall>e \<in> set (entitlements l). e \<noteq> [] \<and> CHR '','' \<notin> set e)"

lemma bar_free_int_str [simp]: "bar_free (int_str i)"
  using int_str_chars [of "CHR ''|''" i] by (auto simp: bar_free_def is_digit_def)

lemma bar_split:
  assumes "bar_free a" "bar_free b"
  shows "a @ CHR ''|'' # x = b @ CHR ''|'' # y \<longleftrightarrow> a = b \<and> x = y"
  using assms sep_append_eq [of "CHR ''|''" a b x y] by (auto simp: bar_free_def)

lemma csv_inject:
  assumes "\<forall>e \<in> set xs. e \<noteq> [] \<and> CHR '','' \<notin> set e" "\<forall>e \<in> set ys. e \<noteq> [] \<and> CHR '','' \<notin> set e"
  shows "csv xs = csv ys \<longleftrightarrow> xs = ys"
  using assms
proof (induction xs arbitrary: ys)
  case Nil
  then show ?case by (cases ys rule: comma_join.cases) (auto simp: csv_def)
next
  case (Cons x xs)
  have no: "x \<noteq> [] \<and> CHR '','' \<notin> set x" using Cons.prems(1) by simp
  show ?case
  proof (cases ys)
    case Nil
    then show ?thesis using no by (cases xs) (auto simp: csv_def)
  next
    case (Cons y ys')
    have noy: "y \<noteq> [] \<and> CHR '','' \<notin> set y" using Cons.prems(2) Cons by simp
    have IH: "csv xs = csv ys' \<longleftrightarrow> xs = ys'" using Cons.IH Cons.prems Cons by simp
    show ?thesis
    proof (cases "xs = [] \<or> ys' = []")
      case True
      then show ?thesis using no noy Cons by (cases xs; cases ys') (auto simp: csv_def)
    next
      case False
      then have "csv (x # xs) = x @ CHR '','' # csv xs" "csv ys = y @ CHR '','' # csv ys'"
        using Cons by (cases xs; cases ys'; simp add: csv_def)+
      then show ?thesis
        using IH Cons no noy sep_append_eq [of "CHR '',''" x y "csv xs" "csv ys'"] by auto
    qed
  qed
qed

text \<open>
  The signature of a lease covers every field the SDK acts on: two well-formed leases have the
  same signed payload exactly when they agree on key id, key hash, instance, both timestamps and
  status, and their entitlements are the same up to order.
\<close>
theorem canonical_payload_determines_lease:
  assumes "well_formed_lease a" "well_formed_lease b"
  shows "canonical_payload a = canonical_payload b \<longleftrightarrow>
    kid a = kid b \<and> licenseKeyHash a = licenseKeyHash b \<and> instanceId a = instanceId b
    \<and> issuedAt a = issuedAt b \<and> expiresAt a = expiresAt b \<and> status a = status b
    \<and> mset (entitlements a) = mset (entitlements b)"
proof -
  have "csv (sort (entitlements a)) = csv (sort (entitlements b))
      \<longleftrightarrow> sort (entitlements a) = sort (entitlements b)"
    using assms by (intro csv_inject) (simp_all add: well_formed_lease_def)
  moreover have "sort (entitlements a) = sort (entitlements b) \<longleftrightarrow> mset (entitlements a) = mset (entitlements b)"
    by (metis mset_sort properties_for_sort sorted_sort)
  ultimately show ?thesis
    using assms by (simp add: canonical_payload_def well_formed_lease_def bar_split)
qed

theorem canonical_payload_determines_lease_witness:
  "let l = \<lparr>kid = ''k'', licenseKeyHash = ''h'', instanceId = ''i'', issuedAt = 1, expiresAt = 2,
            status = ''active'', signature = [], entitlements = [''pro'', ''b'']\<rparr>
   in canonical_payload l = canonical_payload (l\<lparr>entitlements := [''b'', ''pro'']\<rparr>)
      \<and> canonical_payload l \<noteq> canonical_payload (l\<lparr>expiresAt := 3\<rparr>)"
  unfolding Let_def
  by (subst canonical_payload_determines_lease; simp add: well_formed_lease_def bar_free_def)+

text \<open>
  The signature of a product configuration binds it to the tenant and the product: two payloads
  are equal only when all seven fields are, so a configuration signed for one product never passes
  for another.
\<close>
theorem config_payload_determines_config:
  assumes "bar_free k" "bar_free k'" "bar_free t" "bar_free t'" "bar_free p" "bar_free p'"
  shows "config_canonical_payload k t p i x d f = config_canonical_payload k' t' p' i' x' d' f' \<longleftrightarrow>
    k = k' \<and> t = t' \<and> p = p' \<and> i = i' \<and> x = x' \<and> d = d' \<and> f = f'"
  using assms by (auto simp: config_canonical_payload_def bar_split)

theorem config_payload_determines_config_witness:
  "config_canonical_payload ''k'' ''acme'' ''synth'' 1 2 30 True
     \<noteq> config_canonical_payload ''k'' ''acme'' ''reverb'' 1 2 30 True"
  by (subst config_payload_determines_config) (simp_all add: bar_free_def)

section \<open>Writing a lease\<close>

text \<open>
  \<open>Client::lease_to_json_\<close>: the lease as the client persists and resends it.
\<close>

definition lease_to_json :: "Lease \<Rightarrow> string" where
  "lease_to_json l =
     ''{''
     @ ''\"kid\":'' @ json_str (kid l) @ '',''
     @ ''\"licenseKeyHash\":'' @ json_str (licenseKeyHash l) @ '',''
     @ ''\"instanceId\":'' @ json_str (instanceId l) @ '',''
     @ ''\"issuedAt\":'' @ int_str (issuedAt l) @ '',''
     @ ''\"expiresAt\":'' @ int_str (expiresAt l) @ '',''
     @ ''\"status\":'' @ json_str (status l) @ '',''
     @ ''\"entitlements\":'' @ (''['' @ comma_join (map json_str (entitlements l)) @ '']'') @ '',''
     @ ''\"signature\":'' @ json_str (signature l)
     @ ''}''"

definition lease_object :: "Lease \<Rightarrow> jvalue" where
  "lease_object l = JObject [
     (''kid'', JString (kid l)), (''licenseKeyHash'', JString (licenseKeyHash l)),
     (''instanceId'', JString (instanceId l)), (''issuedAt'', JInt (issuedAt l)),
     (''expiresAt'', JInt (expiresAt l)), (''status'', JString (status l)),
     (''entitlements'', JArray (map JString (entitlements l))), (''signature'', JString (signature l))]"

text \<open>Keys the writers print verbatim need no escape.\<close>

definition plain_key :: "string \<Rightarrow> bool" where
  "plain_key s \<longleftrightarrow> list_all (\<lambda>c. json_escape c = [c]) s"

lemma json_str_plain: "plain_key s \<Longrightarrow> json_str s = CHR 0x22 # s @ [CHR 0x22]"
proof -
  assume "plain_key s"
  then have "concat (map json_escape s) = s"
    unfolding plain_key_def by (induction s) auto
  then show ?thesis by (simp add: json_str_def)
qed

lemma lease_to_json_render: "lease_to_json l = render (lease_object l)"
  by (simp add: lease_to_json_def lease_object_def json_str_plain plain_key_def json_escape_def comp_def)

definition lease_in_range :: "Lease \<Rightarrow> bool" where
  "lease_in_range l \<longleftrightarrow> in64 (issuedAt l) \<and> in64 (expiresAt l)"

lemma writable_lease: "lease_in_range l \<Longrightarrow> writable (lease_object l)"
  by (auto simp: lease_object_def lease_in_range_def list_all_iff)

lemma reread_lease:
  "reread (lease_object l) = JObject [
     (''kid'', JString (kid l)), (''licenseKeyHash'', JString (licenseKeyHash l)),
     (''instanceId'', JString (instanceId l)), (''issuedAt'', jint (issuedAt l)),
     (''expiresAt'', jint (expiresAt l)), (''status'', JString (status l)),
     (''entitlements'', JArray (map JString (entitlements l))), (''signature'', JString (signature l))]"
  by (simp add: lease_object_def comp_def)

lemma map_jat_JString:
  "map (\<lambda>i. as_string (jat (JArray (map JString es)) i)) [0..<length es] = es"
  by (rule nth_equalityI) (simp_all add: jat_def as_string_def)

lemma lease_from_reread [decodes]:
  assumes "kid l \<noteq> []" "status l \<noteq> []"
  shows "lease_from_json (reread (lease_object l)) = Inr l"
  using assms map_jat_JString [of "entitlements l"]
  by (simp add: lease_from_json_def reread_lease jget_def as_string_def jsize_def Let_def)

text \<open>
  A persisted lease comes back as it was: parsing what the client writes for a lease gives the same
  lease, with every field, for all 64-bit timestamps and all contents of its strings.
\<close>
theorem lease_round_trip:
  assumes "kid l \<noteq> []" "status l \<noteq> []" "in64 (issuedAt l)" "in64 (expiresAt l)"
  shows "\<exists>j. json_parse (lease_to_json l) = Inr j \<and> lease_from_json j = Inr l"
proof -
  have "writable (lease_object l)" using assms by (simp add: writable_lease lease_in_range_def)
  then show ?thesis
    using assms parse_render by (simp add: lease_to_json_render lease_from_reread)
qed

theorem lease_round_trip_witness:
  "\<exists>j. json_parse (lease_to_json \<lparr>kid = ''k1'', licenseKeyHash = ''h'', instanceId = ''i'',
        issuedAt = -1, expiresAt = 9223372036854775807, status = ''active'', signature = ''AA=='',
        entitlements = [''a,b'', [CHR 0x22, CHR 0x0A]]\<rparr>) = Inr j
     \<and> lease_from_json j = Inr \<lparr>kid = ''k1'', licenseKeyHash = ''h'', instanceId = ''i'',
        issuedAt = -1, expiresAt = 9223372036854775807, status = ''active'', signature = ''AA=='',
        entitlements = [''a,b'', [CHR 0x22, CHR 0x0A]]\<rparr>"
  by (rule lease_round_trip) (simp_all add: in64_def INT64_MIN_def INT64_MAX_def)

lemma lease_from_json_fields:
  assumes "lease_from_json j = Inr l"
  shows "kid l \<noteq> []" "status l \<noteq> []" "in_range j \<Longrightarrow> lease_in_range l"
  using assms
  by (auto simp: lease_from_json_def Let_def lease_in_range_def as_int_in64 in_range_jget split: if_splits)

section \<open>The verifier\<close>

record VerifyResult =
  kidKnown :: bool
  signatureValid :: bool
  expired :: bool

definition is_trusted :: "VerifyResult \<Rightarrow> bool" where
  "is_trusted r \<longleftrightarrow> kidKnown r \<and> signatureValid r"

text \<open>Message, signature and public key, as \<open>ed25519_verify\<close> takes them.\<close>

type_synonym sig_check = "byte list \<Rightarrow> byte list \<Rightarrow> byte list \<Rightarrow> bool"

type_synonym keyset = "string \<rightharpoonup> string"

definition signature_ok :: "sig_check \<Rightarrow> string \<Rightarrow> string \<Rightarrow> string \<Rightarrow> bool" where
  "signature_ok check pubB64 sigB64 payload =
     (let pk = b64_decode_flexible pubB64 in
      if length pk \<noteq> 32 then False
      else
        let sig = b64_decode_flexible sigB64 in
        if length sig \<noteq> 64 then False
        else check (bytes_of payload) (bytes_of sig) (bytes_of pk))"

definition verify :: "sig_check \<Rightarrow> keyset \<Rightarrow> int \<Rightarrow> Lease \<Rightarrow> int \<Rightarrow> VerifyResult" where
  "verify check trustedKeys skewSeconds lease now =
     (let e = (i64 (expiresAt lease + skewSeconds) < now) in
      case trustedKeys (kid lease) of
        None \<Rightarrow> \<lparr>kidKnown = False, signatureValid = False, expired = e\<rparr>
      | Some pub \<Rightarrow>
          \<lparr>kidKnown = True,
           signatureValid = signature_ok check pub (signature lease) (canonical_payload lease),
           expired = e\<rparr>)"

lemma verify_trusted_iff:
  "is_trusted (verify check keys skew l now) \<longleftrightarrow>
     (\<exists>pub. keys (kid l) = Some pub \<and> signature_ok check pub (signature l) (canonical_payload l))"
  by (simp add: is_trusted_def verify_def Let_def split: option.split)

lemma expired_verify: "expired (verify check keys skew l now) \<longleftrightarrow> i64 (expiresAt l + skew) < now"
  by (simp add: verify_def Let_def split: option.split)

lemma trusted_any_time:
  "is_trusted (verify check keys skew l now) = is_trusted (verify check keys skew' l now')"
  by (simp add: verify_trusted_iff)

lemma expired_verify_exact:
  assumes "0 \<le> skew" "skew < 2 ^ 31" "- (2 ^ 62) \<le> expiresAt l" "expiresAt l \<le> 2 ^ 62"
  shows "expired (verify check keys skew l now) \<longleftrightarrow> expiresAt l + skew < now"
proof -
  have "in64 (expiresAt l + skew)" using assms by (simp add: in64_def INT64_MIN_def INT64_MAX_def)
  then show ?thesis by (simp add: expired_verify)
qed

text \<open>
  The verifier trusts a lease exactly when its key id is in the trusted key set, both the key and the
  signature decode to 32 and 64 bytes, and the signature primitive accepts the canonical payload;
  trust does not depend on the clock, the tolerance or the order of the entitlements, and expiry is
  \<open>now > expiresAt + skew\<close>.
\<close>
theorem verify_correct:
  assumes "0 \<le> skew" "skew < 2 ^ 31" "- (2 ^ 62) \<le> expiresAt l" "expiresAt l \<le> 2 ^ 62"
    "mset es = mset (entitlements l)"
  shows "let r = verify check keys skew l now in
     (is_trusted r \<longleftrightarrow> (\<exists>pub pk sig. keys (kid l) = Some pub
        \<and> pk = b64_decode_flexible pub \<and> length pk = 32
        \<and> sig = b64_decode_flexible (signature l) \<and> length sig = 64
        \<and> check (bytes_of (canonical_payload l)) (bytes_of sig) (bytes_of pk)))
     \<and> (expired r \<longleftrightarrow> expiresAt l + skew < now)
     \<and> (kidKnown r \<longleftrightarrow> kid l \<in> dom keys)
     \<and> is_trusted (verify check keys skew' (l\<lparr>entitlements := es\<rparr>) now') = is_trusted r"
proof -
  have "sort es = sort (entitlements l)"
    using assms(5) by (metis mset_sort properties_for_sort sorted_sort)
  then have "canonical_payload (l\<lparr>entitlements := es\<rparr>) = canonical_payload l"
    by (simp add: canonical_payload_def)
  moreover have "kidKnown (verify check keys skew l now) \<longleftrightarrow> kid l \<in> dom keys"
    by (auto simp: verify_def Let_def split: option.split)
  ultimately show ?thesis
    using expired_verify_exact [OF assms(1-4)]
    by (auto simp: verify_trusted_iff signature_ok_def Let_def split: if_splits)
qed

theorem verify_correct_witness:
  "expired (verify (\<lambda>_ _ _. True) (\<lambda>_. None) 300
     \<lparr>kid = ''k'', licenseKeyHash = [], instanceId = [], issuedAt = 0, expiresAt = 1000,
      status = ''active'', signature = [], entitlements = []\<rparr> 1301)"
  using verify_correct [of 300 "\<lparr>kid = ''k'', licenseKeyHash = [], instanceId = [], issuedAt = 0,
      expiresAt = 1000, status = ''active'', signature = [], entitlements = []\<rparr>" "[]"
      "\<lambda>_ _ _. True" "\<lambda>_. None" 1301]
  by (simp add: Let_def)

end
