(* ===== verification/Transport.thy ===== *)
theory Transport
  imports Json
begin

text \<open>
  The HTTP seam (\<open>transport.hpp\<close>), the cpp-httplib transport behind it (\<open>transport/httplib.hpp\<close>) and
  the key-set fetcher (\<open>keyset.hpp\<close>). The network is a state \<open>'w\<close> that a request reads and changes;
  the cpp-httplib client itself is an argument, described by the outcomes its documentation lists.
\<close>

record HttpResponse =
  http_status :: int
  body :: string
  headers :: "string \<rightharpoonup> string"

record HttpRequest =
  req_method :: string
  req_url :: string
  req_headers :: "string \<rightharpoonup> string"
  req_body :: string

type_synonym 'w transport = "HttpRequest \<Rightarrow> 'w \<Rightarrow> HttpResponse result \<times> 'w"

section \<open>URLs\<close>

record ParsedUrl =
  is_https :: bool
  host :: string
  port :: int
  path :: string

text \<open>\<open>std::stoi\<close>: white space, a sign, digits; \<open>None\<close> where it throws.\<close>

definition is_c_space :: "char \<Rightarrow> bool" where
  "is_c_space c \<longleftrightarrow> c \<in> {CHR '' '', CHR 0x09, CHR 0x0A, CHR 0x0B, CHR 0x0C, CHR 0x0D}"

definition stoi :: "string \<Rightarrow> int option" where
  "stoi s =
     (let t = dropWhile is_c_space s;
          neg = (t \<noteq> [] \<and> hd t = CHR ''-'');
          u = (if t \<noteq> [] \<and> (hd t = CHR ''-'' \<or> hd t = CHR ''+'') then tl t else t);
          ds = takeWhile is_digit u;
          v = (if neg then - digits_val ds else digits_val ds)
      in if ds = [] \<or> \<not> in32 v then None else Some v)"

definition starts_with :: "string \<Rightarrow> string \<Rightarrow> bool" where
  "starts_with p s \<longleftrightarrow> take (length p) s = p"

definition before_slash :: "string \<Rightarrow> string" where
  "before_slash s = takeWhile (\<lambda>c. c \<noteq> CHR ''/'') s"

definition from_slash :: "string \<Rightarrow> string" where
  "from_slash s = dropWhile (\<lambda>c. c \<noteq> CHR ''/'') s"

text \<open>Host and port of an authority: the last colon separates them when a number follows it.\<close>

definition split_authority :: "string \<Rightarrow> int \<Rightarrow> string \<times> int" where
  "split_authority authority dflt =
     (if CHR '':'' \<notin> set authority then (authority, dflt)
      else
        let after = rev (takeWhile (\<lambda>c. c \<noteq> CHR '':'') (rev authority)) in
        case stoi after of
          Some p \<Rightarrow> (take (length authority - length after - 1) authority, p)
        | None \<Rightarrow> (authority, dflt))"

definition parse_url :: "string \<Rightarrow> ParsedUrl" where
  "parse_url url =
     (let (https, dflt, rest) =
            (if starts_with ''https://'' url then (True, 443, drop 8 url)
             else if starts_with ''http://'' url then (False, 80, drop 7 url)
             else (True, 443, url));
          (h, p) = split_authority (before_slash rest) dflt
      in \<lparr>is_https = https, host = h, port = p,
          path = (if from_slash rest = [] then ''/'' else from_slash rest)\<rparr>)"

section \<open>The cpp-httplib transport\<close>

text \<open>
  One call of the cpp-httplib client: it throws (with a message or not), reports an error, or returns
  a response with its header fields in order.
\<close>

datatype lib_outcome =
    Lib_throws string
  | Lib_throws_unknown
  | Lib_error string
  | Lib_response int string "(string \<times> string) list"

record lib_call =
  lib_url :: ParsedUrl
  lib_verb :: string
  lib_headers :: "string \<rightharpoonup> string"
  lib_payload :: "(string \<times> string) option"  \<comment> \<open>body and content type, for the verbs that carry one\<close>

definition to_lower :: "char \<Rightarrow> char" where
  "to_lower c =
     (let n = (of_char c :: nat) in if 65 \<le> n \<and> n \<le> 90 then char_of (n + 32) else c)"

definition lower_headers :: "(string \<times> string) list \<Rightarrow> (string \<rightharpoonup> string)" where
  "lower_headers kvs = foldl (\<lambda>m (k, v). m(map to_lower k \<mapsto> v)) Map.empty kvs"

definition dispatch :: "HttpRequest \<Rightarrow> lib_call" where
  "dispatch r =
     (let ct = (case req_headers r ''Content-Type'' of Some v \<Rightarrow> v | None \<Rightarrow> ''application/json'');
          call = \<lparr>lib_url = parse_url (req_url r), lib_verb = req_method r,
                  lib_headers = req_headers r, lib_payload = None\<rparr>
      in if req_method r \<in> {''GET'', ''DELETE'', ''HEAD''} then call
         else if req_method r \<in> {''PUT'', ''PATCH''} then call\<lparr>lib_payload := Some (req_body r, ct)\<rparr>
         else call\<lparr>lib_verb := ''POST'', lib_payload := Some (req_body r, ct)\<rparr>)"

definition httplib_request :: "(lib_call \<Rightarrow> 'w \<Rightarrow> lib_outcome \<times> 'w) \<Rightarrow> 'w transport" where
  "httplib_request send r w =
     (case send (dispatch r) w of
        (Lib_throws what, w') \<Rightarrow> (err EC_Network (''httplib exception: '' @ what), w')
      | (Lib_throws_unknown, w') \<Rightarrow> (err EC_Network ''httplib unknown exception'', w')
      | (Lib_error e, w') \<Rightarrow> (err EC_Network (''httplib error: '' @ e), w')
      | (Lib_response st b hs, w') \<Rightarrow>
          (Inr \<lparr>http_status = st, body = b, headers = lower_headers hs\<rparr>, w'))"

lemma to_lower_idem [simp]: "to_lower (to_lower c) = to_lower c"
  by (simp add: to_lower_def Let_def)

lemma lower_headers_dom: "k \<in> dom (lower_headers kvs) \<longleftrightarrow> (\<exists>n v. (n, v) \<in> set kvs \<and> k = map to_lower n)"
proof -
  have "k \<in> dom (foldl (\<lambda>m (k, v). m(map to_lower k \<mapsto> v)) m kvs) \<longleftrightarrow>
      k \<in> dom m \<or> (\<exists>n v. (n, v) \<in> set kvs \<and> k = map to_lower n)" for m
    by (induction kvs arbitrary: m) (auto split: if_splits)
  then show ?thesis by (simp add: lower_headers_def)
qed

lemma stoi_nat_str:
  assumes "p < 2 ^ 31" shows "stoi (nat_str p) = Some (int p)"
proof -
  have d: "\<forall>c \<in> set (nat_str p). is_digit c" by (auto dest: nat_str_digits)
  obtain c s where cs: "nat_str p = c # s" by (cases "nat_str p") auto
  have c: "is_digit c" using d cs by simp
  have nospace: "\<not> is_c_space c" "c \<noteq> CHR ''-''" "c \<noteq> CHR ''+''"
    using c by (auto simp: is_c_space_def is_digit_def)
  have "takeWhile is_digit (nat_str p) = nat_str p" using d by (simp add: takeWhile_eq_all_conv)
  then show ?thesis
    using nospace cs assms digits_val_nat_str [of p] by (simp add: stoi_def in32_def Let_def)
qed

lemma split_authority_port:
  assumes "p < 2 ^ 31"
  shows "split_authority (h @ CHR '':'' # nat_str p) dflt = (h, int p)"
proof -
  have no: "CHR '':'' \<notin> set (nat_str p)" using nat_str_digits [of "CHR '':''" p] by (auto simp: is_digit_def)
  then have "takeWhile (\<lambda>c. c \<noteq> CHR '':'') (rev (nat_str p) @ CHR '':'' # rev h) = rev (nat_str p)"
    by (subst takeWhile_append2) auto
  then show ?thesis
    using stoi_nat_str [OF assms] by (simp add: split_authority_def Let_def)
qed

lemma before_slash_path: "CHR ''/'' \<notin> set h \<Longrightarrow> before_slash (h @ CHR ''/'' # p) = h"
  unfolding before_slash_def by (induction h) auto

lemma from_slash_path: "CHR ''/'' \<notin> set h \<Longrightarrow> from_slash (h @ CHR ''/'' # p) = CHR ''/'' # p"
  unfolding from_slash_def by (induction h) auto

text \<open>
  The httplib transport reaches the host, port and path the URL names, over TLS exactly for
  \<open>https\<close>, in one library call; only the verbs that carry a body send one; and every outcome
  of the library becomes a response with lower-case header names or a network error.
\<close>
theorem httplib_request_correct:
  assumes "CHR ''/'' \<notin> set h" "CHR '':'' \<notin> set h" "p < 2 ^ 31"
    "req_url r = (if tls then ''https://'' else ''http://'') @ h
       @ (if explicit then CHR '':'' # nat_str p else []) @ CHR ''/'' # rest"
    "send (dispatch r) w = (oc, w')"
  shows "lib_url (dispatch r) = \<lparr>is_https = tls, host = h,
      port = (if explicit then int p else if tls then 443 else 80), path = CHR ''/'' # rest\<rparr>
    \<and> (case lib_payload (dispatch r) of
         None \<Rightarrow> req_method r \<in> {''GET'', ''DELETE'', ''HEAD''}
       | Some (b, _) \<Rightarrow> b = req_body r \<and> req_method r \<notin> {''GET'', ''DELETE'', ''HEAD''})
    \<and> snd (httplib_request send r w) = w'
    \<and> (case fst (httplib_request send r w) of
         Inl e \<Rightarrow> code e = EC_Network
       | Inr resp \<Rightarrow> (\<exists>hs. oc = Lib_response (http_status resp) (body resp) hs
           \<and> (\<forall>k \<in> dom (headers resp). map to_lower k = k)))"
proof -
  let ?a = "h @ (if explicit then CHR '':'' # nat_str p else [])"
  have ns: "CHR ''/'' \<notin> set ?a"
    using assms(1) nat_str_digits [of "CHR ''/''" p] by (auto simp: is_digit_def)
  have sa: "split_authority ?a d = (h, if explicit then int p else d)" for d
    using assms(2,3) by (simp add: split_authority_port) (simp add: split_authority_def)
  have "parse_url (req_url r) = \<lparr>is_https = tls, host = h,
      port = (if explicit then int p else if tls then 443 else 80), path = CHR ''/'' # rest\<rparr>"
    using before_slash_path [OF ns, of rest] from_slash_path [OF ns, of rest] sa [of 443] sa [of 80]
    unfolding assms(4) by (auto simp: parse_url_def starts_with_def Let_def)
  then have "lib_url (dispatch r) = \<lparr>is_https = tls, host = h,
      port = (if explicit then int p else if tls then 443 else 80), path = CHR ''/'' # rest\<rparr>"
    by (simp add: dispatch_def Let_def)
  moreover have "case lib_payload (dispatch r) of
         None \<Rightarrow> req_method r \<in> {''GET'', ''DELETE'', ''HEAD''}
       | Some (b, _) \<Rightarrow> b = req_body r \<and> req_method r \<notin> {''GET'', ''DELETE'', ''HEAD''}"
    by (simp add: dispatch_def Let_def)
  moreover have "\<forall>k \<in> dom (lower_headers hs). map to_lower k = k" for hs
    by (simp only: Ball_def lower_headers_dom) auto
  then have "snd (httplib_request send r w) = w' \<and> (case fst (httplib_request send r w) of
         Inl e \<Rightarrow> code e = EC_Network
       | Inr resp \<Rightarrow> (\<exists>hs. oc = Lib_response (http_status resp) (body resp) hs
           \<and> (\<forall>k \<in> dom (headers resp). map to_lower k = k)))"
    using assms(5) by (cases oc) (simp_all add: httplib_request_def err_def)
  ultimately show ?thesis by (intro conjI) (erule conjE | assumption)+
qed

theorem httplib_request_correct_witness:
  "host (lib_url (dispatch \<lparr>req_method = ''GET'', req_url = ''http://localhost:8080/v1'',
      req_headers = Map.empty, req_body = []\<rparr>)) = ''localhost''"
proof -
  have n: "nat_str 8080 = ''8080''"
    by (simp add: nat_str.simps [of 8080] nat_str.simps [of 808] nat_str.simps [of 80] nat_str.simps [of 8] digit_chars)
  let ?r = "\<lparr>req_method = ''GET'', req_url = ''http://localhost:8080/v1'', req_headers = Map.empty, req_body = []\<rparr>"
  have "req_url ?r = (if False then ''https://'' else ''http://'') @ ''localhost''
      @ (if True then CHR '':'' # nat_str 8080 else []) @ CHR ''/'' # ''v1''"
    unfolding n by simp
  from httplib_request_correct [OF _ _ _ this, of "\<lambda>_ w. (Lib_error ''down'', w)" "()" "Lib_error ''down''" "()"]
  have "lib_url (dispatch ?r) = \<lparr>is_https = False, host = ''localhost'', port = 8080, path = ''/v1''\<rparr>"
    by simp
  then show ?thesis by simp
qed

section \<open>The published key set\<close>

definition strip_slashes :: "string \<Rightarrow> string" where
  "strip_slashes s = rev (dropWhile (\<lambda>c. c = CHR ''/'') (rev s))"

definition keyset_url :: "string \<Rightarrow> string \<Rightarrow> string" where
  "keyset_url baseUrl tenantId = strip_slashes baseUrl @ ''/'' @ tenantId @ ''/.well-known/keylight-keys''"

definition add_key :: "(string \<rightharpoonup> string) \<Rightarrow> jvalue \<Rightarrow> (string \<rightharpoonup> string)" where
  "add_key m entry =
     (let k = as_string (jget entry ''kid''); pubkey = as_string (jget entry ''public_key'') in
      if k = [] \<or> pubkey = [] then m else m(k \<mapsto> pubkey))"

definition keyset_of :: "jvalue \<Rightarrow> (string \<rightharpoonup> string)" where
  "keyset_of node = foldl (\<lambda>m i. add_key m (jat node i)) Map.empty [0..<jsize node]"

definition keyset_is_empty :: "jvalue \<Rightarrow> bool" where
  "keyset_is_empty node \<longleftrightarrow>
     list_all (\<lambda>i. as_string (jget (jat node i) ''kid'') = [] \<or> as_string (jget (jat node i) ''public_key'') = [])
       [0..<jsize node]"

definition fetchKeyset ::
    "'w transport \<Rightarrow> string \<Rightarrow> string \<Rightarrow> 'w \<Rightarrow> (string \<rightharpoonup> string) result \<times> 'w" where
  "fetchKeyset request baseUrl tenantId w =
     (case request \<lparr>req_method = ''GET'', req_url = keyset_url baseUrl tenantId,
                    req_headers = Map.empty, req_body = []\<rparr> w of
        (Inl e, w') \<Rightarrow> (Inl e, w')
      | (Inr resp, w') \<Rightarrow>
          (if http_status resp \<noteq> 200 then
             err EC_Http (''fetchKeyset HTTP '' @ int_str (http_status resp))
           else
             case json_parse (body resp) of
               Inl _ \<Rightarrow> err EC_BadResponse ''fetchKeyset: invalid JSON''
             | Inr j \<Rightarrow>
                 let node = jget j ''keys'' in
                 if \<not> is_array node then err EC_BadResponse ''fetchKeyset: missing 'keys' array''
                 else if keyset_is_empty node then
                   err EC_BadResponse ''fetchKeyset: no valid keys found''
                 else Inr (keyset_of node),
           w'))"

lemma keyset_is_empty_iff: "keyset_is_empty node \<longleftrightarrow> keyset_of node = Map.empty"
proof -
  let ?bad = "\<lambda>i. as_string (jget (jat node i) ''kid'') = [] \<or> as_string (jget (jat node i) ''public_key'') = []"
  have "foldl (\<lambda>m i. add_key m (jat node i)) m is = Map.empty \<longleftrightarrow> m = Map.empty \<and> list_all ?bad is" for m "is"
    by (induction "is" arbitrary: m) (auto simp: add_key_def Let_def)
  then show ?thesis by (simp add: keyset_is_empty_def keyset_of_def)
qed

lemma keyset_of_entries:
  assumes "keyset_of node k = Some pub"
  shows "k \<noteq> [] \<and> pub \<noteq> [] \<and> (\<exists>i < jsize node. as_string (jget (jat node i) ''kid'') = k
    \<and> as_string (jget (jat node i) ''public_key'') = pub)"
proof -
  define src where "src i \<longleftrightarrow> k \<noteq> [] \<and> pub \<noteq> [] \<and> as_string (jget (jat node i) ''kid'') = k
    \<and> as_string (jget (jat node i) ''public_key'') = pub" for i
  have step: "add_key m (jat node i) k = Some pub \<Longrightarrow> m k = Some pub \<or> src i" for m i
    by (auto simp: add_key_def src_def Let_def split: if_splits)
  have "foldl (\<lambda>m i. add_key m (jat node i)) m is k = Some pub \<Longrightarrow> m k = Some pub \<or> (\<exists>i \<in> set is. src i)"
    for m "is"
  proof (induction "is" arbitrary: m)
    case (Cons i "is")
    then show ?case using step [of m i] by auto
  qed simp
  from this [of Map.empty "[0..<jsize node]"] assms show ?thesis by (auto simp: keyset_of_def src_def)
qed

text \<open>
  A key set the fetcher returns is never empty, has no empty key id or key, and holds only pairs the
  server published under \<open>keys\<close> in a 200 answer to the single GET it made.
\<close>
theorem fetchKeyset_sound:
  assumes "fetchKeyset request baseUrl tenantId w = (Inr ks, w')"
  shows "ks \<noteq> Map.empty
    \<and> (\<exists>resp j. request \<lparr>req_method = ''GET'', req_url = keyset_url baseUrl tenantId,
          req_headers = Map.empty, req_body = []\<rparr> w = (Inr resp, w')
        \<and> http_status resp = 200 \<and> json_parse (body resp) = Inr j
        \<and> (\<forall>k pub. ks k = Some pub \<longrightarrow> k \<noteq> [] \<and> pub \<noteq> []
             \<and> (\<exists>i < jsize (jget j ''keys''). as_string (jget (jat (jget j ''keys'') i) ''kid'') = k
                  \<and> as_string (jget (jat (jget j ''keys'') i) ''public_key'') = pub)))"
  using assms keyset_of_entries
  by (auto simp: fetchKeyset_def keyset_is_empty_iff Let_def split: prod.splits sum.splits if_splits)

theorem fetchKeyset_sound_witness:
  "let reply = render (JObject [(''keys'', JArray [JObject [(''kid'', JString ''k1''),
          (''public_key'', JString ''AAAA'')]])]);
       request = (\<lambda>_ w. (Inr \<lparr>http_status = 200, body = reply, headers = Map.empty\<rparr>, w))
   in fst (fetchKeyset request ''https://api/'' ''acme'' ()) = Inr [''k1'' \<mapsto> ''AAAA'']
      \<and> [''k1'' \<mapsto> ''AAAA''] \<noteq> (Map.empty :: string \<rightharpoonup> string)"
proof -
  let ?v = "JObject [(''keys'', JArray [JObject [(''kid'', JString ''k1''), (''public_key'', JString ''AAAA'')]])]"
  define reply where "reply = render ?v"
  let ?request = "\<lambda>_ w. (Inr \<lparr>http_status = 200, body = reply, headers = Map.empty\<rparr>, w)"
  have "json_parse reply = Inr ?v" using parse_render [of ?v] by (simp add: reply_def)
  then have r: "fetchKeyset ?request ''https://api/'' ''acme'' () = (Inr [''k1'' \<mapsto> ''AAAA''], ())"
    by (simp add: fetchKeyset_def jget_def is_array_def keyset_is_empty_def keyset_of_def jsize_def jat_def
        add_key_def as_string_def)
  show ?thesis
    unfolding Let_def using conjunct1 [OF fetchKeyset_sound [OF r]] r by (simp add: reply_def)
qed

end
