(* ===== verification/Client_State.thy ===== *)
theory Client_State
  imports Policy Device Lease Transport "HOL-Library.State_Monad"
begin

text \<open>
  The state of \<open>Client\<close> (\<open>client.hpp\<close>, \<open>config.hpp\<close>, \<open>version.hpp\<close>) and the vocabulary its
  operations are written in. The collaborators the C++ class holds by reference (transport, store,
  clock, hardware id, sleep, random source, thread creation) are the fields of an environment over a
  world \<open>'w\<close>: an interaction maps a world to an answer and the next world, and the clock reads the
  present world, so time moves exactly when the client waits on something outside it. An operation
  is a computation of the library's state monad over the client record.

  The locks of the class are not part of the sequential model; what they buy (one thread at a time
  in each critical section) is what makes an operation a single computation here. The event channel
  and the background workers, whose interleavings matter, have step relations of their own.
\<close>

section \<open>Configuration\<close>

record Config =
  tenantId :: string
  productId :: string
  sdkKey :: string
  trustedKeys :: keyset
  maxOfflineDays :: int
  keyPrefix :: string
  trialDurationDays :: int
  freeTierEnabled :: bool
  apiBaseUrl :: string
  appVersion :: string
  autoValidationIntervalMs :: int
  requireSignedConfig :: bool
  keylessHeartbeatIntervalMs :: int

text \<open>The field initialisers of \<open>struct Config\<close>.\<close>

definition default_config :: Config where
  "default_config =
     \<lparr>tenantId = [], productId = [], sdkKey = [], trustedKeys = Map.empty, maxOfflineDays = 15,
      keyPrefix = [], trialDurationDays = 0, freeTierEnabled = False,
      apiBaseUrl = ''https://api.keylight.dev'', appVersion = [],
      autoValidationIntervalMs = 1800000, requireSignedConfig = False,
      keylessHeartbeatIntervalMs = 6 * 60 * 60 * 1000\<rparr>"

definition KEYLIGHT_SDK_VERSION :: string where "KEYLIGHT_SDK_VERSION = ''0.2.2''"
definition KEYLIGHT_SDK_ID :: string where "KEYLIGHT_SDK_ID = ''cpp''"

datatype TrialStatus = TS_NotStarted | TS_Active | TS_Expired

datatype KeylessState = KS_Trial | KS_FreeTier | KS_Expired

definition keyless_state_wire :: "KeylessState \<Rightarrow> string" where
  "keyless_state_wire s =
     (case s of KS_Trial \<Rightarrow> ''trial'' | KS_FreeTier \<Rightarrow> ''free_tier'' | KS_Expired \<Rightarrow> ''expired'')"

definition REFRESH_DEBOUNCE :: int where "REFRESH_DEBOUNCE = 300"
definition REFRESH_STALE :: int where "REFRESH_STALE = 21600"
definition NEAR_EXPIRY_SECS :: int where "NEAR_EXPIRY_SECS = 86400"

section \<open>The environment\<close>

record 'w env =
  e_now :: "'w \<Rightarrow> int"
  e_request :: "'w transport"
  e_load :: "'w \<Rightarrow> string result \<times> 'w"
  e_save :: "string \<Rightarrow> 'w \<Rightarrow> unit result \<times> 'w"
  e_clear :: "'w \<Rightarrow> unit result \<times> 'w"
  e_sleep :: "nat \<Rightarrow> 'w \<Rightarrow> 'w"
  e_hwid :: "'w \<Rightarrow> string option"
  e_rand_bytes :: "nat \<Rightarrow> 'w \<Rightarrow> byte list \<times> 'w"
  e_rand64 :: "'w \<Rightarrow> 64 word \<times> 'w"
  e_spawn :: "'w \<Rightarrow> bool"  \<comment> \<open>creating a thread succeeds\<close>
  e_sig :: sig_check
  e_machine_name :: string  \<comment> \<open>host name as read, before \<open>sanitize_instance_name\<close>\<close>
  e_platform :: string
  e_cores :: nat
  e_memory :: nat
  e_os_raw :: string
  e_arch :: string

section \<open>The client record\<close>

text \<open>The mutex-guarded cache: every field the client keeps on disk, and the lease.\<close>

record cache =
  cached_lease :: "Lease option"
  cached_expires_at :: "int option"
  cached_instance_id :: "string option"
  cached_license_key :: "string option"
  cached_last_validated_online :: int
  cached_trial_start :: "int option"
  cached_free_tier_instance_id :: "string option"
  cached_hardware_id :: "string option"
  cached_keyless_last_state :: "string option"
  cached_last_keyless_ping_at :: int
  cached_server_trial_days :: "int option"
  cached_server_free_tier :: "bool option"

definition empty_cache :: cache where
  "empty_cache =
     \<lparr>cached_lease = None, cached_expires_at = None, cached_instance_id = None,
      cached_license_key = None, cached_last_validated_online = 0, cached_trial_start = None,
      cached_free_tier_instance_id = None, cached_hardware_id = None,
      cached_keyless_last_state = None, cached_last_keyless_ping_at = 0,
      cached_server_trial_days = None, cached_server_free_tier = None\<rparr>"

text \<open>
  A listener is its id, and for \<open>on("renewed", ...)\<close> and its kin the one event it wants. What the
  listeners were told is kept in the order they were told it.
\<close>

datatype lifecycle_filter = Any_event | Only_event LifecycleEvent

datatype delivery =
    Told nat State                   \<comment> \<open>a state listener\<close>
  | Told_event nat LifecycleEvent    \<comment> \<open>an \<open>onLifecycle\<close> listener\<close>
  | Told_filtered nat State          \<comment> \<open>an \<open>on("...")\<close> listener, with \<open>state()\<close> at that moment\<close>

record 'w client =
  cfg :: Config
  raw_state :: State
  last_reported :: State
  last_validated_online_atomic :: int
  cache :: cache
  last_active_revalidate_at :: int
  last_seen_expiry :: "int option"
  listeners :: "nat list"
  lifecycle_listeners :: "(nat \<times> lifecycle_filter) list"
  next_listener_id :: nat
  pending :: "State list"
  delivering :: bool
  delivered :: "delivery list"
  kh_running :: bool
  kh_shutdown :: bool
  world :: 'w

type_synonym ('w, 'a) act = "('w client, 'a) state"

section \<open>Computations\<close>

definition read :: "('w client \<Rightarrow> 'a) \<Rightarrow> ('w, 'a) act" where
  "read f = do { c \<leftarrow> State_Monad.get; State_Monad.return (f c) }"

definition modify :: "('w client \<Rightarrow> 'w client) \<Rightarrow> ('w, unit) act" where
  "modify f = do { c \<leftarrow> State_Monad.get; State_Monad.set (f c) }"

definition interact :: "('w \<Rightarrow> 'a \<times> 'w) \<Rightarrow> ('w, 'a) act" where
  "interact f = do {
     c \<leftarrow> State_Monad.get;
     let (a, w) = f (world c);
     _ \<leftarrow> State_Monad.set (c\<lparr>world := w\<rparr>);
     State_Monad.return a }"

definition skip :: "('w, unit) act" where
  "skip = State_Monad.return ()"

definition do_if :: "bool \<Rightarrow> ('w, unit) act \<Rightarrow> ('w, unit) act" where
  "do_if b m = (if b then m else skip)"

definition set_cache :: "(cache \<Rightarrow> cache) \<Rightarrow> ('w, unit) act" where
  "set_cache f = modify (\<lambda>c. c\<lparr>cache := f (cache c)\<rparr>)"

definition now :: "'w env \<Rightarrow> ('w, int) act" where
  "now E = read (\<lambda>c. e_now E (world c))"

lemma run_read [simp]: "run_state (read f) c = (f c, c)"
  by (simp add: read_def)

lemma run_modify [simp]: "run_state (modify f) c = ((), f c)"
  by (simp add: modify_def)

lemma run_interact [simp]:
  "run_state (interact f) c = (fst (f (world c)), c\<lparr>world := snd (f (world c))\<rparr>)"
  by (simp add: interact_def split: prod.split)

lemma run_skip [simp]: "run_state skip c = ((), c)"
  by (simp add: skip_def)

lemma run_do_if [simp]: "run_state (do_if b m) c = (if b then run_state m c else ((), c))"
  by (simp add: do_if_def)

lemma run_set_cache [simp]: "run_state (set_cache f) c = ((), c\<lparr>cache := f (cache c)\<rparr>)"
  by (simp add: set_cache_def)

lemma run_now [simp]: "run_state (now E) c = (e_now E (world c), c)"
  by (simp add: now_def)

subsection \<open>Reasoning: postconditions\<close>

definition post :: "('w, 'a) act \<Rightarrow> ('a \<Rightarrow> 'w client \<Rightarrow> bool) \<Rightarrow> 'w client \<Rightarrow> bool" where
  "post m P c = (case run_state m c of (a, c') \<Rightarrow> P a c')"

lemma post_bind [simp]: "post (m \<bind> k) P c = post m (\<lambda>a. post (k a) P) c"
  by (simp add: post_def split: prod.split)

lemma post_atoms [simp]:
  "post (State_Monad.return a) P c = P a c"
  "post (read f) P1 c = P1 (f c) c"
  "post (modify u) P2 c = P2 () (u c)"
  "post (interact g) P3 c = P3 (fst (g (world c))) (c\<lparr>world := snd (g (world c))\<rparr>)"
  "post skip P2 c = P2 () c"
  "post (set_cache h) P2 c = P2 () (c\<lparr>cache := h (cache c)\<rparr>)"
  "post (now E) P4 c = P4 (e_now E (world c)) c"
  by (simp_all add: post_def)

lemma post_if [simp]: "post (if b then m else n) P c = (if b then post m P c else post n P c)"
  by simp

lemma post_do_if [simp]: "post (do_if b m) P c = (if b then post m P c else P () c)"
  by (simp add: do_if_def)

lemma post_mono: "post m P c \<Longrightarrow> (\<And>a c'. P a c' \<Longrightarrow> Q a c') \<Longrightarrow> post m Q c"
  by (auto simp: post_def)

lemma postD: "post m P c \<Longrightarrow> run_state m c = (a, c') \<Longrightarrow> P a c'"
  by (simp add: post_def)

lemma post_conj: "post m P c \<Longrightarrow> post m Q c \<Longrightarrow> post m (\<lambda>a c'. P a c' \<and> Q a c') c"
  by (auto simp: post_def)

lemma post_True: "post m (\<lambda>_ _. True) c"
  by (simp add: post_def split: prod.split)

subsection \<open>Reasoning: what never changes, or only grows\<close>

text \<open>
  A relation between the client before and after, reflexive and transitive, that the atomic steps
  of an operation keep is kept by the operation. The locale is the interface of that argument; each
  invariant of the client interprets it with its own relation.
\<close>

locale evolution =
  fixes R :: "'w client \<Rightarrow> 'w client \<Rightarrow> bool"
  assumes evolves_refl: "R c c"
    and evolves_trans: "R a b \<Longrightarrow> R b c \<Longrightarrow> R a c"
begin

definition keeps :: "('w, 'a) act \<Rightarrow> bool" where
  "keeps m \<longleftrightarrow> (\<forall>c. R c (snd (run_state m c)))"

lemma keepsD: "keeps m \<Longrightarrow> R c (snd (run_state m c))"
  by (simp add: keeps_def)

lemma keeps_run: "keeps m \<Longrightarrow> run_state m c = (a, c') \<Longrightarrow> R c c'"
  by (metis keeps_def snd_conv)

lemma keeps_bind: "keeps m \<Longrightarrow> (\<And>a. keeps (k a)) \<Longrightarrow> keeps (m \<bind> k)"
  unfolding keeps_def by (auto split: prod.split intro: evolves_trans [of _ "snd (run_state m _)"])

lemma keeps_return: "keeps (State_Monad.return a)"
  by (simp add: keeps_def evolves_refl)

lemma keeps_read: "keeps (read f)"
  by (simp add: keeps_def evolves_refl)

lemma keeps_skip: "keeps skip"
  by (simp add: keeps_def evolves_refl)

lemma keeps_now: "keeps (now E)"
  by (simp add: keeps_def evolves_refl)

lemma keeps_do_if: "keeps m \<Longrightarrow> keeps (do_if b m)"
  by (simp add: do_if_def keeps_skip)

lemma keeps_if: "(b \<Longrightarrow> keeps m) \<Longrightarrow> (\<not> b \<Longrightarrow> keeps n) \<Longrightarrow> keeps (if b then m else n)"
  by simp

lemma keeps_option:
  "(x = None \<Longrightarrow> keeps m) \<Longrightarrow> (\<And>y. x = Some y \<Longrightarrow> keeps (k y)) \<Longrightarrow> keeps (case x of None \<Rightarrow> m | Some y \<Rightarrow> k y)"
  by (cases x) auto

lemma keeps_sum:
  "(\<And>e. r = Inl e \<Longrightarrow> keeps (m e)) \<Longrightarrow> (\<And>x. r = Inr x \<Longrightarrow> keeps (k x)) \<Longrightarrow>
     keeps (case r of Inl e \<Rightarrow> m e | Inr x \<Rightarrow> k x)"
  by (cases r) auto

lemma keeps_bind_now: "(\<And>w. keeps (k (e_now E w))) \<Longrightarrow> keeps (now E \<bind> k)"
  by (simp add: keeps_def)

lemma keeps_bind_read: "(\<And>c. keeps (k (f c))) \<Longrightarrow> keeps (read f \<bind> k)"
  by (simp add: keeps_def)

lemma keeps_Let: "keeps (k v) \<Longrightarrow> keeps (Let v k)"
  by simp

lemma keeps_modify: "(\<And>c. R c (f c)) \<Longrightarrow> keeps (modify f)"
  by (simp add: keeps_def)

lemma keeps_set_cache: "(\<And>c. R c (c\<lparr>cache := f (cache c)\<rparr>)) \<Longrightarrow> keeps (set_cache f)"
  by (simp add: keeps_def)

lemma keeps_interact: "(\<And>c w. R c (c\<lparr>world := w\<rparr>)) \<Longrightarrow> keeps (interact f)"
  by (simp add: keeps_def)

lemmas keeps_intros =
  keeps_bind keeps_return keeps_read keeps_skip keeps_now keeps_do_if keeps_if keeps_option keeps_sum

end

section \<open>The clock guard\<close>

definition clock_untrusted :: "'w env \<Rightarrow> 'w client \<Rightarrow> bool" where
  "clock_untrusted E c \<longleftrightarrow>
     last_validated_online_atomic c \<noteq> 0 \<and> clock_rolled_back (last_validated_online_atomic c) (e_now E (world c))"

text \<open>\<open>Client::state()\<close>.\<close>

definition client_state :: "'w env \<Rightarrow> 'w client \<Rightarrow> State" where
  "client_state E c = (if clock_untrusted E c then Invalid else raw_state c)"

definition report_state :: "'w env \<Rightarrow> State \<Rightarrow> ('w, State result) act" where
  "report_state E s = read (\<lambda>c. if clock_untrusted E c then Inr Invalid else Inr s)"

definition report_result :: "'w env \<Rightarrow> State result \<Rightarrow> ('w, State result) act" where
  "report_result E r =
     read (\<lambda>c. if is_ok r \<and> clock_untrusted E c then Inr Invalid else r)"

section \<open>Request building\<close>

definition api_url :: "Config \<Rightarrow> string \<Rightarrow> string" where
  "api_url g action =
     strip_slashes (apiBaseUrl g) @ ''/'' @ tenantId g @ ''/'' @ productId g @ ''/'' @ action"

fun nibbles :: "nat \<Rightarrow> 64 word \<Rightarrow> string" where
  "nibbles 0 w = []"
| "nibbles (Suc n) w = hex_char (unat (and w 0xF)) # nibbles n (drop_bit 4 w)"

definition random_request_id :: "'w env \<Rightarrow> ('w, string) act" where
  "random_request_id E = do {
     a \<leftarrow> interact (e_rand64 E);
     b \<leftarrow> interact (e_rand64 E);
     c \<leftarrow> interact (e_rand64 E);
     d \<leftarrow> interact (e_rand64 E);
     State_Monad.return (nibbles 8 a @ nibbles 8 b @ nibbles 8 c @ nibbles 8 d) }"

definition json_headers :: "'w env \<Rightarrow> ('w, string \<rightharpoonup> string) act" where
  "json_headers E = do {
     key \<leftarrow> read (\<lambda>c. sdkKey (cfg c));
     rid \<leftarrow> random_request_id E;
     State_Monad.return
       ((if key \<noteq> [] then [''Content-Type'' \<mapsto> ''application/json'', ''X-Keylight-SDK-Key'' \<mapsto> key]
         else [''Content-Type'' \<mapsto> ''application/json'']) (''X-Keylight-Request-Id'' \<mapsto> rid)) }"

definition http_error_message :: "string \<Rightarrow> string \<Rightarrow> int \<Rightarrow> string" where
  "http_error_message b action st =
     (let fallback = action @ '' HTTP '' @ int_str st in
      if b = [] then fallback
      else case json_parse b of
             Inl _ \<Rightarrow> fallback
           | Inr j \<Rightarrow>
               let msg = as_string (jget j ''error'');
                   msg' = (if msg = [] then as_string (jget j ''message'') else msg)
               in if msg' = [] then fallback else msg')"

text \<open>An object from keys and already encoded values, with the telemetry fields appended.\<close>

definition telemetry_fields :: "'w env \<Rightarrow> Config \<Rightarrow> (string \<times> string) list" where
  "telemetry_fields E g =
     (let cores = cpu_cores_bucket (e_cores E); mem = memory_bucket (e_memory E);
          osv = dotted_numeric (e_os_raw E); arch = e_arch E
      in [(''sdk_version'', json_str KEYLIGHT_SDK_VERSION),
          (''platform'', json_str (e_platform E)),
          (''sdk'', json_str KEYLIGHT_SDK_ID),
          (''sdk_trial_duration_days'', int_str (trialDurationDays g))]
         @ (if appVersion g \<noteq> [] then [(''app_version'', json_str (appVersion g))] else [])
         @ (if cores \<noteq> [] then [(''cpu_cores'', json_str cores)] else [])
         @ (if mem \<noteq> [] then [(''memory'', json_str mem)] else [])
         @ (if osv \<noteq> [] then [(''os_version'', json_str osv)] else [])
         @ (if arch \<noteq> [] then [(''arch'', json_str arch)] else []))"

definition build_json :: "'w env \<Rightarrow> Config \<Rightarrow> (string \<times> string) list \<Rightarrow> bool \<Rightarrow> string" where
  "build_json E g flds include_telemetry =
     (let fs = (if include_telemetry then flds @ telemetry_fields E g else flds) in
      ''{'' @ comma_join (map (\<lambda>(k, v). json_str k @ '':'' @ v) fs) @ ''}'')"

definition detect_machine_name :: "'w env \<Rightarrow> string" where
  "detect_machine_name E = sanitize_instance_name (e_machine_name E)"

section \<open>Keys and links\<close>

definition to_upper :: "char \<Rightarrow> char" where
  "to_upper c =
     (let n = (of_char c :: nat) in if 97 \<le> n \<and> n \<le> 122 then char_of (n - 32) else c)"

definition normalizeKey :: "string \<Rightarrow> string" where
  "normalizeKey key = map to_upper (filter (\<lambda>c. \<not> (c = CHR ''-'' \<or> is_c_space c)) key)"

definition hasStoredLicense :: "'w client \<Rightarrow> bool" where
  "hasStoredLicense c \<longleftrightarrow>
     (case cached_license_key (cache c) of None \<Rightarrow> False | Some k \<Rightarrow> k \<noteq> [])"

definition cachedLicenseKey :: "'w client \<Rightarrow> string option" where
  "cachedLicenseKey c =
     (case cached_license_key (cache c) of Some [] \<Rightarrow> None | k \<Rightarrow> k)"

definition upgradeUrl :: "'w client \<Rightarrow> string option" where
  "upgradeUrl c =
     map_option (\<lambda>key. ''https://portal.keylight.dev/t/'' @ tenantId (cfg c) @ ''/license/''
         @ normalizeKey key @ ''/upgrade'') (cachedLicenseKey c)"

definition isValidKeyFormat :: "'w client \<Rightarrow> string \<Rightarrow> bool" where
  "isValidKeyFormat c key =
     (let normalized = normalizeKey key in
      if normalized = [] then False
      else if keyPrefix (cfg c) = [] then True
      else let prefix = normalizeKey (keyPrefix (cfg c)) in
           length prefix \<le> length normalized \<and> take (length prefix) normalized = prefix)"

definition cachedLicenseExpiresAt :: "'w client \<Rightarrow> int option" where
  "cachedLicenseExpiresAt c = cached_expires_at (cache c)"

definition cachedLease :: "'w client \<Rightarrow> Lease option" where
  "cachedLease c = cached_lease (cache c)"

definition load_license_key :: "'w client \<Rightarrow> string" where
  "load_license_key c = (case cached_license_key (cache c) of Some k \<Rightarrow> k | None \<Rightarrow> [])"

definition load_instance_id :: "'w client \<Rightarrow> string" where
  "load_instance_id c = (case cached_instance_id (cache c) of Some k \<Rightarrow> k | None \<Rightarrow> [])"

section \<open>Entitlements\<close>

text \<open>The verifier as the client builds it: the configured keys and the default 300-second skew.\<close>

definition verify_lease :: "'w env \<Rightarrow> 'w client \<Rightarrow> Lease \<Rightarrow> VerifyResult" where
  "verify_lease E c l = verify (e_sig E) (trustedKeys (cfg c)) 300 l (e_now E (world c))"

definition hasEntitlement :: "'w env \<Rightarrow> 'w client \<Rightarrow> string \<Rightarrow> bool" where
  "hasEntitlement E c feature =
     (if clock_untrusted E c then False
      else case cached_lease (cache c) of
             None \<Rightarrow> False
           | Some l \<Rightarrow>
               let vr = verify_lease E c l in
               if \<not> is_trusted vr \<or> expired vr \<or> status l = ''expired'' then False
               else feature \<in> set (entitlements l))"

end
