(* ===== verification/Client_Events.thy ===== *)
theory Client_Events
  imports Client_State
begin

text \<open>
  The event channel of \<open>Client\<close> and the only writer of its state: \<open>notify_\<close>, \<open>set_state_\<close>, the
  lifecycle events, the subscriptions and the heartbeat's start and stop. A listener is passive here
  (it records what it is told); what happens when several threads notify at once is the subject of
  the theory \<open>Notify\<close>.
\<close>

section \<open>Delivery\<close>

text \<open>The drain loop: take the first pending event, tell every listener of that moment.\<close>

fun deliver_all :: "State list \<Rightarrow> 'w client \<Rightarrow> 'w client" where
  "deliver_all [] c = c\<lparr>delivering := False\<rparr>"
| "deliver_all (ev # evs) c =
     deliver_all evs (c\<lparr>pending := evs,
                       delivered := delivered c @ map (\<lambda>i. Told i ev) (listeners c)\<rparr>)"

definition notify :: "'w env \<Rightarrow> ('w, unit) act" where
  "notify E = do {
     reported \<leftarrow> read (client_state E);
     lst \<leftarrow> read last_reported;
     if lst = reported then skip
     else do {
       _ \<leftarrow> modify (\<lambda>c. c\<lparr>pending := pending c @ [reported], last_reported := reported\<rparr>);
       busy \<leftarrow> read delivering;
       if busy then skip
       else do {
         _ \<leftarrow> modify (\<lambda>c. c\<lparr>delivering := True\<rparr>);
         modify (\<lambda>c. deliver_all (pending c) c) } } }"

fun tell_event :: "'w env \<Rightarrow> 'w client \<Rightarrow> LifecycleEvent \<Rightarrow> nat \<times> lifecycle_filter \<Rightarrow> delivery list" where
  "tell_event E c ev (i, Any_event) = [Told_event i ev]"
| "tell_event E c ev (i, Only_event e) = (if ev = e then [Told_filtered i (client_state E c)] else [])"

definition notify_lifecycle :: "'w env \<Rightarrow> LifecycleEvent \<Rightarrow> ('w, unit) act" where
  "notify_lifecycle E ev =
     modify (\<lambda>c. c\<lparr>delivered := delivered c @ concat (map (tell_event E c ev) (lifecycle_listeners c))\<rparr>)"

section \<open>The heartbeat's lifetime\<close>

definition beacon_state_for :: "State \<Rightarrow> KeylessState option" where
  "beacon_state_for s =
     (case s of
        Trial \<Rightarrow> Some KS_Trial
      | FreeTier \<Rightarrow> Some KS_FreeTier
      | Expired \<Rightarrow> Some KS_Expired
      | Invalid \<Rightarrow> None
      | Licensed \<Rightarrow> None
      | Limited \<Rightarrow> None)"

definition start_heartbeat :: "'w env \<Rightarrow> ('w, unit) act" where
  "start_heartbeat E = do {
     interval \<leftarrow> read (\<lambda>c. keylessHeartbeatIntervalMs (cfg c));
     if interval \<le> 0 then skip
     else do {
       down \<leftarrow> read kh_shutdown;
       running \<leftarrow> read kh_running;
       spawned \<leftarrow> read (\<lambda>c. e_spawn E (world c));
       if down then skip
       else if running then skip
       else do_if spawned (modify (\<lambda>c. c\<lparr>kh_running := True\<rparr>)) } }"

definition stop_heartbeat :: "('w, unit) act" where
  "stop_heartbeat = modify (\<lambda>c. c\<lparr>kh_shutdown := True, kh_running := False\<rparr>)"

section \<open>Setting the state\<close>

definition set_client_state :: "'w env \<Rightarrow> State \<Rightarrow> ('w, unit) act" where
  "set_client_state E new_state = do {
     prv \<leftarrow> read raw_state;
     expiry \<leftarrow> read (\<lambda>c. cached_expires_at (cache c));
     seen \<leftarrow> read last_seen_expiry;
     let moved_later = (case expiry of None \<Rightarrow> False
                        | Some e \<Rightarrow> (case seen of None \<Rightarrow> True | Some s \<Rightarrow> s < e));
     _ \<leftarrow> modify (\<lambda>c. c\<lparr>last_seen_expiry := expiry\<rparr>);
     _ \<leftarrow> modify (\<lambda>c. c\<lparr>raw_state := new_state\<rparr>);
     _ \<leftarrow> notify E;
     _ \<leftarrow> (case lifecycle_event prv new_state moved_later of
             None \<Rightarrow> skip | Some ev \<Rightarrow> notify_lifecycle E ev);
     start_heartbeat E }"

section \<open>Subscriptions\<close>

text \<open>A subscription is the id it removes; \<open>None\<close> is the default-constructed or moved-from handle.\<close>

definition subscribe :: "('w, nat option) act" where
  "subscribe = do {
     _ \<leftarrow> modify (\<lambda>c. c\<lparr>next_listener_id := Suc (next_listener_id c)\<rparr>);
     i \<leftarrow> read next_listener_id;
     _ \<leftarrow> modify (\<lambda>c. c\<lparr>listeners := listeners c @ [i]\<rparr>);
     State_Monad.return (Some i) }"

definition onLifecycle :: "lifecycle_filter \<Rightarrow> ('w, nat option) act" where
  "onLifecycle f = do {
     _ \<leftarrow> modify (\<lambda>c. c\<lparr>next_listener_id := Suc (next_listener_id c)\<rparr>);
     i \<leftarrow> read next_listener_id;
     _ \<leftarrow> modify (\<lambda>c. c\<lparr>lifecycle_listeners := lifecycle_listeners c @ [(i, f)]\<rparr>);
     State_Monad.return (Some i) }"

definition event_named :: "string \<Rightarrow> LifecycleEvent option" where
  "event_named event =
     (if event = ''renewed'' then Some Ev_Renewed
      else if event = ''cancelled'' then Some Ev_Cancelled
      else if event = ''expired'' then Some Ev_Expired
      else if event = ''restored'' then Some Ev_Restored
      else None)"

definition on :: "string \<Rightarrow> ('w, nat option) act" where
  "on event =
     (case event_named event of None \<Rightarrow> subscribe | Some ev \<Rightarrow> onLifecycle (Only_event ev))"

definition remove_listener :: "nat \<Rightarrow> ('w, unit) act" where
  "remove_listener i =
     modify (\<lambda>c. c\<lparr>listeners := filter (\<lambda>l. l \<noteq> i) (listeners c),
                  lifecycle_listeners := filter (\<lambda>l. fst l \<noteq> i) (lifecycle_listeners c)\<rparr>)"

definition unsubscribe :: "nat option \<Rightarrow> ('w, nat option) act" where
  "unsubscribe sub =
     (case sub of
        None \<Rightarrow> State_Monad.return None
      | Some i \<Rightarrow> do { _ \<leftarrow> remove_listener i; State_Monad.return None })"

section \<open>What an event step does\<close>

lemma deliver_all_eq:
  "deliver_all evs c =
     c\<lparr>pending := (if evs = [] then pending c else []), delivering := False,
       delivered := delivered c @ concat (map (\<lambda>ev. map (\<lambda>i. Told i ev) (listeners c)) evs)\<rparr>"
  by (induction evs arbitrary: c) auto

lemma drain_eq:
  "deliver_all (pending c) c =
     c\<lparr>pending := [], delivering := False,
       delivered := delivered c @ concat (map (\<lambda>ev. map (\<lambda>i. Told i ev) (listeners c)) (pending c))\<rparr>"
  by (simp add: deliver_all_eq)

text \<open>A channel at rest: nobody delivers and nothing waits.\<close>

definition quiet :: "'w client \<Rightarrow> bool" where
  "quiet c \<longleftrightarrow> pending c = [] \<and> \<not> delivering c"

lemma run_notify:
  assumes "quiet c"
  shows "run_state (notify E) c = ((),
    c\<lparr>last_reported := client_state E c,
      delivered := delivered c @ (if last_reported c = client_state E c then []
                                  else map (\<lambda>i. Told i (client_state E c)) (listeners c))\<rparr>)"
  using assms by (simp add: notify_def quiet_def drain_eq)

text \<open>What the event channel may touch: everything else is the licensing state.\<close>

definition same_licensing :: "'w client \<Rightarrow> 'w client \<Rightarrow> bool" where
  "same_licensing c c' \<longleftrightarrow>
     cfg c' = cfg c \<and> raw_state c' = raw_state c \<and> cache c' = cache c \<and> world c' = world c
     \<and> last_validated_online_atomic c' = last_validated_online_atomic c
     \<and> last_active_revalidate_at c' = last_active_revalidate_at c"

lemma same_licensing_refl [simp]: "same_licensing c c"
  by (simp add: same_licensing_def)

lemma client_state_same: "same_licensing c c' \<Longrightarrow> client_state E c' = client_state E c"
  by (simp add: client_state_def clock_untrusted_def same_licensing_def)

interpretation same: evolution same_licensing
  by unfold_locales (simp_all add: same_licensing_def)

lemma same_deliver_all: "same_licensing c (deliver_all evs c)"
  by (simp add: deliver_all_eq same_licensing_def)

lemma same_notify: "same.keeps (notify E)"
  unfolding notify_def
  by (intro same.keeps_intros same.keeps_modify) (simp_all add: same_licensing_def deliver_all_eq)

lemma same_notify_lifecycle: "same.keeps (notify_lifecycle E ev)"
  unfolding notify_lifecycle_def by (intro same.keeps_modify) (simp add: same_licensing_def)

lemma same_start_heartbeat: "same.keeps (start_heartbeat E)"
  unfolding start_heartbeat_def
  by (intro same.keeps_intros same.keeps_modify) (simp add: same_licensing_def)

text \<open>\<open>set_client_state\<close> changes the raw state to the given one and nothing else of the licensing state.\<close>

lemma set_client_state_same:
  "same_licensing (c\<lparr>raw_state := s\<rparr>) (snd (run_state (set_client_state E s) c))"
proof -
  obtain m where m: "same.keeps (m :: ('a, unit) act)" and
      run: "run_state (set_client_state E s) c =
        run_state m (c\<lparr>last_seen_expiry := cached_expires_at (cache c), raw_state := s\<rparr>)"
  proof
    let ?later = "case cached_expires_at (cache c) of None \<Rightarrow> False
        | Some e \<Rightarrow> (case last_seen_expiry c of None \<Rightarrow> True | Some s \<Rightarrow> s < e)"
    let ?m = "do { _ \<leftarrow> notify E;
        _ \<leftarrow> (case lifecycle_event (raw_state c) s ?later of None \<Rightarrow> skip | Some ev \<Rightarrow> notify_lifecycle E ev);
        start_heartbeat E }"
    show "same.keeps ?m"
      by (intro same.keeps_intros same_notify same_notify_lifecycle same_start_heartbeat)
    show "run_state (set_client_state E s) c =
        run_state ?m (c\<lparr>last_seen_expiry := cached_expires_at (cache c), raw_state := s\<rparr>)"
      by (simp add: set_client_state_def Let_def)
  qed
  have "same_licensing (c\<lparr>raw_state := s\<rparr>) (c\<lparr>last_seen_expiry := cached_expires_at (cache c), raw_state := s\<rparr>)"
    by (simp add: same_licensing_def)
  then show ?thesis
    unfolding run using same.evolves_trans same.keepsD [OF m] by blast
qed

lemma set_client_state_result [simp]: "fst (run_state (set_client_state E s) c) = ()"
  by simp

lemma set_client_state_frame:
  assumes "run_state (set_client_state E s) c = (u, c')"
  shows "raw_state c' = s" "cache c' = cache c" "cfg c' = cfg c" "world c' = world c"
    "last_validated_online_atomic c' = last_validated_online_atomic c"
    "last_active_revalidate_at c' = last_active_revalidate_at c"
  using set_client_state_same [of s c E] assms by (simp_all add: same_licensing_def)

lemma snd_set_client_state [simp]:
  "raw_state (snd (run_state (set_client_state E s) c)) = s"
  "cache (snd (run_state (set_client_state E s) c)) = cache c"
  "cfg (snd (run_state (set_client_state E s) c)) = cfg c"
  "world (snd (run_state (set_client_state E s) c)) = world c"
  using set_client_state_frame [of E s c "()" "snd (run_state (set_client_state E s) c)"]
  by (simp_all add: prod_eq_iff)

lemma notify_frame:
  assumes "run_state (notify E) c = (u, c')"
  shows "same_licensing c c'"
  using same.keepsD [OF same_notify, of c E] assms by simp

text \<open>The licensing state after a step that only concerns the channel, field by field.\<close>

lemma same_fields:
  assumes "same.keeps m"
  shows "cfg (snd (run_state m c)) = cfg c" "raw_state (snd (run_state m c)) = raw_state c"
    "cache (snd (run_state m c)) = cache c" "world (snd (run_state m c)) = world c"
    "last_validated_online_atomic (snd (run_state m c)) = last_validated_online_atomic c"
    "last_active_revalidate_at (snd (run_state m c)) = last_active_revalidate_at c"
  using same.keepsD [OF assms, of c] by (simp_all add: same_licensing_def)

lemma same_listener_ops:
  "same.keeps subscribe" "same.keeps (onLifecycle f)" "same.keeps (on event)" "same.keeps (unsubscribe sub)"
  "same.keeps stop_heartbeat"
  unfolding subscribe_def onLifecycle_def on_def unsubscribe_def remove_listener_def stop_heartbeat_def
  by (intro same.keeps_intros same.keeps_modify; simp add: same_licensing_def)+

lemmas snd_channel [simp] =
  same_fields [OF same_notify] same_fields [OF same_notify_lifecycle] same_fields [OF same_start_heartbeat]
  same_fields [OF same_listener_ops(1)] same_fields [OF same_listener_ops(2)]
  same_fields [OF same_listener_ops(3)] same_fields [OF same_listener_ops(4)]
  same_fields [OF same_listener_ops(5)]

lemma snd_set_client_state_more [simp]:
  "last_validated_online_atomic (snd (run_state (set_client_state E s) c)) = last_validated_online_atomic c"
  "last_active_revalidate_at (snd (run_state (set_client_state E s) c)) = last_active_revalidate_at c"
  using set_client_state_same [of s c E] by (simp_all add: same_licensing_def)

end
