(* ===== verification/Client_Store.thy ===== *)
theory Client_Store
  imports Client_Events
begin

text \<open>
  What \<open>Client\<close> keeps on disk and how it resolves a state from it: the blob (\<open>build_blob_locked_\<close> and
  the decoder inside \<open>refresh_state_from_store_\<close>), the persist helpers, the local trial, and the
  constructor. The main lemma is that the blob decodes to the cache it was written from, up to the
  values the format cannot tell from absent ones.
\<close>

section \<open>The blob\<close>

definition opt_text :: "string \<Rightarrow> ('a \<Rightarrow> string) \<Rightarrow> 'a option \<Rightarrow> string list" where
  "opt_text key f v = (case v of None \<Rightarrow> [] | Some x \<Rightarrow> [CHR 0x22 # key @ CHR 0x22 # CHR '':'' # f x])"

definition nonzero :: "int \<Rightarrow> int option" where
  "nonzero v = (if v \<noteq> 0 then Some v else None)"

definition nonempty :: "string \<Rightarrow> string option" where
  "nonempty s = (if s \<noteq> [] then Some s else None)"

definition bool_text :: "bool \<Rightarrow> string" where
  "bool_text b = (if b then ''true'' else ''false'')"

definition build_blob :: "cache \<Rightarrow> string" where
  "build_blob k =
     ''{'' @ comma_join (
       opt_text ''lease'' lease_to_json (cached_lease k)
       @ opt_text ''expiresAt'' int_str (cached_expires_at k)
       @ opt_text ''instanceId'' json_str (cached_instance_id k)
       @ opt_text ''licenseKey'' json_str (cached_license_key k)
       @ opt_text ''lastValidatedOnline'' int_str (nonzero (cached_last_validated_online k))
       @ opt_text ''trialStart'' int_str (cached_trial_start k)
       @ opt_text ''freeTierInstanceId'' json_str (cached_free_tier_instance_id k)
       @ opt_text ''cachedHardwareId'' json_str (cached_hardware_id k)
       @ opt_text ''keylessLastState'' json_str (cached_keyless_last_state k)
       @ opt_text ''lastKeylessPingAt'' int_str (nonzero (cached_last_keyless_ping_at k))
       @ opt_text ''serverTrialDurationDays'' int_str (cached_server_trial_days k)
       @ opt_text ''serverFreeTierEnabled'' bool_text (cached_server_free_tier k))
     @ ''}''"

definition json_has :: "jvalue \<Rightarrow> string \<Rightarrow> bool" where
  "json_has j key \<longleftrightarrow> key \<in> set (jkeys j)"

text \<open>A lease field is present when the node has members; it counts only when it decodes.\<close>

definition lease_in :: "jvalue \<Rightarrow> string \<Rightarrow> Lease option" where
  "lease_in j key =
     (let node = jget j key in
      if 0 < jsize node then (case lease_from_json node of Inl _ \<Rightarrow> None | Inr l \<Rightarrow> Some l) else None)"

definition decode_blob :: "jvalue \<Rightarrow> cache" where
  "decode_blob j =
     \<lparr>cached_lease = lease_in j ''lease'',
      cached_expires_at = nonzero (as_int (jget j ''expiresAt'')),
      cached_instance_id = nonempty (as_string (jget j ''instanceId'')),
      cached_license_key = nonempty (as_string (jget j ''licenseKey'')),
      cached_last_validated_online = as_int (jget j ''lastValidatedOnline''),
      cached_trial_start = nonzero (as_int (jget j ''trialStart'')),
      cached_free_tier_instance_id = nonempty (as_string (jget j ''freeTierInstanceId'')),
      cached_hardware_id = nonempty (as_string (jget j ''cachedHardwareId'')),
      cached_keyless_last_state = nonempty (as_string (jget j ''keylessLastState'')),
      cached_last_keyless_ping_at = as_int (jget j ''lastKeylessPingAt''),
      cached_server_trial_days =
        (if json_has j ''serverTrialDurationDays''
         then Some (i32 (as_int (jget j ''serverTrialDurationDays''))) else None),
      cached_server_free_tier =
        (if json_has j ''serverFreeTierEnabled''
         then Some (as_bool (jget j ''serverFreeTierEnabled'')) else None)\<rparr>"

section \<open>Writing to the store\<close>

definition save_cache :: "'w env \<Rightarrow> ('w, unit result) act" where
  "save_cache E = do {
     blob \<leftarrow> read (\<lambda>c. build_blob (cache c));
     interact (e_save E blob) }"

record PersistData =
  lease_json :: "string option"
  pd_expires_at :: "int option"
  pd_instance_id :: "string option"
  pd_license_key :: "string option"

definition reparse_lease :: "string \<Rightarrow> Lease option" where
  "reparse_lease s =
     (case json_parse s of
        Inl _ \<Rightarrow> None
      | Inr j \<Rightarrow> (case lease_from_json j of Inl _ \<Rightarrow> None | Inr l \<Rightarrow> Some l))"

definition supplied :: "'a option \<Rightarrow> 'a option \<Rightarrow> 'a option" where
  "supplied new old = (case new of None \<Rightarrow> old | Some _ \<Rightarrow> new)"

definition merge_persist :: "PersistData \<Rightarrow> cache \<Rightarrow> cache" where
  "merge_persist d k =
     k\<lparr>cached_lease := (case lease_json d of None \<Rightarrow> cached_lease k
                        | Some s \<Rightarrow> supplied (reparse_lease s) (cached_lease k)),
       cached_expires_at := supplied (pd_expires_at d) (cached_expires_at k),
       cached_instance_id := supplied (pd_instance_id d) (cached_instance_id k),
       cached_license_key := supplied (pd_license_key d) (cached_license_key k)\<rparr>"

definition persist :: "'w env \<Rightarrow> PersistData \<Rightarrow> ('w, unit) act" where
  "persist E d = do {
     _ \<leftarrow> set_cache (merge_persist d);
     _ \<leftarrow> save_cache E;
     skip }"

definition save_last_validated_online :: "'w env \<Rightarrow> int \<Rightarrow> ('w, unit) act" where
  "save_last_validated_online E t = do {
     _ \<leftarrow> set_cache (\<lambda>k. k\<lparr>cached_last_validated_online := t\<rparr>);
     _ \<leftarrow> modify (\<lambda>c. c\<lparr>last_validated_online_atomic := t\<rparr>);
     _ \<leftarrow> save_cache E;
     skip }"

definition clear_lease :: "'w env \<Rightarrow> ('w, unit) act" where
  "clear_lease E = do {
     _ \<leftarrow> set_cache (\<lambda>k. k\<lparr>cached_lease := None\<rparr>);
     _ \<leftarrow> save_cache E;
     skip }"

section \<open>The local trial\<close>

definition effectiveTrialDurationDays :: "'w client \<Rightarrow> int" where
  "effectiveTrialDurationDays c =
     (case cached_server_trial_days (cache c) of Some d \<Rightarrow> d | None \<Rightarrow> trialDurationDays (cfg c))"

definition effectiveFreeTierEnabled :: "'w client \<Rightarrow> bool" where
  "effectiveFreeTierEnabled c =
     (case cached_server_free_tier (cache c) of Some b \<Rightarrow> b | None \<Rightarrow> freeTierEnabled (cfg c))"

definition days_left_from :: "'w env \<Rightarrow> 'w client \<Rightarrow> int \<Rightarrow> int \<Rightarrow> int" where
  "days_left_from E c start duration_days =
     (let elapsed = i64 (e_now E (world c) - start);
          elapsed_secs = (if elapsed < 0 then 0 else elapsed)
      in duration_days - elapsed_secs div 86400)"

definition checkTrial :: "'w env \<Rightarrow> 'w client \<Rightarrow> TrialStatus" where
  "checkTrial E c =
     (let duration = effectiveTrialDurationDays c in
      if duration \<le> 0 then TS_NotStarted
      else case cached_trial_start (cache c) of
             None \<Rightarrow> TS_NotStarted
           | Some start \<Rightarrow> if 0 < days_left_from E c start duration then TS_Active else TS_Expired)"

definition trialDaysLeft :: "'w env \<Rightarrow> 'w client \<Rightarrow> int" where
  "trialDaysLeft E c =
     (let duration = effectiveTrialDurationDays c in
      if duration \<le> 0 then 0
      else case cached_trial_start (cache c) of
             None \<Rightarrow> 0
           | Some start \<Rightarrow>
               let left = days_left_from E c start duration in if 0 < left then i32 left else 0)"

section \<open>Resolving a state\<close>

definition resolve_with_trial :: "'w env \<Rightarrow> 'w client \<Rightarrow> State \<Rightarrow> State" where
  "resolve_with_trial E c paid_state =
     (if paid_state \<noteq> Invalid then paid_state
      else case checkTrial E c of
             TS_Active \<Rightarrow> Trial
           | TS_Expired \<Rightarrow> if effectiveFreeTierEnabled c then FreeTier else Expired
           | TS_NotStarted \<Rightarrow> if effectiveFreeTierEnabled c then FreeTier else Invalid)"

definition resolve_current_state :: "'w env \<Rightarrow> 'w client \<Rightarrow> State" where
  "resolve_current_state E c =
     (if cached_lease (cache c) \<noteq> None \<or> hasStoredLicense c then raw_state c
      else resolve_with_trial E c Invalid)"

definition derive_state_from_verify :: "Lease \<Rightarrow> VerifyResult \<Rightarrow> State" where
  "derive_state_from_verify l vr =
     (if \<not> is_trusted vr then Invalid
      else if status l = ''active'' then (if expired vr then Expired else Licensed)
      else if status l = ''fallback'' then Limited
      else Expired)"

definition resolve_from_lease :: "'w env \<Rightarrow> 'w client \<Rightarrow> Lease option \<Rightarrow> State" where
  "resolve_from_lease E c lease =
     (case lease of
        None \<Rightarrow> raw_state c
      | Some l \<Rightarrow>
          let vr = verify_lease E c l in
          if \<not> is_trusted vr then Invalid
          else if status l = ''active'' then (if expired vr then Expired else Licensed)
          else if status l = ''fallback'' then Limited
          else Expired)"

text \<open>The \<open>maxOfflineDays\<close> bound the constructor puts on a state resolved from a cached lease.\<close>

definition bound_offline :: "'w env \<Rightarrow> 'w client \<Rightarrow> State \<Rightarrow> State" where
  "bound_offline E c paid =
     (if paid \<noteq> Invalid \<and> 0 < maxOfflineDays (cfg c) then
        let anchor = cached_last_validated_online (cache c);
            t = e_now E (world c);
            max_age = maxOfflineDays (cfg c) * 86400
        in if anchor = 0 \<or> clock_rolled_back anchor t \<or> max_age < i64 (t - anchor) then Expired else paid
      else paid)"

definition refresh_state_from_store :: "'w env \<Rightarrow> ('w, unit) act" where
  "refresh_state_from_store E = do {
     lr \<leftarrow> interact (e_load E);
     case lr of
       Inl _ \<Rightarrow> modify (\<lambda>c. c\<lparr>raw_state := Invalid\<rparr>)
     | Inr blob \<Rightarrow>
         if blob = [] then modify (\<lambda>c. c\<lparr>raw_state := Invalid\<rparr>)
         else case json_parse blob of
           Inl _ \<Rightarrow> modify (\<lambda>c. c\<lparr>raw_state := Invalid\<rparr>)
         | Inr j \<Rightarrow> do {
             _ \<leftarrow> set_cache (\<lambda>_. decode_blob j);
             lvo \<leftarrow> read (\<lambda>c. cached_last_validated_online (cache c));
             _ \<leftarrow> do_if (lvo \<noteq> 0) (modify (\<lambda>c. c\<lparr>last_validated_online_atomic := lvo\<rparr>));
             paid \<leftarrow> read (\<lambda>c. case cached_lease (cache c) of
                 None \<Rightarrow> Invalid | Some l \<Rightarrow> derive_state_from_verify l (verify_lease E c l));
             bounded \<leftarrow> read (\<lambda>c. bound_offline E c paid);
             s \<leftarrow> read (\<lambda>c. resolve_with_trial E c bounded);
             modify (\<lambda>c. c\<lparr>raw_state := s\<rparr>) } }"

definition blank_client :: "Config \<Rightarrow> 'w \<Rightarrow> 'w client" where
  "blank_client g w =
     \<lparr>cfg = g, raw_state = Invalid, last_reported = Invalid, last_validated_online_atomic = 0,
      cache = empty_cache, last_active_revalidate_at = 0, last_seen_expiry = None, listeners = [],
      lifecycle_listeners = [], next_listener_id = 0, pending = [], delivering = False,
      delivered = [], kh_running = False, kh_shutdown = False, world = w\<rparr>"

text \<open>The constructor.\<close>

definition new_client :: "'w env \<Rightarrow> Config \<Rightarrow> 'w \<Rightarrow> 'w client" where
  "new_client E g w =
     snd (run_state
       (do { _ \<leftarrow> refresh_state_from_store E;
             modify (\<lambda>c. c\<lparr>last_reported := client_state E c\<rparr>) })
       (blank_client g w))"

section \<open>The blob decodes to the cache\<close>

definition present :: "(string \<times> jvalue option) list \<Rightarrow> (string \<times> jvalue) list" where
  "present xs = concat (map (\<lambda>(key, v). case v of None \<Rightarrow> [] | Some x \<Rightarrow> [(key, x)]) xs)"

definition blob_entries :: "cache \<Rightarrow> (string \<times> jvalue option) list" where
  "blob_entries k = [
     (''lease'', map_option lease_object (cached_lease k)),
     (''expiresAt'', map_option JInt (cached_expires_at k)),
     (''instanceId'', map_option JString (cached_instance_id k)),
     (''licenseKey'', map_option JString (cached_license_key k)),
     (''lastValidatedOnline'', map_option JInt (nonzero (cached_last_validated_online k))),
     (''trialStart'', map_option JInt (cached_trial_start k)),
     (''freeTierInstanceId'', map_option JString (cached_free_tier_instance_id k)),
     (''cachedHardwareId'', map_option JString (cached_hardware_id k)),
     (''keylessLastState'', map_option JString (cached_keyless_last_state k)),
     (''lastKeylessPingAt'', map_option JInt (nonzero (cached_last_keyless_ping_at k))),
     (''serverTrialDurationDays'', map_option JInt (cached_server_trial_days k)),
     (''serverFreeTierEnabled'', map_option JBool (cached_server_free_tier k))]"

lemma present_Cons:
  "present ((key, v) # xs) = (case v of None \<Rightarrow> present xs | Some x \<Rightarrow> (key, x) # present xs)"
  by (simp add: present_def split: option.split)

lemma present_Nil [simp]: "present [] = []"
  by (simp add: present_def)

lemma fst_present: "fst ` set (present xs) \<subseteq> fst ` set xs"
proof (induction xs)
  case (Cons e xs)
  then show ?case by (cases e; cases "snd e") (auto simp: present_Cons)
qed simp

lemma distinct_present: "distinct (map fst xs) \<Longrightarrow> distinct (map fst (present xs))"
proof (induction xs)
  case (Cons e xs)
  have "fst ` set (present xs) \<subseteq> set (map fst xs)" using fst_present by simp
  then show ?case using Cons by (cases e) (auto simp: present_Cons split: option.split)
qed simp

lemma map_of_present:
  "distinct (map fst xs) \<Longrightarrow> map_of (present xs) key = Option.bind (map_of xs key) id"
proof (induction xs)
  case (Cons e xs)
  have "fst ` set (present xs) \<subseteq> set (map fst xs)" using fst_present by simp
  then have "fst e \<notin> fst ` set (present xs)" using Cons.prems by auto
  then have "map_of (present xs) (fst e) = None" by (simp add: map_of_eq_None_iff)
  then show ?case using Cons by (cases e) (auto simp: present_Cons split: option.split)
qed simp

lemma reread_present:
  "map (\<lambda>(k, v). (k, reread v)) (present xs) = present (map (\<lambda>(k, v). (k, map_option reread v)) xs)"
  by (induction xs) (auto simp: present_Cons split: option.split)

lemma writable_present:
  "list_all (\<lambda>(k, v). writable v) (present xs) \<longleftrightarrow> list_all (\<lambda>(k, v). pred_option writable v) xs"
proof (induction xs)
  case (Cons e xs)
  then show ?case by (cases e; cases "snd e") (simp_all add: present_Cons)
qed simp

definition member_text :: "string \<times> jvalue \<Rightarrow> string" where
  "member_text = (\<lambda>(k, v). json_str k @ CHR '':'' # render v)"

lemma opt_text_render:
  assumes "plain_key key" "\<And>x. f x = render (g x)"
  shows "opt_text key f v @ map member_text (present xs) =
    map member_text (present ((key, map_option g v) # xs))"
  using assms by (cases v) (simp_all add: opt_text_def present_Cons json_str_plain member_text_def)

lemma build_blob_render: "build_blob k = render (JObject (present (blob_entries k)))"
proof -
  have key: "plain_key ''lease''" "plain_key ''expiresAt''" "plain_key ''instanceId''"
    "plain_key ''licenseKey''" "plain_key ''lastValidatedOnline''" "plain_key ''trialStart''"
    "plain_key ''freeTierInstanceId''" "plain_key ''cachedHardwareId''" "plain_key ''keylessLastState''"
    "plain_key ''lastKeylessPingAt''" "plain_key ''serverTrialDurationDays''" "plain_key ''serverFreeTierEnabled''"
    by (simp_all add: plain_key_def json_escape_def)
  have tx: "\<And>l. lease_to_json l = render (lease_object l)" "\<And>i. int_str i = render (JInt i)"
      "\<And>s. json_str s = render (JString s)" "\<And>b. bool_text b = render (JBool b)"
    by (simp_all add: lease_to_json_render bool_text_def)
  have last: "opt_text key f v = map member_text (present [(key, map_option g v)])"
    if "plain_key key" "\<And>x. f x = render (g x)" for key f g and v :: "'b option"
    using opt_text_render [OF that, where v = v and xs = "[]"] by simp
  have obj: "render (JObject kvs) = ''{'' @ comma_join (map member_text kvs) @ ''}''" for kvs
    by (simp add: member_text_def)
  show ?thesis
    unfolding build_blob_def obj blob_entries_def last [OF key(12) tx(4)]
      opt_text_render [OF key(11) tx(2)] opt_text_render [OF key(10) tx(2)]
      opt_text_render [OF key(9) tx(3)] opt_text_render [OF key(8) tx(3)]
      opt_text_render [OF key(7) tx(3)] opt_text_render [OF key(6) tx(2)]
      opt_text_render [OF key(5) tx(2)] opt_text_render [OF key(4) tx(3)]
      opt_text_render [OF key(3) tx(3)] opt_text_render [OF key(2) tx(2)]
      opt_text_render [OF key(1) tx(1)] ..
qed

lemma distinct_entries: "distinct (map fst (blob_entries k))"
  by (simp add: blob_entries_def)

text \<open>What every cache the client builds satisfies: usable leases, values in their C++ types.\<close>

definition lease_ok :: "Lease \<Rightarrow> bool" where
  "lease_ok l \<longleftrightarrow> kid l \<noteq> [] \<and> status l \<noteq> [] \<and> lease_in_range l"

definition cache_ok :: "cache \<Rightarrow> bool" where
  "cache_ok k \<longleftrightarrow>
     pred_option lease_ok (cached_lease k)
     \<and> pred_option in64 (cached_expires_at k) \<and> in64 (cached_last_validated_online k)
     \<and> pred_option in64 (cached_trial_start k) \<and> in64 (cached_last_keyless_ping_at k)
     \<and> pred_option in32 (cached_server_trial_days k)"

text \<open>The cache as the format keeps it: an empty string or a zero reads back as absent.\<close>

definition canonical_cache :: "cache \<Rightarrow> cache" where
  "canonical_cache k =
     k\<lparr>cached_expires_at := Option.bind (cached_expires_at k) nonzero,
       cached_instance_id := Option.bind (cached_instance_id k) nonempty,
       cached_license_key := Option.bind (cached_license_key k) nonempty,
       cached_trial_start := Option.bind (cached_trial_start k) nonzero,
       cached_free_tier_instance_id := Option.bind (cached_free_tier_instance_id k) nonempty,
       cached_hardware_id := Option.bind (cached_hardware_id k) nonempty,
       cached_keyless_last_state := Option.bind (cached_keyless_last_state k) nonempty\<rparr>"

lemma writable_blob:
  assumes "cache_ok k" shows "writable (JObject (present (blob_entries k)))"
proof -
  have wj: "pred_option writable (map_option JInt v)" if "pred_option in64 v" for v
    using that by (cases v) simp_all
  have ws: "pred_option writable (map_option JString v)" "pred_option writable (map_option JBool b)" for v b
    by (cases v; simp) (cases b; simp)
  have nz: "pred_option in64 (nonzero v)" if "in64 v" for v
    using that by (simp add: nonzero_def)
  have wl: "pred_option writable (map_option lease_object (cached_lease k))"
    using assms by (cases "cached_lease k") (simp_all add: cache_ok_def lease_ok_def writable_lease)
  have wd: "pred_option in64 (cached_server_trial_days k)"
    using assms by (cases "cached_server_trial_days k") (simp_all add: cache_ok_def in32_in64)
  have "list_all (\<lambda>(k, v). pred_option writable v) (blob_entries k)"
    using assms by (simp add: blob_entries_def cache_ok_def wj ws wl wd nz)
  then show ?thesis using distinct_present [OF distinct_entries] by (simp add: writable_present)
qed

definition blob_value :: "cache \<Rightarrow> jvalue" where
  "blob_value k = reread (JObject (present (blob_entries k)))"

lemma blob_value_get:
  "jget (blob_value k) key =
     (case Option.bind (map_of (blob_entries k) key) id of None \<Rightarrow> JNull | Some v \<Rightarrow> reread v)"
proof -
  have fst: "map fst (map (\<lambda>(k, v). (k, map_option reread v)) xs) = map fst xs" for xs :: "(string \<times> jvalue option) list"
    by (simp add: comp_def case_prod_beta)
  have "map_of (present (map (\<lambda>(k, v). (k, map_option reread v)) (blob_entries k))) key =
      Option.bind (map_of (map (\<lambda>(k, v). (k, map_option reread v)) (blob_entries k)) key) id"
    by (rule map_of_present) (simp only: fst distinct_entries)
  also have "\<dots> = map_option reread (Option.bind (map_of (blob_entries k) key) id)"
    by (simp add: map_of_map) (cases "map_of (blob_entries k) key"; simp)
  finally show ?thesis
    by (cases "Option.bind (map_of (blob_entries k) key) id") (simp_all add: blob_value_def jget_def reread_present)
qed

lemma blob_value_has: "json_has (blob_value k) key \<longleftrightarrow> Option.bind (map_of (blob_entries k) key) id \<noteq> None"
proof -
  have "json_has (blob_value k) key \<longleftrightarrow> key \<in> fst ` set (present (blob_entries k))"
    by (force simp: json_has_def blob_value_def jkeys_def)
  also have "\<dots> \<longleftrightarrow> map_of (present (blob_entries k)) key \<noteq> None"
    by (simp only: map_of_eq_None_iff) blast
  finally show ?thesis by (simp add: map_of_present [OF distinct_entries])
qed

lemma bind_Some_id [simp]: "Option.bind (Some v) id = v"
  by simp

lemma get_int: "as_int (case map_option JInt v of None \<Rightarrow> JNull | Some x \<Rightarrow> reread x) = (case v of None \<Rightarrow> 0 | Some x \<Rightarrow> x)"
  by (cases v) (simp_all add: as_int_def [of JNull])

lemma get_string: "as_string (case map_option JString v of None \<Rightarrow> JNull | Some x \<Rightarrow> reread x) = (case v of None \<Rightarrow> [] | Some x \<Rightarrow> x)"
  by (cases v) (simp_all add: as_string_def)

lemma get_bool: "as_bool (case map_option JBool v of None \<Rightarrow> JNull | Some x \<Rightarrow> reread x) = (case v of None \<Rightarrow> False | Some x \<Rightarrow> x)"
  by (cases v) (simp_all add: as_bool_def)

lemma lease_in_blob:
  assumes "pred_option lease_ok (cached_lease k)"
  shows "lease_in (blob_value k) ''lease'' = cached_lease k"
proof -
  have node: "jget (blob_value k) ''lease'' =
      (case cached_lease k of None \<Rightarrow> JNull | Some l \<Rightarrow> reread (lease_object l))"
    by (simp add: blob_value_get blob_entries_def split: option.split)
  show ?thesis
  proof (cases "cached_lease k")
    case None
    then show ?thesis by (simp add: lease_in_def node jsize_def)
  next
    case (Some l)
    then have "lease_from_json (reread (lease_object l)) = Inr l"
      using assms by (simp add: lease_ok_def lease_from_reread)
    moreover have "0 < jsize (reread (lease_object l))" by (simp add: jsize_def lease_object_def)
    ultimately show ?thesis using Some by (simp add: lease_in_def node)
  qed
qed

lemma nonzero_case [simp]: "(case nonzero v of None \<Rightarrow> 0 | Some x \<Rightarrow> x) = v"
  by (simp add: nonzero_def)

lemma bind_cases:
  "Option.bind v nonzero = nonzero (case v of None \<Rightarrow> 0 | Some x \<Rightarrow> x)"
  "Option.bind t nonempty = nonempty (case t of None \<Rightarrow> [] | Some x \<Rightarrow> x)"
  by (simp_all add: nonzero_def nonempty_def split: option.split)

lemma blob_entry:
  "map_of (blob_entries k) ''expiresAt'' = Some (map_option JInt (cached_expires_at k))"
  "map_of (blob_entries k) ''instanceId'' = Some (map_option JString (cached_instance_id k))"
  "map_of (blob_entries k) ''licenseKey'' = Some (map_option JString (cached_license_key k))"
  "map_of (blob_entries k) ''lastValidatedOnline'' =
     Some (map_option JInt (nonzero (cached_last_validated_online k)))"
  "map_of (blob_entries k) ''trialStart'' = Some (map_option JInt (cached_trial_start k))"
  "map_of (blob_entries k) ''freeTierInstanceId'' = Some (map_option JString (cached_free_tier_instance_id k))"
  "map_of (blob_entries k) ''cachedHardwareId'' = Some (map_option JString (cached_hardware_id k))"
  "map_of (blob_entries k) ''keylessLastState'' = Some (map_option JString (cached_keyless_last_state k))"
  "map_of (blob_entries k) ''lastKeylessPingAt'' =
     Some (map_option JInt (nonzero (cached_last_keyless_ping_at k)))"
  "map_of (blob_entries k) ''serverTrialDurationDays'' = Some (map_option JInt (cached_server_trial_days k))"
  "map_of (blob_entries k) ''serverFreeTierEnabled'' = Some (map_option JBool (cached_server_free_tier k))"
  by (simp_all add: blob_entries_def)

lemma decode_blob_value:
  assumes "cache_ok k"
  shows "decode_blob (blob_value k) = canonical_cache k"
proof -
  have days: "(if cached_server_trial_days k \<noteq> None
      then Some (i32 (case cached_server_trial_days k of None \<Rightarrow> 0 | Some x \<Rightarrow> x)) else None) = cached_server_trial_days k"
    using assms by (cases "cached_server_trial_days k") (simp_all add: cache_ok_def)
  have free: "(if cached_server_free_tier k \<noteq> None
      then Some (case cached_server_free_tier k of None \<Rightarrow> False | Some x \<Rightarrow> x) else None) = cached_server_free_tier k"
    by (cases "cached_server_free_tier k") simp_all
  have lease: "lease_in (blob_value k) ''lease'' = cached_lease k"
    using assms by (simp add: cache_ok_def lease_in_blob)
  show ?thesis
    unfolding decode_blob_def canonical_cache_def lease blob_value_get blob_value_has blob_entry bind_Some_id
      get_int get_string get_bool bind_cases nonzero_case option.map_disc_iff days free
    by simp
qed

lemma parse_build_blob:
  assumes "cache_ok k"
  shows "json_parse (build_blob k) = Inr (blob_value k)"
  using parse_render [OF writable_blob [OF assms]] by (simp add: build_blob_render blob_value_def)

lemma build_blob_nonempty [simp]: "build_blob k \<noteq> []"
  by (simp add: build_blob_def)

lemma canonical_cache_idem [simp]: "canonical_cache (canonical_cache k) = canonical_cache k"
  by (simp add: canonical_cache_def bind_cases nonzero_def nonempty_def split: option.split)

text \<open>
  C37. Nothing the client knows is lost by a restart: the blob it writes is valid JSON, and decoding it
  gives back the cache it was written from, where only an empty string and a zero timestamp read
  back as absent.
\<close>
theorem blob_round_trip:
  assumes "cache_ok k"
  shows "\<exists>j. json_parse (build_blob k) = Inr j \<and> decode_blob j = canonical_cache k"
  using parse_build_blob [OF assms] decode_blob_value [OF assms] by blast

theorem blob_round_trip_witness:
  "\<exists>j. json_parse (build_blob (empty_cache\<lparr>cached_license_key := Some ''K-1'', cached_trial_start := Some 1700000000,
        cached_server_trial_days := Some 0\<rparr>)) = Inr j
     \<and> decode_blob j = empty_cache\<lparr>cached_license_key := Some ''K-1'', cached_trial_start := Some 1700000000,
        cached_server_trial_days := Some 0\<rparr>"
proof -
  let ?k = "empty_cache\<lparr>cached_license_key := Some ''K-1'', cached_trial_start := Some 1700000000,
        cached_server_trial_days := Some 0\<rparr>"
  have "cache_ok ?k"
    by (simp add: cache_ok_def empty_cache_def in64_def in32_def INT64_MIN_def INT64_MAX_def)
  moreover have "canonical_cache ?k = ?k"
    by (simp add: canonical_cache_def empty_cache_def nonempty_def nonzero_def)
  ultimately show ?thesis using blob_round_trip [of ?k] by simp
qed

end
