(* ===== verification/Client_Net.thy ===== *)
theory Client_Net
  imports Client_Store
begin

text \<open>
  The client's way to the network and to the device: \<open>request_with_retry_\<close>, the gate every
  server-owned setting passes (\<open>verify_config_\<close>, \<open>apply_config_fields_\<close>), and the identifiers a
  request carries (\<open>cached_hardware_id_value_\<close>, \<open>machine_hash_\<close>, \<open>freeTierInstanceId\<close>,
  \<open>append_attribution_fields_\<close>).
\<close>

section \<open>Requests with retries\<close>

definition sleep_ms :: "'w env \<Rightarrow> nat \<Rightarrow> ('w, unit) act" where
  "sleep_ms E ms = interact (\<lambda>w. ((), e_sleep E ms w))"

text \<open>The loop of \<open>request_with_retry_\<close>: rounds left, the 1-based attempt, the last answer.\<close>

primrec retry_loop ::
    "'w env \<Rightarrow> HttpRequest \<Rightarrow> nat \<Rightarrow> nat \<Rightarrow> HttpResponse result \<Rightarrow> ('w, HttpResponse result) act" where
  "retry_loop E r 0 attempt lst = State_Monad.return lst"
| "retry_loop E r (Suc n) attempt lst = do {
     ans \<leftarrow> interact (e_request E r);
     let st = (case ans of Inl _ \<Rightarrow> 503 | Inr resp \<Rightarrow> http_status resp);
     if is_ok ans \<and> \<not> status_retryable st then State_Monad.return ans
     else do {
       let retry_after = (case ans of Inl _ \<Rightarrow> None
             | Inr resp \<Rightarrow> (case headers resp ''retry-after'' of None \<Rightarrow> None | Some v \<Rightarrow> parse_retry_after v));
       let d = retry_decide st attempt retry_after;
       if \<not> retry d then State_Monad.return ans
       else do {
         _ \<leftarrow> sleep_ms E (delay_ms d);
         retry_loop E r n (Suc attempt) ans } } }"

definition request_with_retry :: "'w env \<Rightarrow> HttpRequest \<Rightarrow> ('w, HttpResponse result) act" where
  "request_with_retry E r =
     retry_loop E r RETRY_MAX_ATTEMPTS 1 (err EC_Network ''no attempt made'')"

section \<open>Server-owned settings\<close>

definition verify_config :: "'w env \<Rightarrow> 'w client \<Rightarrow> jvalue \<Rightarrow> unit result" where
  "verify_config E c j =
     (if \<not> requireSignedConfig (cfg c) then Inr ()
      else if \<not> json_has j ''trial_duration_days'' \<or> \<not> json_has j ''free_tier_enabled'' then
        err EC_BadResponse ''config: signed response is missing a covered field''
      else
        let trial_days = i32 (as_int (jget j ''trial_duration_days''));
            free_tier = as_bool (jget j ''free_tier_enabled'');
            k = as_string (jget j ''kid'');
            sig = as_string (jget j ''signature'')
        in
        if k = [] \<or> sig = [] then
          err EC_BadResponse ''config: unsigned response rejected (requireSignedConfig)''
        else case trustedKeys (cfg c) k of
          None \<Rightarrow> err EC_BadResponse (''config: unknown signing key '' @ [CHR 0x27] @ k @ [CHR 0x27])
        | Some pub \<Rightarrow>
            let issued_at = as_int (jget j ''issued_at'');
                expires_at = as_int (jget j ''expires_at'');
                t = e_now E (world c);
                skew = 300
            in
            if expires_at \<noteq> 0 \<and> expires_at < i64 (t - skew) then
              err EC_BadResponse ''config: signed response has expired''
            else if issued_at \<noteq> 0 \<and> i64 (t + skew) < issued_at then
              err EC_BadResponse ''config: signed response is not yet valid''
            else
              let payload = config_canonical_payload k (tenantId (cfg c)) (productId (cfg c))
                    issued_at expires_at trial_days free_tier;
                  pk_bytes = b64_decode_flexible pub;
                  sig_bytes = b64_decode_flexible sig
              in
              if length pk_bytes \<noteq> 32 \<or> length sig_bytes \<noteq> 64 then
                err EC_BadResponse ''config: malformed key or signature''
              else if \<not> e_sig E (bytes_of payload) (bytes_of sig_bytes) (bytes_of pk_bytes) then
                err EC_BadResponse ''config: signature does not verify''
              else Inr ())"

definition apply_config_fields :: "'w env \<Rightarrow> jvalue \<Rightarrow> ('w, bool) act" where
  "apply_config_fields E j = do {
     let has_trial = json_has j ''trial_duration_days'';
     let has_ft = json_has j ''free_tier_enabled'';
     if \<not> has_trial \<and> \<not> has_ft then State_Monad.return False
     else do {
       vr \<leftarrow> read (\<lambda>c. verify_config E c j);
       if \<not> is_ok vr then State_Monad.return False
       else do {
         _ \<leftarrow> do_if has_trial (set_cache (\<lambda>k. k\<lparr>cached_server_trial_days :=
                  Some (i32 (as_int (jget j ''trial_duration_days'')))\<rparr>));
         _ \<leftarrow> do_if has_ft (set_cache (\<lambda>k. k\<lparr>cached_server_free_tier :=
                  Some (as_bool (jget j ''free_tier_enabled''))\<rparr>));
         _ \<leftarrow> save_cache E;
         State_Monad.return True } } }"

section \<open>Device identity\<close>

definition cached_hardware_id_value :: "'w env \<Rightarrow> ('w, string option) act" where
  "cached_hardware_id_value E = do {
     live \<leftarrow> read (\<lambda>c. e_hwid E (world c));
     stored \<leftarrow> read (\<lambda>c. cached_hardware_id (cache c));
     case Option.bind live nonempty of
       Some h \<Rightarrow> do {
         _ \<leftarrow> do_if (stored \<noteq> Some h) (do {
                _ \<leftarrow> set_cache (\<lambda>k. k\<lparr>cached_hardware_id := Some h\<rparr>);
                _ \<leftarrow> save_cache E;
                skip });
         State_Monad.return (Some h) }
     | None \<Rightarrow> State_Monad.return (Option.bind stored nonempty) }"

definition machine_hash_of :: "'w env \<Rightarrow> ('w, string option) act" where
  "machine_hash_of E = do {
     g \<leftarrow> read cfg;
     hw \<leftarrow> cached_hardware_id_value E;
     State_Monad.return (map_option (machine_hash (tenantId g) (productId g)) hw) }"

definition append_attribution_fields ::
    "'w env \<Rightarrow> (string \<times> string) list \<Rightarrow> bool \<Rightarrow> ('w, (string \<times> string) list) act" where
  "append_attribution_fields E flds include_instance_id = do {
     i \<leftarrow> read (\<lambda>c. cached_free_tier_instance_id (cache c));
     let flds' = (if include_instance_id
                  then (case Option.bind i nonempty of
                          Some x \<Rightarrow> flds @ [(''free_tier_instance_id'', json_str x)] | None \<Rightarrow> flds)
                  else flds);
     hash \<leftarrow> machine_hash_of E;
     State_Monad.return
       (case hash of Some h \<Rightarrow> flds' @ [(''machine_hash'', json_str h)] | None \<Rightarrow> flds') }"

definition freeTierInstanceId :: "'w env \<Rightarrow> ('w, string) act" where
  "freeTierInstanceId E = do {
     i \<leftarrow> read (\<lambda>c. cached_free_tier_instance_id (cache c));
     case i of
       Some x \<Rightarrow> State_Monad.return x
     | None \<Rightarrow> do {
         drawn \<leftarrow> interact (e_rand_bytes E 16);
         _ \<leftarrow> set_cache (\<lambda>k. k\<lparr>cached_free_tier_instance_id := Some (uuid_v4 drawn)\<rparr>);
         saved \<leftarrow> save_cache E;
         if \<not> is_ok saved then do {
           _ \<leftarrow> set_cache (\<lambda>k. k\<lparr>cached_free_tier_instance_id := None\<rparr>);
           State_Monad.return [] }
         else State_Monad.return (uuid_v4 drawn) } }"

text \<open>Sending: URL, headers and body of one authenticated call.\<close>

definition send :: "'w env \<Rightarrow> string \<Rightarrow> string \<Rightarrow> string \<Rightarrow> ('w, HttpResponse result) act" where
  "send E verb action b = do {
     url \<leftarrow> read (\<lambda>c. api_url (cfg c) action);
     hs \<leftarrow> json_headers E;
     request_with_retry E \<lparr>req_method = verb, req_url = url, req_headers = hs, req_body = b\<rparr> }"

section \<open>Recording what a client does to the world\<close>

text \<open>
  The same environment, with a log beside the world of everything that was sent, slept, saved,
  loaded and cleared. Statements about how often the client talks to the network are statements
  about this log, for every environment.
\<close>

datatype io = Sent HttpRequest | Slept nat | Saved string | Loaded | Cleared

definition logged :: "'w env \<Rightarrow> ('w \<times> io list) env" where
  "logged E =
     \<lparr>e_now = (\<lambda>(w, l). e_now E w),
      e_request = (\<lambda>r (w, l). case e_request E r w of (a, w') \<Rightarrow> (a, (w', l @ [Sent r]))),
      e_load = (\<lambda>(w, l). case e_load E w of (a, w') \<Rightarrow> (a, (w', l @ [Loaded]))),
      e_save = (\<lambda>s (w, l). case e_save E s w of (a, w') \<Rightarrow> (a, (w', l @ [Saved s]))),
      e_clear = (\<lambda>(w, l). case e_clear E w of (a, w') \<Rightarrow> (a, (w', l @ [Cleared]))),
      e_sleep = (\<lambda>n (w, l). (e_sleep E n w, l @ [Slept n])),
      e_hwid = (\<lambda>(w, l). e_hwid E w),
      e_rand_bytes = (\<lambda>n (w, l). case e_rand_bytes E n w of (a, w') \<Rightarrow> (a, (w', l))),
      e_rand64 = (\<lambda>(w, l). case e_rand64 E w of (a, w') \<Rightarrow> (a, (w', l))),
      e_spawn = (\<lambda>(w, l). e_spawn E w),
      e_sig = e_sig E,
      e_machine_name = e_machine_name E,
      e_platform = e_platform E,
      e_cores = e_cores E,
      e_memory = e_memory E,
      e_os_raw = e_os_raw E,
      e_arch = e_arch E\<rparr>"

definition io_log :: "('w \<times> io list) client \<Rightarrow> io list" where
  "io_log c = snd (world c)"

definition definitive :: "HttpResponse result \<Rightarrow> bool" where
  "definitive ans \<longleftrightarrow> (\<exists>resp. ans = Inr resp \<and> \<not> status_retryable (http_status resp))"

lemma run_sleep_logged:
  "run_state (sleep_ms (logged E) ms) c =
     ((), c\<lparr>world := (e_sleep E ms (fst (world c)), snd (world c) @ [Slept ms])\<rparr>)"
  by (simp add: sleep_ms_def logged_def split: prod.split)

lemma run_request_logged:
  "run_state (interact (e_request (logged E) r)) c =
     (fst (e_request E r (fst (world c))),
      c\<lparr>world := (snd (e_request E r (fst (world c))), snd (world c) @ [Sent r])\<rparr>)"
  by (simp add: logged_def split: prod.split)

text \<open>The log one run of the loop adds: a request, then for each retry a sleep and a request.\<close>

fun retry_log :: "HttpRequest \<Rightarrow> nat list \<Rightarrow> io list" where
  "retry_log r [] = [Sent r]"
| "retry_log r (d # ds) = Sent r # Slept d # retry_log r ds"

lemma retry_loop_log:
  assumes "run_state (retry_loop (logged E) r n attempt lst) c = (ans, c')"
    "0 < n" "n + attempt = Suc RETRY_MAX_ATTEMPTS"
  shows "\<exists>ds. io_log c' = io_log c @ retry_log r ds \<and> length ds < n \<and> (\<forall>d \<in> set ds. d \<le> RETRY_MAX_SLEEP_MS)
    \<and> (definitive ans \<or> length ds = n - 1) \<and> cache c' = cache c \<and> raw_state c' = raw_state c"
  using assms
proof (induction n arbitrary: attempt lst c)
  case (Suc n)
  let ?a = "fst (e_request E r (fst (world c)))"
  let ?c1 = "c\<lparr>world := (snd (e_request E r (fst (world c))), snd (world c) @ [Sent r])\<rparr>"
  let ?st = "case ?a of Inl _ \<Rightarrow> 503 | Inr resp \<Rightarrow> http_status resp"
  let ?ra = "case ?a of Inl _ \<Rightarrow> None
             | Inr resp \<Rightarrow> (case headers resp ''retry-after'' of None \<Rightarrow> None | Some v \<Rightarrow> parse_retry_after v)"
  let ?d = "retry_decide ?st attempt ?ra"
  have def_iff: "is_ok ?a \<and> \<not> status_retryable ?st \<longleftrightarrow> definitive ?a"
    by (cases ?a) (auto simp: definitive_def)
  have log1: "io_log ?c1 = io_log c @ [Sent r]" by (simp add: io_log_def)
  have run: "run_state (retry_loop (logged E) r (Suc n) attempt lst) c =
      (if definitive ?a then (?a, ?c1)
       else if \<not> retry ?d then (?a, ?c1)
       else run_state (retry_loop (logged E) r n (Suc attempt) ?a)
              (?c1\<lparr>world := (e_sleep E (delay_ms ?d) (fst (world ?c1)), snd (world ?c1) @ [Slept (delay_ms ?d)])\<rparr>))"
    by (simp add: run_request_logged run_sleep_logged def_iff [symmetric] Let_def del: run_interact)
  show ?case
  proof (cases "definitive ?a \<or> \<not> retry ?d")
    case True
    then have res: "ans = ?a" "c' = ?c1" using Suc.prems(1) unfolding run by (auto split: if_splits)
    have "definitive ?a \<or> n = 0"
    proof (rule ccontr)
      assume no: "\<not> (definitive ?a \<or> n = 0)"
      then have "\<not> retry ?d" "0 < n" using True by auto
      moreover have "attempt < RETRY_MAX_ATTEMPTS" using Suc.prems(3) \<open>0 < n\<close> by simp
      moreover have "status_retryable ?st"
        using no def_iff by (cases ?a) (auto simp: status_retryable_def)
      ultimately show False by (simp add: retry_decide_def Let_def)
    qed
    then show ?thesis using res log1 by (intro exI [of _ "[]"]) (auto simp: io_log_def)
  next
    case False
    let ?c2 = "?c1\<lparr>world := (e_sleep E (delay_ms ?d) (fst (world ?c1)), snd (world ?c1) @ [Slept (delay_ms ?d)])\<rparr>"
    have go: "run_state (retry_loop (logged E) r n (Suc attempt) ?a) ?c2 = (ans, c')"
      using Suc.prems(1) False unfolding run by simp
    have "attempt < RETRY_MAX_ATTEMPTS" using False retry_decide_bounds(2) by blast
    then have "0 < n" "n + Suc attempt = Suc RETRY_MAX_ATTEMPTS" using Suc.prems(3) by simp_all
    from Suc.IH [OF go this] obtain ds where
      ds: "io_log c' = io_log ?c2 @ retry_log r ds" "length ds < n" "\<forall>d \<in> set ds. d \<le> RETRY_MAX_SLEEP_MS"
        "definitive ans \<or> length ds = n - 1" "cache c' = cache ?c2" "raw_state c' = raw_state ?c2" by blast
    have "io_log ?c2 = io_log c @ [Sent r, Slept (delay_ms ?d)]" by (simp add: io_log_def)
    then show ?thesis
      using ds retry_decide_bounds(1) \<open>0 < n\<close> by (intro exI [of _ "delay_ms ?d # ds"]) auto
  qed
qed simp

text \<open>
  Every API call makes at least one and at most three requests, all of them the same, with one sleep of at
  most an hour between two of them and nothing else in between; it ends early only on a definitive
  answer (a status that is not 408, 429 or 5xx) and leaves the client's own state alone.
\<close>
theorem request_with_retry_bounded:
  assumes "run_state (request_with_retry (logged E) r) c = (ans, c')"
  shows "\<exists>ds. io_log c' = io_log c @ retry_log r ds \<and> length ds \<le> 2 \<and> (\<forall>d \<in> set ds. d \<le> 3600000)
    \<and> (definitive ans \<or> length ds = 2) \<and> cache c' = cache c \<and> raw_state c' = raw_state c"
proof -
  have "run_state (retry_loop (logged E) r RETRY_MAX_ATTEMPTS 1 (err EC_Network ''no attempt made'')) c = (ans, c')"
    using assms by (simp add: request_with_retry_def)
  from retry_loop_log [OF this] show ?thesis
    by (fastforce simp: RETRY_MAX_ATTEMPTS_def RETRY_MAX_SLEEP_MS_def)
qed

end
