(* ===== verification/Client_Api.thy ===== *)
theory Client_Api
  imports Client_Net
begin

text \<open>
  The public operations of \<open>Client\<close>, each composed the way \<open>client.hpp\<close> composes it, with every
  early return a branch of its computation.
\<close>

section \<open>Activation\<close>

definition expires_in :: "jvalue \<Rightarrow> int option" where
  "expires_in j = nonzero (as_int (jget j ''license_expires_at''))"

definition ok_state :: "State \<Rightarrow> ('w, State result) act" where
  "ok_state s = State_Monad.return (Inr s)"

definition keep_reported :: "'w env \<Rightarrow> ('w, State result) act" where
  "keep_reported E = do { s \<leftarrow> read raw_state; report_state E s }"

text \<open>The lease of an activate answer: absent, unusable (an error), or decoded.\<close>

definition activate_lease :: "jvalue \<Rightarrow> Lease option result" where
  "activate_lease j =
     (let node = jget j ''lease'' in
      if 0 < jsize node then (case lease_from_json node of Inl e \<Rightarrow> Inl e | Inr l \<Rightarrow> Inr (Some l))
      else Inr None)"

definition activate_fields :: "'w env \<Rightarrow> string \<Rightarrow> ('w, string) act" where
  "activate_fields E key = do {
     let name = detect_machine_name E;
     let instance_name = (if name = [] then ''device'' else name);
     flds \<leftarrow> append_attribution_fields E
               [(''license_key'', json_str key), (''instance_name'', json_str instance_name)] True;
     g \<leftarrow> read cfg;
     State_Monad.return (build_json E g flds True) }"

text \<open>What follows a decoded activate answer with \<open>activated = true\<close>.\<close>

definition absorb_activation ::
    "'w env \<Rightarrow> string \<Rightarrow> Lease option \<Rightarrow> int option \<Rightarrow> string option \<Rightarrow> ('w, State result) act" where
  "absorb_activation E key lease expires_at instance_id = do {
     s0 \<leftarrow> read (\<lambda>c. resolve_from_lease E c lease);
     s1 \<leftarrow> (case lease of
              Some l \<Rightarrow> do {
                trusted \<leftarrow> read (\<lambda>c. is_trusted (verify_lease E c l));
                _ \<leftarrow> do_if trusted (do {
                       _ \<leftarrow> persist E \<lparr>lease_json = Some (lease_to_json l), pd_expires_at = expires_at,
                                      pd_instance_id = instance_id, pd_license_key = Some key\<rparr>;
                       t \<leftarrow> now E;
                       save_last_validated_online E t });
                State_Monad.return s0 }
            | None \<Rightarrow> do {
                _ \<leftarrow> persist E \<lparr>lease_json = None, pd_expires_at = expires_at,
                               pd_instance_id = instance_id, pd_license_key = Some key\<rparr>;
                State_Monad.return Licensed });
     s2 \<leftarrow> read (\<lambda>c. resolve_with_trial E c s1);
     _ \<leftarrow> set_client_state E s2;
     report_state E s2 }"

definition activate :: "'w env \<Rightarrow> string \<Rightarrow> ('w, State result) act" where
  "activate E key = do {
     b \<leftarrow> activate_fields E key;
     hr \<leftarrow> send E ''POST'' ''activate'' b;
     case hr of
       Inl e \<Rightarrow> State_Monad.return (Inl e)
     | Inr resp \<Rightarrow>
         if http_status resp \<noteq> 200 then
           State_Monad.return (err EC_Http (http_error_message (body resp) ''activate'' (http_status resp)))
         else case json_parse (body resp) of
           Inl _ \<Rightarrow> State_Monad.return (err EC_BadResponse ''activate: invalid JSON'')
         | Inr j \<Rightarrow>
             if \<not> as_bool (jget j ''activated'') then keep_reported E
             else case activate_lease j of
               Inl e \<Rightarrow> State_Monad.return (Inl e)
             | Inr lease \<Rightarrow>
                 absorb_activation E key lease (expires_in j) (nonempty (as_string (jget j ''instance_id''))) }"

section \<open>Validation\<close>

text \<open>
  \<open>validate\<close> and \<open>build_validate_body_\<close> build the same body; it identifies the seat by key and
  instance.
\<close>

definition build_validate_body :: "'w env \<Rightarrow> ('w, string) act" where
  "build_validate_body E = do {
     license_key \<leftarrow> read load_license_key;
     instance_id \<leftarrow> read load_instance_id;
     flds \<leftarrow> append_attribution_fields E
               [(''license_key'', json_str license_key), (''instance_id'', json_str instance_id)] False;
     g \<leftarrow> read cfg;
     State_Monad.return (build_json E g flds True) }"

text \<open>Keep a trusted lease: write it with its expiry, then stamp the contact.\<close>

definition keep_trusted :: "'w env \<Rightarrow> Lease \<Rightarrow> int option \<Rightarrow> (('w, int) act) \<Rightarrow> ('w, unit) act" where
  "keep_trusted E l expires_at stamp = do {
     trusted \<leftarrow> read (\<lambda>c. is_trusted (verify_lease E c l));
     do_if trusted (do {
       iid \<leftarrow> read (\<lambda>c. cached_instance_id (cache c));
       _ \<leftarrow> persist E \<lparr>lease_json = Some (lease_to_json l), pd_expires_at = expires_at,
                      pd_instance_id = iid, pd_license_key = None\<rparr>;
       t \<leftarrow> stamp;
       save_last_validated_online E t }) }"

definition handle_validate_rejection :: "'w env \<Rightarrow> string \<Rightarrow> int \<Rightarrow> ('w, State option) act" where
  "handle_validate_rejection E b t =
     (case json_parse b of
        Inl _ \<Rightarrow> State_Monad.return None
      | Inr j \<Rightarrow>
          (case lease_in j ''lease'' of
             Some l \<Rightarrow> do {
               _ \<leftarrow> keep_trusted E l (expires_in j) (State_Monad.return t);
               s \<leftarrow> read (\<lambda>c. resolve_with_trial E c (resolve_from_lease E c (Some l)));
               _ \<leftarrow> set_client_state E s;
               State_Monad.return (Some s) }
           | None \<Rightarrow> do {
               _ \<leftarrow> clear_lease E;
               _ \<leftarrow> set_client_state E Invalid;
               State_Monad.return (Some Invalid) }))"

text \<open>
  A decoded 200 answer: absorb the settings, keep a trusted lease, resolve. \<open>stamp\<close> is the contact
  time, read again by \<open>validate\<close> and taken before the request by \<open>validate_and_reconcile_\<close>.
\<close>

definition absorb_validation :: "'w env \<Rightarrow> jvalue \<Rightarrow> (('w, int) act) \<Rightarrow> ('w, State) act" where
  "absorb_validation E j stamp = do {
     _ \<leftarrow> apply_config_fields E j;
     let lease = lease_in j ''lease'';
     _ \<leftarrow> (case lease of None \<Rightarrow> skip | Some l \<Rightarrow> keep_trusted E l (expires_in j) stamp);
     s \<leftarrow> read (\<lambda>c. resolve_with_trial E c (resolve_from_lease E c lease));
     _ \<leftarrow> set_client_state E s;
     State_Monad.return s }"

definition validate :: "'w env \<Rightarrow> ('w, State result) act" where
  "validate E = do {
     _ \<leftarrow> notify E;
     b \<leftarrow> build_validate_body E;
     hr \<leftarrow> send E ''POST'' ''validate'' b;
     case hr of
       Inl _ \<Rightarrow> keep_reported E
     | Inr resp \<Rightarrow>
         if http_status resp \<noteq> 200 then
           (if http_status resp = 422 then do {
              t \<leftarrow> now E;
              rejected \<leftarrow> handle_validate_rejection E (body resp) t;
              case rejected of Some s \<Rightarrow> report_state E s | None \<Rightarrow> keep_reported E }
            else keep_reported E)
         else case json_parse (body resp) of
           Inl _ \<Rightarrow> keep_reported E
         | Inr j \<Rightarrow> do { s \<leftarrow> absorb_validation E j (now E); report_state E s } }"

section \<open>Launch and refresh\<close>

definition downgrade :: "'w env \<Rightarrow> ('w, State result) act" where
  "downgrade E = do {
     current \<leftarrow> read raw_state;
     if current = Licensed then do { _ \<leftarrow> set_client_state E Expired; ok_state Expired }
     else ok_state current }"

definition apply_offline_grace :: "'w env \<Rightarrow> int \<Rightarrow> int \<Rightarrow> ('w, State result) act" where
  "apply_offline_grace E t last_lvo = do {
     lease_raw_expired \<leftarrow> read (\<lambda>c. case cached_lease (cache c) of None \<Rightarrow> True | Some l \<Rightarrow> expiresAt l < t);
     days \<leftarrow> read (\<lambda>c. maxOfflineDays (cfg c));
     current \<leftarrow> read raw_state;
     if lease_raw_expired then downgrade E
     else if days \<le> 0 then ok_state current
     else if 0 < last_lvo \<and> i64 (t - last_lvo) \<le> days * 86400 then ok_state current
     else downgrade E }"

definition validate_and_reconcile :: "'w env \<Rightarrow> ('w, State result) act" where
  "validate_and_reconcile E = do {
     t \<leftarrow> now E;
     last_lvo \<leftarrow> read (\<lambda>c. cached_last_validated_online (cache c));
     b \<leftarrow> build_validate_body E;
     hr \<leftarrow> send E ''POST'' ''validate'' b;
     case hr of
       Inl _ \<Rightarrow> apply_offline_grace E t last_lvo
     | Inr resp \<Rightarrow>
         if http_status resp \<noteq> 200 then
           (if http_status resp = 422 then do {
              rejected \<leftarrow> handle_validate_rejection E (body resp) t;
              case rejected of Some s \<Rightarrow> ok_state s | None \<Rightarrow> apply_offline_grace E t last_lvo }
            else apply_offline_grace E t last_lvo)
         else case json_parse (body resp) of
           Inl _ \<Rightarrow> apply_offline_grace E t last_lvo
         | Inr j \<Rightarrow> do { s \<leftarrow> absorb_validation E j (State_Monad.return t); ok_state s } }"

definition resolve_locally :: "'w env \<Rightarrow> ('w, State result) act" where
  "resolve_locally E = do {
     s \<leftarrow> read (resolve_current_state E);
     _ \<leftarrow> set_client_state E s;
     report_state E s }"

definition checkOnLaunch :: "'w env \<Rightarrow> ('w, State result) act" where
  "checkOnLaunch E = do {
     stored \<leftarrow> read hasStoredLicense;
     if stored then do { r \<leftarrow> validate_and_reconcile E; report_result E r }
     else resolve_locally E }"

definition refresh_due :: "int \<Rightarrow> 'w client \<Rightarrow> bool" where
  "refresh_due t c =
     (let last_lvo = cached_last_validated_online (cache c);
          has_lvo = (0 < last_lvo);
          near_expiry = (case cached_lease (cache c) of None \<Rightarrow> False
                         | Some l \<Rightarrow> i64 (expiresAt l - t) < NEAR_EXPIRY_SECS)
      in \<not> (has_lvo \<and> i64 (t - last_lvo) < REFRESH_DEBOUNCE)
         \<and> (\<not> has_lvo \<or> REFRESH_STALE \<le> i64 (t - last_lvo) \<or> near_expiry))"

definition refreshIfNeeded :: "'w env \<Rightarrow> ('w, State result) act" where
  "refreshIfNeeded E = do {
     _ \<leftarrow> notify E;
     stored \<leftarrow> read hasStoredLicense;
     if \<not> stored then resolve_locally E
     else do {
       t \<leftarrow> now E;
       due \<leftarrow> read (refresh_due t);
       if \<not> due then keep_reported E
       else do { r \<leftarrow> validate_and_reconcile E; report_result E r } } }"

section \<open>Deactivation\<close>

definition drop_paid :: "cache \<Rightarrow> cache" where
  "drop_paid k = k\<lparr>cached_lease := None, cached_expires_at := None, cached_instance_id := None,
                   cached_license_key := None, cached_last_validated_online := 0\<rparr>"

definition release_seat :: "'w env \<Rightarrow> ('w, error option) act" where
  "release_seat E = do {
     instance_id \<leftarrow> read load_instance_id;
     license_key \<leftarrow> read load_license_key;
     g \<leftarrow> read cfg;
     if instance_id = [] then State_Monad.return None
     else do {
       hr \<leftarrow> send E ''POST'' ''deactivate''
               (build_json E g [(''license_key'', json_str license_key), (''instance_id'', json_str instance_id)] False);
       State_Monad.return (case hr of
           Inl e \<Rightarrow> Some e
         | Inr resp \<Rightarrow>
             if http_status resp \<noteq> 200 then
               Some \<lparr>code = EC_Http, message = http_error_message (body resp) ''deactivate'' (http_status resp)\<rparr>
             else None) } }"

definition deactivate :: "'w env \<Rightarrow> ('w, unit result) act" where
  "deactivate E = do {
     server_error \<leftarrow> release_seat E;
     _ \<leftarrow> set_cache drop_paid;
     _ \<leftarrow> modify (\<lambda>c. c\<lparr>last_validated_online_atomic := 0\<rparr>);
     keep_trial \<leftarrow> read (\<lambda>c. cached_trial_start (cache c) \<noteq> None);
     r \<leftarrow> (if keep_trial then save_cache E else interact (e_clear E));
     if \<not> is_ok r then State_Monad.return r
     else do {
       s \<leftarrow> read (\<lambda>c. resolve_with_trial E c Invalid);
       _ \<leftarrow> set_client_state E s;
       State_Monad.return (case server_error of Some e \<Rightarrow> Inl e | None \<Rightarrow> Inr ()) } }"

section \<open>Trial, settings and beacon\<close>

definition fetchConfig :: "'w env \<Rightarrow> ('w, unit result) act" where
  "fetchConfig E = do {
     hr \<leftarrow> send E ''GET'' ''config'' [];
     case hr of
       Inl e \<Rightarrow> State_Monad.return (Inl e)
     | Inr resp \<Rightarrow>
         if http_status resp \<noteq> 200 then
           State_Monad.return (err EC_Http (http_error_message (body resp) ''config'' (http_status resp)))
         else case json_parse (body resp) of
           Inl _ \<Rightarrow> State_Monad.return (err EC_BadResponse ''config: undecodable body'')
         | Inr j \<Rightarrow> do {
             vr \<leftarrow> read (\<lambda>c. verify_config E c j);
             if \<not> is_ok vr then State_Monad.return vr
             else do {
               _ \<leftarrow> apply_config_fields E j;
               s \<leftarrow> read (resolve_current_state E);
               _ \<leftarrow> set_client_state E s;
               State_Monad.return (Inr ()) } } }"

definition keyless_debounced :: "int \<Rightarrow> string \<Rightarrow> cache \<Rightarrow> bool" where
  "keyless_debounced t wire k \<longleftrightarrow>
     cached_keyless_last_state k = Some wire
     \<and> cached_last_keyless_ping_at k \<noteq> 0 \<and> i64 (t - cached_last_keyless_ping_at k) < 86400"

definition reportKeylessState :: "'w env \<Rightarrow> KeylessState \<Rightarrow> ('w, unit) act" where
  "reportKeylessState E ks = do {
     let wire = keyless_state_wire ks;
     t \<leftarrow> now E;
     quiet_day \<leftarrow> read (\<lambda>c. keyless_debounced t wire (cache c));
     if quiet_day then skip
     else do {
       instance \<leftarrow> freeTierInstanceId E;
       if instance = [] then skip
       else do {
         hash \<leftarrow> machine_hash_of E;
         g \<leftarrow> read cfg;
         let flds = [(''instance_id'', json_str instance), (''state'', json_str wire)]
                @ (case hash of Some h \<Rightarrow> [(''machine_hash'', json_str h)] | None \<Rightarrow> []);
         hr \<leftarrow> send E ''POST'' ''keyless'' (build_json E g flds True);
         case hr of
           Inl _ \<Rightarrow> skip
         | Inr resp \<Rightarrow>
             if http_status resp \<noteq> 200 then skip
             else do {
               absorbed \<leftarrow> (case json_parse (body resp) of
                   Inl _ \<Rightarrow> State_Monad.return False | Inr j \<Rightarrow> apply_config_fields E j);
               t' \<leftarrow> now E;
               _ \<leftarrow> set_cache (\<lambda>k. k\<lparr>cached_keyless_last_state := Some wire, cached_last_keyless_ping_at := t'\<rparr>);
               _ \<leftarrow> save_cache E;
               if absorbed then do { s \<leftarrow> read (resolve_current_state E); set_client_state E s } else skip } } } }"

definition startTrial :: "'w env \<Rightarrow> ('w, State result) act" where
  "startTrial E = do {
     fresh \<leftarrow> read (\<lambda>c. cached_trial_start (cache c) = None);
     t \<leftarrow> now E;
     _ \<leftarrow> do_if fresh (do {
            _ \<leftarrow> set_cache (\<lambda>k. k\<lparr>cached_trial_start := Some t\<rparr>);
            _ \<leftarrow> save_cache E;
            skip });
     _ \<leftarrow> freeTierInstanceId E;
     resolve_locally E }"

text \<open>One tick of the heartbeat, after its wait.\<close>

definition heartbeat_tick :: "'w env \<Rightarrow> ('w, unit) act" where
  "heartbeat_tick E = do {
     s \<leftarrow> read (client_state E);
     case beacon_state_for s of None \<Rightarrow> skip | Some ks \<Rightarrow> reportKeylessState E ks }"

section \<open>Upgrades and active use\<close>

definition activeRevalidate :: "'w env \<Rightarrow> ('w, bool) act" where
  "activeRevalidate E = do {
     stored \<leftarrow> read hasStoredLicense;
     if \<not> stored then State_Monad.return False
     else do {
       t \<leftarrow> now E;
       lst \<leftarrow> read last_active_revalidate_at;
       if lst \<noteq> 0 \<and> i64 (t - lst) < 60 then State_Monad.return False
       else do {
         _ \<leftarrow> modify (\<lambda>c. c\<lparr>last_active_revalidate_at := t\<rparr>);
         _ \<leftarrow> validate E;
         State_Monad.return True } } }"

definition sorted_entitlements :: "'w client \<Rightarrow> string list" where
  "sorted_entitlements c = (case cached_lease (cache c) of None \<Rightarrow> [] | Some l \<Rightarrow> sort (entitlements l))"

text \<open>
  The polling loop, with fuel for its rounds: \<open>None\<close> is a run that has not returned yet. Each round
  validates, looks for a change, and sleeps unless the deadline has passed.
\<close>

primrec upgrade_loop ::
    "'w env \<Rightarrow> string list \<Rightarrow> State \<Rightarrow> nat \<Rightarrow> int \<Rightarrow> nat \<Rightarrow> ('w, bool option) act" where
  "upgrade_loop E before_ents before_state interval deadline 0 = State_Monad.return None"
| "upgrade_loop E before_ents before_state interval deadline (Suc n) = do {
     _ \<leftarrow> validate E;
     after_ents \<leftarrow> read sorted_entitlements;
     after_state \<leftarrow> read raw_state;
     if after_ents \<noteq> before_ents \<or> after_state \<noteq> before_state then State_Monad.return (Some True)
     else do {
       t \<leftarrow> now E;
       if deadline \<le> t then State_Monad.return (Some False)
       else do {
         _ \<leftarrow> sleep_ms E interval;
         upgrade_loop E before_ents before_state interval deadline n } } }"

definition refreshAfterUpgrade :: "'w env \<Rightarrow> nat \<Rightarrow> int \<Rightarrow> int \<Rightarrow> ('w, bool option) act" where
  "refreshAfterUpgrade E fuel timeoutMs pollIntervalMs = do {
     stored \<leftarrow> read hasStoredLicense;
     if \<not> stored then State_Monad.return (Some False)
     else do {
       before_ents \<leftarrow> read sorted_entitlements;
       before_state \<leftarrow> read raw_state;
       let interval = (if 0 < pollIntervalMs then nat pollIntervalMs else 100);
       t \<leftarrow> now E;
       upgrade_loop E before_ents before_state interval
         (i64 (t + (if 0 < timeoutMs then timeoutMs div 1000 else 0))) fuel } }"

end
