(* ===== verification/Client_Evolution.thy ===== *)
theory Client_Evolution
  imports Client_Api
begin

text \<open>
  How the client changes. Every public operation is built from a dozen changes of the client record; the
  locales list them as the interface of an invariant proof. \<open>calm_ops\<close> holds the changes that leave the
  paid license alone, \<open>cache_ops\<close> adds those of the stored license, \<open>client_ops\<close> the setting of the state
  and the listeners, and with them the public operations: a reflexive and transitive relation that each
  of these changes keeps, under what the code has established when it makes it, is kept by every
  operation. A change of the cache comes with the write to the store that follows it, so that
  relations between the two can be stated. Where the store does not matter, \<open>calm_evolution\<close>,
  \<open>cache_evolution\<close> and \<open>client_evolution\<close> ask for the bare changes, and for any change of the world.
\<close>

text \<open>What is known of the data handed to \<open>persist_\<close>: any lease in it verified under a trusted key.\<close>

definition fresh_data :: "'w env \<Rightarrow> 'w client \<Rightarrow> PersistData \<Rightarrow> bool" where
  "fresh_data E c d \<longleftrightarrow>
     (\<forall>s. lease_json d = Some s \<longrightarrow> (\<exists>l. s = lease_to_json l \<and> lease_ok l \<and> is_trusted (verify_lease E c l)))
     \<and> pred_option in64 (pd_expires_at d)"

text \<open>The settings of a body that passed \<open>verify_config_\<close>.\<close>

definition settings_of :: "jvalue \<Rightarrow> cache \<Rightarrow> cache" where
  "settings_of j k =
     k\<lparr>cached_server_trial_days :=
         (if json_has j ''trial_duration_days'' then Some (i32 (as_int (jget j ''trial_duration_days'')))
          else cached_server_trial_days k),
       cached_server_free_tier :=
         (if json_has j ''free_tier_enabled'' then Some (as_bool (jget j ''free_tier_enabled''))
          else cached_server_free_tier k)\<rparr>"

definition clock_stamp :: "'w env \<Rightarrow> ('w, int) act \<Rightarrow> bool" where
  "clock_stamp E m \<longleftrightarrow> (\<forall>c. snd (run_state m c) = c \<and> fst (run_state m c) \<in> range (e_now E))"

lemma clock_stamp_now [simp]: "clock_stamp E (now E)"
  by (simp add: clock_stamp_def)

lemma clock_stamp_return [simp]: "clock_stamp E (State_Monad.return (e_now E w))"
  by (simp add: clock_stamp_def)

lemma run_clock_stamp: "clock_stamp E m \<Longrightarrow> \<exists>t \<in> range (e_now E). run_state m c = (t, c)"
  by (metis clock_stamp_def prod.collapse)

lemma lease_in_ok: "in_range j \<Longrightarrow> lease_in j key = Some l \<Longrightarrow> lease_ok l"
  by (auto simp: lease_in_def Let_def lease_ok_def in_range_jget dest: lease_from_json_fields
      split: if_splits sum.splits)

lemma activate_lease_ok: "in_range j \<Longrightarrow> activate_lease j = Inr (Some l) \<Longrightarrow> lease_ok l"
  by (auto simp: activate_lease_def Let_def lease_ok_def in_range_jget dest: lease_from_json_fields
      split: if_splits sum.splits)

lemma expires_in_range: "in_range j \<Longrightarrow> pred_option in64 (expires_in j)"
  by (simp add: expires_in_def nonzero_def as_int_in64 in_range_jget)

lemma run_save_cache:
  "run_state (save_cache E) c =
     (fst (e_save E (build_blob (cache c)) (world c)), c\<lparr>world := snd (e_save E (build_blob (cache c)) (world c))\<rparr>)"
  by (simp add: save_cache_def)

text \<open>The client with a new cache, after writing it.\<close>

definition stored :: "'w env \<Rightarrow> cache \<Rightarrow> 'w client \<Rightarrow> 'w client" where
  "stored E k c = c\<lparr>cache := k, world := snd (e_save E (build_blob k) (world c))\<rparr>"

definition stored_online :: "'w env \<Rightarrow> cache \<Rightarrow> int \<Rightarrow> 'w client \<Rightarrow> 'w client" where
  "stored_online E k t c =
     c\<lparr>cache := k, last_validated_online_atomic := t, world := snd (e_save E (build_blob k) (world c))\<rparr>"

lemma stored_online_simps [simp]:
  "cache (stored_online E k t c) = k" "cfg (stored_online E k t c) = cfg c"
  "world (stored_online E k t c) = snd (e_save E (build_blob k) (world c))"
  "last_validated_online_atomic (stored_online E k t c) = t"
  by (simp_all add: stored_online_def)

lemma stored_simps [simp]:
  "cache (stored E k c) = k" "cfg (stored E k c) = cfg c" "world (stored E k c) = snd (e_save E (build_blob k) (world c))"
  "last_validated_online_atomic (stored E k c) = last_validated_online_atomic c"
  by (simp_all add: stored_def)

locale calm_ops = evolution R
  for E :: "'w env" and R :: "'w client \<Rightarrow> 'w client \<Rightarrow> bool" +
  assumes op_request: "R c (c\<lparr>world := snd (e_request E req (world c))\<rparr>)"
    and op_sleep: "R c (c\<lparr>world := e_sleep E n (world c)\<rparr>)"
    and op_random: "R c (c\<lparr>world := snd (e_rand_bytes E n (world c))\<rparr>)" "R c (c\<lparr>world := snd (e_rand64 E (world c))\<rparr>)"
    and op_notify: "R c (snd (run_state (notify E) c))"
    and op_settings: "verify_config E c j = Inr () \<Longrightarrow> R c (stored E (settings_of j (cache c)) c)"
    and op_hardware: "h \<noteq> [] \<Longrightarrow> R c (stored E ((cache c)\<lparr>cached_hardware_id := Some h\<rparr>) c)"
    and op_free_tier: "cached_free_tier_instance_id (cache c) = None \<Longrightarrow> k = (cache c)\<lparr>cached_free_tier_instance_id := Some i\<rparr> \<Longrightarrow>
      R c (if is_ok (fst (e_save E (build_blob k) (world c))) then stored E k c
           else c\<lparr>world := snd (e_save E (build_blob k) (world c))\<rparr>)"
    and op_keyless: "t \<in> range (e_now E) \<Longrightarrow>
      R c (stored E ((cache c)\<lparr>cached_keyless_last_state := Some wire, cached_last_keyless_ping_at := t\<rparr>) c)"
    and op_trial: "t \<in> range (e_now E) \<Longrightarrow> cached_trial_start (cache c) = None \<Longrightarrow>
      R c (stored E ((cache c)\<lparr>cached_trial_start := Some t\<rparr>) c)"
    and op_active: "R c (c\<lparr>last_active_revalidate_at := t\<rparr>)"
begin

lemma keeps_notify: "keeps (notify E)"
  by (simp add: keeps_def op_notify)

lemma R_then: "R c c' \<Longrightarrow> keeps m \<Longrightarrow> R c (snd (run_state m c'))"
  by (rule evolves_trans [OF _ keepsD])

lemma keeps_bind_sum:
  "(\<And>e. r = Inl e \<Longrightarrow> keeps (m e)) \<Longrightarrow> (\<And>x. r = Inr x \<Longrightarrow> keeps (n x)) \<Longrightarrow> (\<And>a. keeps (k a)) \<Longrightarrow>
     keeps ((case r of Inl e \<Rightarrow> m e | Inr x \<Rightarrow> n x) \<bind> k)"
  by (intro keeps_bind keeps_sum)

text \<open>A change of the cache and the write that follows.\<close>

lemma keeps_stored:
  assumes "\<And>c. R c (stored E (f (cache c)) c)" "\<And>a. keeps (k a)"
  shows "keeps (do { _ \<leftarrow> set_cache f; r \<leftarrow> save_cache E; k r })"
proof -
  have "R c (snd (run_state (do { _ \<leftarrow> set_cache f; r \<leftarrow> save_cache E; k r }) c))" for c
    using R_then [OF assms(1) assms(2), of c] by (simp add: run_save_cache stored_def)
  then show ?thesis by (simp add: keeps_def)
qed

lemma keeps_report [simp]: "keeps (report_state E s)" "keeps (report_result E r)" "keeps (keep_reported E)"
    "keeps (ok_state s)"
  unfolding report_state_def report_result_def keep_reported_def ok_state_def by (intro keeps_intros)+

lemma keeps_sleep: "keeps (sleep_ms E n)"
  by (simp add: sleep_ms_def keeps_def op_sleep)

lemma keeps_request: "keeps (interact (e_request E r))"
  by (simp add: keeps_def op_request)

lemma keeps_random: "keeps (interact (e_rand_bytes E n))" "keeps (interact (e_rand64 E))"
  by (simp_all add: keeps_def op_random)

lemma keeps_retry_loop: "keeps (retry_loop E r n attempt lst)"
proof (induction n arbitrary: attempt lst)
  case (Suc n)
  show ?case unfolding retry_loop.simps by (intro keeps_Let keeps_intros keeps_request keeps_sleep Suc)
qed (simp add: keeps_return)

lemma keeps_send: "keeps (send E verb action b)"
  unfolding send_def json_headers_def random_request_id_def request_with_retry_def
  by (intro keeps_intros keeps_random keeps_retry_loop)

lemma keeps_apply_config: "keeps (apply_config_fields E j)"
proof -
  have "R c (snd (run_state (apply_config_fields E j) c))" for c
  proof (cases "(json_has j ''trial_duration_days'' \<or> json_has j ''free_tier_enabled'') \<and> verify_config E c j = Inr ()")
    case True
    then have "R c (stored E (settings_of j (cache c)) c)" by (simp add: op_settings)
    moreover have "snd (run_state (apply_config_fields E j) c) = stored E (settings_of j (cache c)) c"
      using True by (auto simp: apply_config_fields_def settings_of_def Let_def run_save_cache stored_def)
    ultimately show ?thesis by simp
  next
    case False
    then have "run_state (apply_config_fields E j) c = (False, c)"
      by (cases "verify_config E c j") (auto simp: apply_config_fields_def Let_def)
    then show ?thesis by (simp add: evolves_refl)
  qed
  then show ?thesis by (simp add: keeps_def)
qed

lemma keeps_hardware: "keeps (cached_hardware_id_value E)"
  unfolding cached_hardware_id_value_def
proof (intro keeps_bind_read keeps_option keeps_bind [OF keeps_do_if] keeps_return keeps_stored keeps_skip)
  fix c0 c1 :: "'w client" and h c
  assume "Option.bind (e_hwid E (world c0)) nonempty = Some h"
  then have "h \<noteq> []" by (cases "e_hwid E (world c0)") (auto simp: nonempty_def split: if_splits)
  then show "R c (stored E ((cache c)\<lparr>cached_hardware_id := Some h\<rparr>) c)" by (rule op_hardware)
qed

lemma keeps_machine_hash: "keeps (machine_hash_of E)"
  unfolding machine_hash_of_def by (intro keeps_intros keeps_hardware)

lemma keeps_attribution: "keeps (append_attribution_fields E flds b)"
  unfolding append_attribution_fields_def by (intro keeps_Let keeps_intros keeps_machine_hash)

lemma keeps_free_tier: "keeps (freeTierInstanceId E)"
proof -
  have "R c (snd (run_state (freeTierInstanceId E) c))" for c
  proof (cases "cached_free_tier_instance_id (cache c)")
    case (Some i)
    then show ?thesis by (simp add: freeTierInstanceId_def evolves_refl)
  next
    case None
    define i where "i = uuid_v4 (fst (e_rand_bytes E 16 (world c)))"
    define d where "d = c\<lparr>world := snd (e_rand_bytes E 16 (world c))\<rparr>"
    define k where "k = (cache d)\<lparr>cached_free_tier_instance_id := Some i\<rparr>"
    have drop: "(cache c)\<lparr>cached_free_tier_instance_id := None\<rparr> = cache c"
      using None by (cases "cache c") simp
    have "snd (run_state (freeTierInstanceId E) c) =
        (if is_ok (fst (e_save E (build_blob k) (world d))) then stored E k d
         else d\<lparr>world := snd (e_save E (build_blob k) (world d))\<rparr>)"
      using None drop by (simp add: freeTierInstanceId_def run_save_cache stored_def i_def d_def k_def)
    moreover have "R c d" unfolding d_def by (rule op_random)
    moreover have "cached_free_tier_instance_id (cache d) = None" using None by (simp add: d_def)
    ultimately show ?thesis using evolves_trans [OF _ op_free_tier [OF _ k_def]] by simp
  qed
  then show ?thesis by (simp add: keeps_def)
qed

lemma keeps_validate_body: "keeps (build_validate_body E)"
  unfolding build_validate_body_def by (intro keeps_intros keeps_attribution)

lemma keeps_activate_fields: "keeps (activate_fields E key)"
  unfolding activate_fields_def by (intro keeps_Let keeps_intros keeps_attribution)

lemma keeps_release: "keeps (release_seat E)"
  unfolding release_seat_def by (intro keeps_intros keeps_send)

end

locale cache_ops = calm_ops E R
  for E :: "'w env" and R :: "'w client \<Rightarrow> 'w client \<Rightarrow> bool" +
  assumes op_persist: "fresh_data E c d \<Longrightarrow> R c (stored E (merge_persist d (cache c)) c)"
    and op_stamp: "t \<in> range (e_now E) \<Longrightarrow>
      R c (stored_online E ((cache c)\<lparr>cached_last_validated_online := t\<rparr>) t c)"
    and op_clear_lease: "R c (stored E ((cache c)\<lparr>cached_lease := None\<rparr>) c)"
    and op_drop_paid: "cached_trial_start (cache c) \<noteq> None \<Longrightarrow>
      R c (stored_online E (drop_paid (cache c)) 0 c)"
    and op_wipe: "cached_trial_start (cache c) = None \<Longrightarrow>
      R c (c\<lparr>cache := drop_paid (cache c), last_validated_online_atomic := 0, world := snd (e_clear E (world c))\<rparr>)"
begin

lemma keeps_stamp:
  assumes "t \<in> range (e_now E)" shows "keeps (save_last_validated_online E t)"
proof -
  have "snd (run_state (save_last_validated_online E t) c)
      = stored_online E ((cache c)\<lparr>cached_last_validated_online := t\<rparr>) t c" for c
    by (simp add: save_last_validated_online_def run_save_cache stored_online_def)
  then show ?thesis using op_stamp [OF assms] by (simp add: keeps_def)
qed

lemma R_persist:
  assumes "fresh_data E c d" shows "R c (snd (run_state (persist E d) c))"
  using op_persist [OF assms] by (simp add: persist_def run_save_cache stored_def)

lemma persist_then_stamp:
  assumes "fresh_data E c d" "clock_stamp E stamp"
  shows "R c (snd (run_state (do { _ \<leftarrow> persist E d; t \<leftarrow> stamp; save_last_validated_online E t }) c))"
proof -
  let ?c = "snd (run_state (persist E d) c)"
  obtain t where t: "t \<in> range (e_now E)" "run_state stamp ?c = (t, ?c)"
    using run_clock_stamp [OF assms(2)] by blast
  have "run_state (do { _ \<leftarrow> persist E d; t \<leftarrow> stamp; save_last_validated_online E t }) c =
      run_state (save_last_validated_online E t) ?c"
    using t(2) by (simp add: split_beta)
  then show ?thesis using R_then [OF R_persist [OF assms(1)] keeps_stamp [OF t(1)]] by simp
qed

lemma keeps_keep_trusted:
  assumes "lease_ok l" "pred_option in64 expires_at" "clock_stamp E stamp"
  shows "keeps (keep_trusted E l expires_at stamp)"
proof -
  have "R c (snd (run_state (keep_trusted E l expires_at stamp) c))" for c
  proof (cases "is_trusted (verify_lease E c l)")
    case True
    let ?d = "\<lparr>lease_json = Some (lease_to_json l), pd_expires_at = expires_at,
        pd_instance_id = cached_instance_id (cache c), pd_license_key = None\<rparr>"
    have "fresh_data E c ?d" using assms True by (auto simp: fresh_data_def)
    moreover have "run_state (keep_trusted E l expires_at stamp) c =
        run_state (do { _ \<leftarrow> persist E ?d; t \<leftarrow> stamp; save_last_validated_online E t }) c"
      using True by (simp add: keep_trusted_def)
    ultimately show ?thesis using persist_then_stamp [OF _ assms(3)] by metis
  next
    case False
    then show ?thesis by (simp add: keep_trusted_def evolves_refl)
  qed
  then show ?thesis by (simp add: keeps_def)
qed

lemma keeps_clear_lease: "keeps (clear_lease E)"
  unfolding clear_lease_def by (intro keeps_stored keeps_skip op_clear_lease)

end

locale client_calls = cache_ops E R
  for E :: "'w env" and R :: "'w client \<Rightarrow> 'w client \<Rightarrow> bool" +
  assumes op_set_state: "R c (snd (run_state (set_client_state E s) c))"
begin

lemma keeps_set_state: "keeps (set_client_state E s)"
  by (simp add: keeps_def op_set_state)

lemma keeps_absorb_activation:
  assumes "\<And>l. lease = Some l \<Longrightarrow> lease_ok l" "pred_option in64 expires_at"
  shows "keeps (absorb_activation E key lease expires_at iid)"
proof -
  let ?d = "\<lambda>j. \<lparr>lease_json = j, pd_expires_at = expires_at, pd_instance_id = iid, pd_license_key = Some key\<rparr>"
  let ?rest = "\<lambda>s. do { s2 \<leftarrow> read (\<lambda>c. resolve_with_trial E c s); _ \<leftarrow> set_client_state E s2; report_state E s2 }"
  have rest: "keeps (?rest s)" for s
    by (intro keeps_intros keeps_set_state keeps_report)
  have "R c (snd (run_state (absorb_activation E key lease expires_at iid) c))" for c
  proof (cases lease)
    case None
    have "R c (snd (run_state (persist E (?d None)) c))"
      using assms(2) by (intro R_persist) (simp add: fresh_data_def)
    then have "R c (snd (run_state (?rest Licensed) (snd (run_state (persist E (?d None)) c))))"
      using rest by (rule R_then)
    then show ?thesis
      using None by (simp add: absorb_activation_def split_beta)
  next
    case (Some l)
    show ?thesis
    proof (cases "is_trusted (verify_lease E c l)")
      case True
      have "fresh_data E c (?d (Some (lease_to_json l)))"
        using assms Some True by (auto simp: fresh_data_def)
      let ?c = "snd (run_state (do { _ \<leftarrow> persist E (?d (Some (lease_to_json l))); t \<leftarrow> now E;
          save_last_validated_online E t }) c)"
      have "R c ?c" by (rule persist_then_stamp) (use \<open>fresh_data E c _\<close> in simp_all)
      then have "R c (snd (run_state (?rest (resolve_from_lease E c lease)) ?c))" using rest by (rule R_then)
      then show ?thesis using Some True by (simp add: absorb_activation_def split_beta)
    next
      case False
      have "R c (snd (run_state (?rest (resolve_from_lease E c lease)) c))" using rest by (rule keepsD)
      then show ?thesis
        using Some False by (simp add: absorb_activation_def)
    qed
  qed
  then show ?thesis by (simp add: keeps_def)
qed

lemma keeps_activate: "keeps (activate E key)"
  unfolding activate_def
proof (intro keeps_Let keeps_intros keeps_activate_fields keeps_send keeps_report keeps_absorb_activation)
  fix resp j lease l
  assume j: "json_parse (body resp) = Inr j" and l: "activate_lease j = Inr lease" "lease = Some l"
  then show "lease_ok l" using activate_lease_ok json_parse_in_range by blast
next
  fix resp j
  assume "json_parse (body resp) = Inr j"
  then show "pred_option in64 (expires_in j)" using expires_in_range json_parse_in_range by blast
qed

lemma keeps_rejection: "t \<in> range (e_now E) \<Longrightarrow> keeps (handle_validate_rejection E b t)"
  unfolding handle_validate_rejection_def
proof (intro keeps_intros keeps_set_state keeps_clear_lease keeps_keep_trusted)
  fix j l assume "t \<in> range (e_now E)" "json_parse b = Inr j" "lease_in j ''lease'' = Some l"
  then show "lease_ok l" "pred_option in64 (expires_in j)" "clock_stamp E (State_Monad.return t)"
    using lease_in_ok expires_in_range json_parse_in_range by (blast, blast, auto simp: clock_stamp_def)
qed

lemma keeps_absorb_validation:
  assumes "in_range j" "clock_stamp E stamp" shows "keeps (absorb_validation E j stamp)"
  unfolding absorb_validation_def
  using assms
  by (intro keeps_Let keeps_intros keeps_apply_config keeps_set_state keeps_keep_trusted)
    (auto intro: lease_in_ok expires_in_range)

lemma keeps_validate: "keeps (validate E)"
  unfolding validate_def
  by (intro keeps_bind_now keeps_intros keeps_notify keeps_validate_body keeps_send keeps_report
      keeps_rejection keeps_absorb_validation)
    (auto intro: json_parse_in_range)

lemma keeps_downgrade: "keeps (downgrade E)"
  unfolding downgrade_def by (intro keeps_intros keeps_set_state keeps_report)

lemma keeps_grace: "keeps (apply_offline_grace E t lvo)"
  unfolding apply_offline_grace_def by (intro keeps_intros keeps_downgrade keeps_report)

lemma keeps_reconcile: "keeps (validate_and_reconcile E)"
  unfolding validate_and_reconcile_def
  by (intro keeps_bind_now keeps_intros keeps_validate_body keeps_send keeps_report keeps_grace
      keeps_rejection keeps_absorb_validation)
    (auto intro: json_parse_in_range)

lemma keeps_resolve_locally: "keeps (resolve_locally E)"
  unfolding resolve_locally_def by (intro keeps_intros keeps_set_state keeps_report)

lemma keeps_checkOnLaunch: "keeps (checkOnLaunch E)"
  unfolding checkOnLaunch_def by (intro keeps_intros keeps_reconcile keeps_report keeps_resolve_locally)

lemma keeps_refresh: "keeps (refreshIfNeeded E)"
  unfolding refreshIfNeeded_def
  by (intro keeps_intros keeps_notify keeps_reconcile keeps_report keeps_resolve_locally)

lemma keeps_deactivate: "keeps (deactivate E)"
proof -
  let ?rest = "\<lambda>x r. if \<not> is_ok r then State_Monad.return r
     else do {
       s \<leftarrow> read (\<lambda>c. resolve_with_trial E c Invalid);
       _ \<leftarrow> set_client_state E s;
       State_Monad.return (case x of Some e \<Rightarrow> Inl e | None \<Rightarrow> Inr ()) }"
  have rest: "keeps (?rest (x :: error option) r)" for x r
    by (intro keeps_intros keeps_set_state)
  have "R c (snd (run_state (deactivate E) c))" for c
  proof -
    obtain x c1 where r: "run_state (release_seat E) c = (x, c1)" by force
    have released: "R c c1" by (rule keeps_run [OF keeps_release r])
    have trial: "cached_trial_start (drop_paid (cache c1)) = cached_trial_start (cache c1)"
      by (simp add: drop_paid_def)
    show ?thesis
    proof (cases "cached_trial_start (cache c1) = None")
      case True
      let ?c = "c1\<lparr>cache := drop_paid (cache c1), last_validated_online_atomic := 0, world := snd (e_clear E (world c1))\<rparr>"
      have "run_state (deactivate E) c = run_state (?rest x (fst (e_clear E (world c1)))) ?c"
        using True trial by (simp add: deactivate_def r)
      then show ?thesis using R_then [OF evolves_trans [OF released op_wipe [OF True]] rest] by simp
    next
      case False
      let ?c = "stored_online E (drop_paid (cache c1)) 0 c1"
      have "run_state (deactivate E) c
          = run_state (?rest x (fst (e_save E (build_blob (drop_paid (cache c1))) (world c1)))) ?c"
        using False trial by (simp add: deactivate_def r run_save_cache stored_online_def)
      then show ?thesis using R_then [OF evolves_trans [OF released op_drop_paid [OF False]] rest] by simp
    qed
  qed
  then show ?thesis by (simp add: keeps_def)
qed

lemma keeps_fetchConfig: "keeps (fetchConfig E)"
  unfolding fetchConfig_def by (intro keeps_intros keeps_send keeps_apply_config keeps_set_state)

lemma keeps_keyless: "keeps (reportKeylessState E ks)"
  unfolding reportKeylessState_def
  by (intro keeps_Let keeps_bind_now keeps_bind_read keeps_bind_sum keeps_if keeps_skip keeps_option keeps_sum keeps_return
      keeps_bind [OF keeps_free_tier] keeps_bind [OF keeps_machine_hash] keeps_bind [OF keeps_send]
      keeps_apply_config keeps_set_state keeps_stored op_keyless) simp_all

lemma keeps_startTrial: "keeps (startTrial E)"
proof -
  have "R c (snd (run_state (startTrial E) c))" for c
  proof -
    let ?rest = "do { _ \<leftarrow> freeTierInstanceId E; resolve_locally E }"
    have rest: "keeps ?rest" by (intro keeps_intros keeps_free_tier keeps_resolve_locally)
    show ?thesis
    proof (cases "cached_trial_start (cache c)")
      case None
      from R_then [OF op_trial [OF rangeI [of "e_now E" "world c"] None] rest] show ?thesis
        using None by (simp add: startTrial_def run_save_cache stored_def)
    next
      case (Some t)
      with keepsD [OF rest, of c] show ?thesis by (simp add: startTrial_def)
    qed
  qed
  then show ?thesis by (simp add: keeps_def)
qed

lemma keeps_heartbeat_tick: "keeps (heartbeat_tick E)"
  unfolding heartbeat_tick_def by (intro keeps_intros keeps_keyless)

lemma keeps_activeRevalidate: "keeps (activeRevalidate E)"
  unfolding activeRevalidate_def by (intro keeps_intros keeps_modify op_active keeps_validate)

lemma keeps_upgrade_loop: "keeps (upgrade_loop E b s i d n)"
proof (induction n)
  case (Suc n)
  show ?case unfolding upgrade_loop.simps by (intro keeps_intros keeps_validate keeps_sleep Suc)
qed (simp add: keeps_return)

lemma keeps_upgrade: "keeps (refreshAfterUpgrade E n t i)"
  unfolding refreshAfterUpgrade_def by (intro keeps_Let keeps_intros keeps_upgrade_loop)

end

locale client_ops = client_calls E R
  for E :: "'w env" and R :: "'w client \<Rightarrow> 'w client \<Rightarrow> bool" +
  assumes op_listeners: "R c (snd (run_state subscribe c))" "R c (snd (run_state (onLifecycle f) c))"
      "R c (snd (run_state (on event) c))" "R c (snd (run_state (unsubscribe sub) c))"
      "R c (snd (run_state stop_heartbeat c))"

section \<open>Where the store does not matter\<close>

locale calm_evolution = evolution R
  for E :: "'w env" and R :: "'w client \<Rightarrow> 'w client \<Rightarrow> bool" +
  assumes step_world: "R c (c\<lparr>world := w\<rparr>)"
    and step_notify: "R c (snd (run_state (notify E) c))"
    and step_settings: "verify_config E c j = Inr () \<Longrightarrow> R c (c\<lparr>cache := settings_of j (cache c)\<rparr>)"
    and step_hardware: "h \<noteq> [] \<Longrightarrow> R c (c\<lparr>cache := (cache c)\<lparr>cached_hardware_id := Some h\<rparr>\<rparr>)"
    and step_free_tier: "cached_free_tier_instance_id (cache c) = None \<Longrightarrow>
      R c (c\<lparr>cache := (cache c)\<lparr>cached_free_tier_instance_id := Some i\<rparr>\<rparr>)"
    and step_keyless: "t \<in> range (e_now E) \<Longrightarrow>
      R c (c\<lparr>cache := (cache c)\<lparr>cached_keyless_last_state := Some wire, cached_last_keyless_ping_at := t\<rparr>\<rparr>)"
    and step_trial: "t \<in> range (e_now E) \<Longrightarrow> cached_trial_start (cache c) = None \<Longrightarrow>
      R c (c\<lparr>cache := (cache c)\<lparr>cached_trial_start := Some t\<rparr>\<rparr>)"
    and step_active: "R c (c\<lparr>last_active_revalidate_at := t\<rparr>)"
begin

lemma keeps_save: "keeps (save_cache E)"
  by (simp add: keeps_def run_save_cache step_world)

lemma step_stored: "R c (c\<lparr>cache := k\<rparr>) \<Longrightarrow> R c (stored E k c)"
  using evolves_trans [OF _ step_world [of "c\<lparr>cache := k\<rparr>"]] by (simp add: stored_def)

end

sublocale calm_evolution \<subseteq> calm_ops E R
  by unfold_locales
    (auto intro!: step_stored intro: step_world step_notify step_settings step_hardware step_free_tier step_keyless step_trial step_active)

locale cache_evolution = calm_evolution E R
  for E :: "'w env" and R :: "'w client \<Rightarrow> 'w client \<Rightarrow> bool" +
  assumes step_persist: "fresh_data E c d \<Longrightarrow> R c (c\<lparr>cache := merge_persist d (cache c)\<rparr>)"
    and step_stamp: "t \<in> range (e_now E) \<Longrightarrow>
      R c (c\<lparr>cache := (cache c)\<lparr>cached_last_validated_online := t\<rparr>, last_validated_online_atomic := t\<rparr>)"
    and step_clear_lease: "R c (c\<lparr>cache := (cache c)\<lparr>cached_lease := None\<rparr>\<rparr>)"
    and step_drop_paid: "R c (c\<lparr>cache := drop_paid (cache c), last_validated_online_atomic := 0\<rparr>)"
begin

lemma step_stored_online: "R c (c\<lparr>cache := k, last_validated_online_atomic := t\<rparr>) \<Longrightarrow> R c (stored_online E k t c)"
  using evolves_trans [OF _ step_world [of "c\<lparr>cache := k, last_validated_online_atomic := t\<rparr>"]]
  by (simp add: stored_online_def)

end

sublocale cache_evolution \<subseteq> cache_ops E R
  by unfold_locales
    (auto intro!: step_stored_online step_stored intro: step_persist step_stamp step_clear_lease step_drop_paid
      evolves_trans [OF step_drop_paid step_world])

locale client_evolution = cache_evolution E R
  for E :: "'w env" and R :: "'w client \<Rightarrow> 'w client \<Rightarrow> bool" +
  assumes step_set_state: "R c (snd (run_state (set_client_state E s) c))"
    and step_listeners: "R c (snd (run_state subscribe c))" "R c (snd (run_state (onLifecycle f) c))"
      "R c (snd (run_state (on event) c))" "R c (snd (run_state (unsubscribe sub) c))"
      "R c (snd (run_state stop_heartbeat c))"

sublocale client_evolution \<subseteq> client_ops E R
  by unfold_locales (rule step_set_state step_listeners)+

end
