(* ===== verification/Client_Inv.thy ===== *)
theory Client_Inv
  imports Client_Evolution
begin

text \<open>
  Invariants of the client over every sequence of public calls, with the world free to change
  between two of them. Each is a relation that interprets \<open>client_evolution\<close>; the step relation
  \<open>api_step\<close> then carries it to all histories.
\<close>

section \<open>Histories\<close>

inductive api_call :: "'w env \<Rightarrow> 'w client \<Rightarrow> 'w client \<Rightarrow> bool" for E :: "'w env" where
  st_activate: "run_state (activate E key) c = (r, c') \<Longrightarrow> api_call E c c'"
| st_validate: "run_state (validate E) c = (r, c') \<Longrightarrow> api_call E c c'"
| st_deactivate: "run_state (deactivate E) c = (u, c') \<Longrightarrow> api_call E c c'"
| st_launch: "run_state (checkOnLaunch E) c = (r, c') \<Longrightarrow> api_call E c c'"
| st_refresh: "run_state (refreshIfNeeded E) c = (r, c') \<Longrightarrow> api_call E c c'"
| st_config: "run_state (fetchConfig E) c = (u, c') \<Longrightarrow> api_call E c c'"
| st_free_tier: "run_state (freeTierInstanceId E) c = (s, c') \<Longrightarrow> api_call E c c'"
| st_keyless: "run_state (reportKeylessState E ks) c = (v, c') \<Longrightarrow> api_call E c c'"
| st_tick: "run_state (heartbeat_tick E) c = (v, c') \<Longrightarrow> api_call E c c'"
| st_trial: "run_state (startTrial E) c = (r, c') \<Longrightarrow> api_call E c c'"
| st_active: "run_state (activeRevalidate E) c = (b, c') \<Longrightarrow> api_call E c c'"
| st_upgrade: "run_state (refreshAfterUpgrade E n tmo ivl) c = (q, c') \<Longrightarrow> api_call E c c'"
| st_subscribe: "run_state subscribe c = (i, c') \<Longrightarrow> api_call E c c'"
| st_on: "run_state (on event) c = (i, c') \<Longrightarrow> api_call E c c'"
| st_lifecycle: "run_state (onLifecycle f) c = (i, c') \<Longrightarrow> api_call E c c'"
| st_unsubscribe: "run_state (unsubscribe sub) c = (i, c') \<Longrightarrow> api_call E c c'"
| st_stop: "run_state stop_heartbeat c = (v, c') \<Longrightarrow> api_call E c c'"

inductive api_step :: "'w env \<Rightarrow> 'w client \<Rightarrow> 'w client \<Rightarrow> bool" for E :: "'w env" where
  st_world: "api_step E c (c\<lparr>world := w\<rparr>)"
| st_call: "api_call E c c' \<Longrightarrow> api_step E c c'"

inductive_cases api_callE: "api_call E c c'"

definition reachable :: "'w env \<Rightarrow> Config \<Rightarrow> 'w client \<Rightarrow> bool" where
  "reachable E g c \<longleftrightarrow> (\<exists>w. (api_step E)\<^sup>*\<^sup>* (new_client E g w) c)"

context client_ops begin

lemma step_listeners_run:
  "run_state subscribe c = (i, c') \<Longrightarrow> R c c'" "run_state (onLifecycle f) c = (i, c') \<Longrightarrow> R c c'"
  "run_state (on event) c = (i, c') \<Longrightarrow> R c c'" "run_state (unsubscribe sub) c = (i, c') \<Longrightarrow> R c c'"
  "run_state stop_heartbeat c = (v, c') \<Longrightarrow> R c c'"
  using op_listeners by (metis snd_conv)+

lemma api_call_R: "api_call E c c' \<Longrightarrow> R c c'"
  by (induction rule: api_call.induct)
    (auto intro: keeps_run step_listeners_run keeps_activate keeps_validate keeps_deactivate keeps_checkOnLaunch keeps_refresh
      keeps_fetchConfig keeps_free_tier keeps_keyless keeps_heartbeat_tick keeps_startTrial
      keeps_activeRevalidate keeps_upgrade)

end

context client_evolution begin

lemma api_step_R: "api_step E c c' \<Longrightarrow> R c c'"
  by (induction rule: api_step.induct) (auto intro: step_world api_call_R)

lemma history_R: "(api_step E)\<^sup>*\<^sup>* c c' \<Longrightarrow> R c c'"
  by (induction rule: rtranclp_induct) (auto intro: evolves_refl evolves_trans api_step_R)

end

section \<open>What is kept for good\<close>

definition kept :: "'w client \<Rightarrow> 'w client \<Rightarrow> bool" where
  "kept c c' \<longleftrightarrow>
     cfg c' = cfg c
     \<and> (\<forall>t. cached_trial_start (cache c) = Some t \<longrightarrow> cached_trial_start (cache c') = Some t)
     \<and> (\<forall>i. cached_free_tier_instance_id (cache c) = Some i \<longrightarrow> cached_free_tier_instance_id (cache c') = Some i)"

interpretation kept: client_evolution E kept for E
  by unfold_locales
    (auto simp: kept_def same_licensing_def merge_persist_def drop_paid_def settings_of_def)

section \<open>The cache stays well formed\<close>

definition clock_ok :: "'w env \<Rightarrow> bool" where
  "clock_ok E \<longleftrightarrow> (\<forall>w. in64 (e_now E w))"

definition client_ok :: "'w client \<Rightarrow> bool" where
  "client_ok c \<longleftrightarrow> cache_ok (cache c)
     \<and> last_validated_online_atomic c = cached_last_validated_online (cache c)"

definition stays_ok :: "'w env \<Rightarrow> 'w client \<Rightarrow> 'w client \<Rightarrow> bool" where
  "stays_ok E c c' \<longleftrightarrow> (clock_ok E \<longrightarrow> client_ok c \<longrightarrow> client_ok c')"

lemma reparse_lease_to_json [simp]:
  assumes "lease_ok l" shows "reparse_lease (lease_to_json l) = Some l"
proof -
  have "json_parse (lease_to_json l) = Inr (reread (lease_object l))"
    using parse_render [OF writable_lease] assms by (simp add: lease_to_json_render lease_ok_def)
  then show ?thesis using assms by (simp add: reparse_lease_def lease_ok_def lease_from_reread)
qed

lemma merge_fresh:
  assumes "fresh_data E c d"
  shows "(\<exists>l. lease_ok l \<and> is_trusted (verify_lease E c l) \<and> cached_lease (merge_persist d k) = Some l)
    \<or> cached_lease (merge_persist d k) = cached_lease k"
  using assms by (cases "lease_json d") (auto simp: fresh_data_def merge_persist_def supplied_def)

lemma cache_ok_merge:
  assumes "fresh_data E c d" "cache_ok k" shows "cache_ok (merge_persist d k)"
proof -
  have "pred_option lease_ok (cached_lease (merge_persist d k))"
    using merge_fresh [OF assms(1), of k] assms(2) by (auto simp: cache_ok_def)
  moreover have "pred_option in64 (cached_expires_at (merge_persist d k))"
    using assms by (cases "pd_expires_at d") (simp_all add: fresh_data_def cache_ok_def merge_persist_def supplied_def)
  ultimately show ?thesis using assms(2) by (simp add: cache_ok_def merge_persist_def)
qed

lemma cache_ok_settings: "cache_ok k \<Longrightarrow> cache_ok (settings_of j k)"
  by (simp add: cache_ok_def settings_of_def)

lemma in64_0 [simp]: "in64 0"
  by (simp add: in64_def INT64_MIN_def INT64_MAX_def)

lemma cache_ok_updates:
  "cache_ok k \<Longrightarrow> in64 t \<Longrightarrow> cache_ok (k\<lparr>cached_last_validated_online := t\<rparr>)"
  "cache_ok k \<Longrightarrow> cache_ok (k\<lparr>cached_lease := None\<rparr>)"
  "cache_ok k \<Longrightarrow> cache_ok (drop_paid k)"
  "cache_ok k \<Longrightarrow> cache_ok (k\<lparr>cached_hardware_id := h\<rparr>)"
  "cache_ok k \<Longrightarrow> cache_ok (k\<lparr>cached_free_tier_instance_id := i\<rparr>)"
  "cache_ok k \<Longrightarrow> in64 t \<Longrightarrow> cache_ok (k\<lparr>cached_keyless_last_state := w, cached_last_keyless_ping_at := t\<rparr>)"
  "cache_ok k \<Longrightarrow> in64 t \<Longrightarrow> cache_ok (k\<lparr>cached_trial_start := Some t\<rparr>)"
  by (simp_all add: cache_ok_def drop_paid_def)

lemma merge_settings_frame [simp]:
  "cached_last_validated_online (merge_persist d k) = cached_last_validated_online k"
  "cached_last_validated_online (settings_of j k) = cached_last_validated_online k"
  "cached_last_validated_online (drop_paid k) = 0"
  by (simp_all add: merge_persist_def settings_of_def drop_paid_def)

interpretation stays_ok: client_evolution E "stays_ok E" for E
  by unfold_locales
    (auto simp: stays_ok_def client_ok_def same_licensing_def clock_ok_def cache_ok_merge cache_ok_settings
      cache_ok_updates)

text \<open>The constructor establishes it, whatever the store returns.\<close>

lemma decode_blob_ok:
  assumes "in_range j" shows "cache_ok (decode_blob j)"
  using assms lease_in_ok [OF assms]
  by (auto simp: decode_blob_def cache_ok_def nonzero_def as_int_in64 in_range_jget pred_option_def)

lemma cache_ok_empty [simp]: "cache_ok empty_cache"
  by (simp add: cache_ok_def empty_cache_def)

lemma client_ok_refresh:
  assumes "client_ok c" "last_validated_online_atomic c = 0"
  shows "client_ok (snd (run_state (refresh_state_from_store E) c))"
proof -
  obtain r w where l: "e_load E (world c) = (r, w)" by force
  have base: "client_ok (c\<lparr>world := w, raw_state := s\<rparr>)" for s
    using assms by (simp add: client_ok_def)
  show ?thesis
  proof (cases r)
    case (Inl e)
    then show ?thesis using l base by (simp add: refresh_state_from_store_def)
  next
    case (Inr blob)
    show ?thesis
    proof (cases "blob = []")
      case True
      then show ?thesis using l Inr base by (simp add: refresh_state_from_store_def)
    next
      case False
      show ?thesis
      proof (cases "json_parse blob")
        case (Inl e)
        then show ?thesis using l Inr False base by (simp add: refresh_state_from_store_def)
      next
        case (Inr j)
        then have "cache_ok (decode_blob j)" using decode_blob_ok json_parse_in_range by blast
        then show ?thesis
          using l \<open>r = Inr blob\<close> False Inr assms
          by (simp add: refresh_state_from_store_def client_ok_def)
      qed
    qed
  qed
qed

lemma new_client_ok: "client_ok (new_client E g w)"
proof -
  have "client_ok (blank_client g w)"
    by (simp add: client_ok_def blank_client_def) (simp add: empty_cache_def)
  from client_ok_refresh [OF this, of E] show ?thesis
    by (simp add: new_client_def split_beta client_ok_def blank_client_def empty_cache_def)
qed

lemma reachable_ok:
  assumes "clock_ok E" "reachable E g c" shows "client_ok c"
proof -
  obtain w where "(api_step E)\<^sup>*\<^sup>* (new_client E g w) c" using assms(2) by (auto simp: reachable_def)
  from stays_ok.history_R [OF this] show ?thesis using assms(1) new_client_ok [of E g w] by (simp add: stays_ok_def)
qed

section \<open>Where settings and leases come from\<close>

text \<open>
  A setting pair is authentic when a trusted key signed it for this tenant and product, in an
  envelope inside its validity window at the moment \<open>t\<close>.
\<close>

definition authentic :: "'w env \<Rightarrow> Config \<Rightarrow> int option \<Rightarrow> bool option \<Rightarrow> bool" where
  "authentic E g days free \<longleftrightarrow>
     (\<exists>d f k pub issued expires sig t.
        days = Some d \<and> free = Some f \<and> trustedKeys g k = Some pub
        \<and> length (b64_decode_flexible pub) = 32 \<and> length (b64_decode_flexible sig) = 64
        \<and> e_sig E (bytes_of (config_canonical_payload k (tenantId g) (productId g) issued expires d f))
            (bytes_of (b64_decode_flexible sig)) (bytes_of (b64_decode_flexible pub))
        \<and> t \<in> range (e_now E)
        \<and> (expires = 0 \<or> i64 (t - 300) \<le> expires) \<and> (issued = 0 \<or> issued \<le> i64 (t + 300)))"

definition settings_signed :: "'w env \<Rightarrow> 'w client \<Rightarrow> 'w client \<Rightarrow> bool" where
  "settings_signed E c c' \<longleftrightarrow>
     cfg c' = cfg c \<and>
     (requireSignedConfig (cfg c) \<longrightarrow>
        (cached_server_trial_days (cache c') = cached_server_trial_days (cache c)
         \<and> cached_server_free_tier (cache c') = cached_server_free_tier (cache c))
        \<or> authentic E (cfg c) (cached_server_trial_days (cache c')) (cached_server_free_tier (cache c')))"

lemma verify_config_authentic:
  assumes "verify_config E c j = Inr ()" "requireSignedConfig (cfg c)"
  shows "authentic E (cfg c) (cached_server_trial_days (settings_of j k)) (cached_server_free_tier (settings_of j k))"
proof -
  let ?k = "as_string (jget j ''kid'')" and ?sig = "as_string (jget j ''signature'')"
  let ?issued = "as_int (jget j ''issued_at'')" and ?expires = "as_int (jget j ''expires_at'')"
  let ?d = "i32 (as_int (jget j ''trial_duration_days''))" and ?f = "as_bool (jget j ''free_tier_enabled'')"
  have has: "json_has j ''trial_duration_days''" "json_has j ''free_tier_enabled''"
    using assms by (auto simp: verify_config_def err_def Let_def split: if_splits)
  then obtain pub where pub: "trustedKeys (cfg c) ?k = Some pub"
    using assms by (cases "trustedKeys (cfg c) ?k") (auto simp: verify_config_def err_def Let_def split: if_splits)
  have ok: "length (b64_decode_flexible pub) = 32" "length (b64_decode_flexible ?sig) = 64"
      "e_sig E (bytes_of (config_canonical_payload ?k (tenantId (cfg c)) (productId (cfg c)) ?issued ?expires ?d ?f))
        (bytes_of (b64_decode_flexible ?sig)) (bytes_of (b64_decode_flexible pub))"
      "?expires = 0 \<or> i64 (e_now E (world c) - 300) \<le> ?expires"
      "?issued = 0 \<or> ?issued \<le> i64 (e_now E (world c) + 300)"
    using assms pub has by (auto simp: verify_config_def err_def Let_def split: if_splits)
  show ?thesis
    unfolding authentic_def
    by (rule exI [of _ ?d], rule exI [of _ ?f], rule exI [of _ ?k], rule exI [of _ pub], rule exI [of _ ?issued],
        rule exI [of _ ?expires], rule exI [of _ ?sig], rule exI [of _ "e_now E (world c)"])
      (use ok pub has in \<open>simp add: settings_of_def\<close>)
qed

interpretation settings: client_evolution E "settings_signed E" for E
proof unfold_locales
  fix E :: "'a env" and c :: "'a client" and j
  assume "verify_config E c j = Inr ()"
  from verify_config_authentic [OF this, of "cache c"]
  show "settings_signed E c (c\<lparr>cache := settings_of j (cache c)\<rparr>)"
    by (auto simp: settings_signed_def)
qed (auto simp: settings_signed_def same_licensing_def merge_persist_def drop_paid_def)

text \<open>A lease the configured keys vouch for, at any time.\<close>

definition vouched :: "'w env \<Rightarrow> Config \<Rightarrow> Lease \<Rightarrow> bool" where
  "vouched E g l \<longleftrightarrow>
     (\<exists>pub. trustedKeys g (kid l) = Some pub \<and> signature_ok (e_sig E) pub (signature l) (canonical_payload l))"

lemma trusted_iff_vouched: "is_trusted (verify_lease E c l) \<longleftrightarrow> vouched E (cfg c) l"
  by (simp add: verify_lease_def verify_trusted_iff vouched_def)

definition leases_vouched :: "'w env \<Rightarrow> 'w client \<Rightarrow> 'w client \<Rightarrow> bool" where
  "leases_vouched E c c' \<longleftrightarrow>
     cfg c' = cfg c \<and>
     (cached_lease (cache c') = cached_lease (cache c)
      \<or> pred_option (vouched E (cfg c)) (cached_lease (cache c')))"

interpretation leases: client_evolution E "leases_vouched E" for E
proof unfold_locales
  fix E :: "'a env" and c :: "'a client" and d
  assume "fresh_data E c d"
  from merge_fresh [OF this, of "cache c"]
  show "leases_vouched E c (c\<lparr>cache := merge_persist d (cache c)\<rparr>)"
    by (auto simp: leases_vouched_def trusted_iff_vouched)
qed (auto simp: leases_vouched_def same_licensing_def drop_paid_def settings_of_def)

end
