(* ===== verification/Scripted.thy ===== *)
theory Scripted
  imports Client_Inv
begin

text \<open>
  A concrete world for the witnesses, the counterpart of the test suite's \<open>FakeTransport\<close> and
  in-memory store: a clock that only sleeping moves, one stored text, and a script of replies (the
  network is down when it runs out). The signature primitive accepts exactly one signature text.
\<close>

record tworld =
  t_now :: int
  t_disk :: string
  t_replies :: "HttpResponse result list"

definition good_signature :: string where
  "good_signature = replicate 64 CHR ''s''"

definition scripted :: "tworld env" where
  "scripted =
     \<lparr>e_now = t_now,
      e_request = (\<lambda>r w. case t_replies w of
          [] \<Rightarrow> (err EC_Network ''offline'', w)
        | a # rest \<Rightarrow> (a, w\<lparr>t_replies := rest\<rparr>)),
      e_load = (\<lambda>w. (Inr (t_disk w), w)),
      e_save = (\<lambda>s w. (Inr (), w\<lparr>t_disk := s\<rparr>)),
      e_clear = (\<lambda>w. (Inr (), w\<lparr>t_disk := []\<rparr>)),
      e_sleep = (\<lambda>n w. w\<lparr>t_now := t_now w + int (n div 1000)\<rparr>),
      e_hwid = (\<lambda>w. None),
      e_rand_bytes = (\<lambda>n w. (replicate n 0, w)),
      e_rand64 = (\<lambda>w. (0, w)),
      e_spawn = (\<lambda>w. True),
      e_sig = (\<lambda>m s p. s = bytes_of good_signature),
      e_machine_name = ''studio'',
      e_platform = ''linux'',
      e_cores = 8,
      e_memory = 0,
      e_os_raw = ''6.8.0-45-generic'',
      e_arch = ''x86_64''\<rparr>"

definition test_config :: Config where
  "test_config = default_config\<lparr>tenantId := ''acme'', productId := ''synth'',
     trustedKeys := [''k1'' \<mapsto> base64_encode (replicate 32 CHR ''p'')], keylessHeartbeatIntervalMs := 0\<rparr>"

definition test_lease :: "string \<Rightarrow> int \<Rightarrow> Lease" where
  "test_lease st until = \<lparr>kid = ''k1'', licenseKeyHash = ''h'', instanceId = ''i-1'', issuedAt = 1,
     expiresAt = until, status = st, signature = base64_encode good_signature, entitlements = [''pro'']\<rparr>"

definition test_world :: "int \<Rightarrow> HttpResponse result list \<Rightarrow> tworld" where
  "test_world t rs = \<lparr>t_now = t, t_disk = [], t_replies = rs\<rparr>"

definition reply :: "int \<Rightarrow> string \<Rightarrow> HttpResponse result" where
  "reply st b = Inr \<lparr>http_status = st, body = b, headers = Map.empty\<rparr>"

lemma test_lease_fields [simp]:
  "expiresAt (test_lease st until) = until" "status (test_lease st until) = st"
  "entitlements (test_lease st until) = [''pro'']"
  by (simp_all add: test_lease_def)

text \<open>A licensed client, as after an activation at time 1000.\<close>

definition licensed_cache :: "Lease \<Rightarrow> cache" where
  "licensed_cache l = empty_cache\<lparr>cached_lease := Some l, cached_license_key := Some ''K-1'',
     cached_instance_id := Some ''i-1'', cached_last_validated_online := 1000\<rparr>"

definition licensed_client :: "Lease \<Rightarrow> tworld \<Rightarrow> tworld client" where
  "licensed_client l w = (blank_client test_config w)\<lparr>raw_state := Licensed, last_reported := Licensed,
     last_validated_online_atomic := 1000, cache := licensed_cache l\<rparr>"

lemma good_key:
  "length (b64_decode_flexible (base64_encode (replicate 32 CHR ''p''))) = 32"
  by (simp add: decode_flexible_encode)

lemma trusted_test_lease:
  assumes "cfg c = test_config"
  shows "is_trusted (verify_lease scripted c (test_lease st until))"
  using assms
  by (simp add: trusted_iff_vouched vouched_def signature_ok_def test_lease_def test_config_def scripted_def
      decode_flexible_encode good_signature_def)

lemma clock_untrusted_scripted:
  "clock_untrusted scripted c \<longleftrightarrow>
     last_validated_online_atomic c \<noteq> 0 \<and> clock_rolled_back (last_validated_online_atomic c) (t_now (world c))"
  by (simp add: clock_untrusted_def scripted_def)

end
