(* ===== verification/Client_Paid.thy ===== *)
theory Client_Paid
  imports Client_Inv Scripted
begin

text \<open>
  Why a client says \<open>Licensed\<close>. Everything an operation does to the network, the device and the
  settings leaves the paid license alone (\<open>paid_same\<close>); the changes that remain keep the invariant
  that a \<open>Licensed\<close> state rests on a cached lease a trusted key signed. The two ways the code has of
  breaking it, an activation the server answers without a lease and a deactivation whose store
  fails, are hypotheses of the invariant and theorems of their own.
\<close>

section \<open>Calm changes\<close>

definition paid_same :: "'w client \<Rightarrow> 'w client \<Rightarrow> bool" where
  "paid_same c c' \<longleftrightarrow>
     cfg c' = cfg c \<and> raw_state c' = raw_state c
     \<and> cached_lease (cache c') = cached_lease (cache c)
     \<and> cached_expires_at (cache c') = cached_expires_at (cache c)
     \<and> cached_instance_id (cache c') = cached_instance_id (cache c)
     \<and> cached_license_key (cache c') = cached_license_key (cache c)
     \<and> cached_last_validated_online (cache c') = cached_last_validated_online (cache c)
     \<and> last_validated_online_atomic c' = last_validated_online_atomic c"

interpretation calm: calm_evolution E paid_same for E
  by unfold_locales (simp_all add: paid_same_def same_licensing_def settings_of_def)

lemma paid_same_channel: "same_licensing c c' \<Longrightarrow> paid_same c c'"
  by (simp add: paid_same_def same_licensing_def)

lemma calm_fields:
  assumes "paid_same c c'"
  shows "cfg c' = cfg c" "raw_state c' = raw_state c" "cached_lease (cache c') = cached_lease (cache c)"
    "cached_license_key (cache c') = cached_license_key (cache c)"
    "cached_last_validated_online (cache c') = cached_last_validated_online (cache c)"
  using assms by (simp_all add: paid_same_def)

section \<open>A Licensed state is backed by a lease\<close>

definition backed :: "'w env \<Rightarrow> 'w client \<Rightarrow> bool" where
  "backed E c \<longleftrightarrow> (raw_state c = Licensed \<longrightarrow>
     (\<exists>l. cached_lease (cache c) = Some l \<and> vouched E (cfg c) l \<and> status l = ''active''))"

definition backs :: "'w env \<Rightarrow> 'w client \<Rightarrow> 'w client \<Rightarrow> bool" where
  "backs E c c' \<longleftrightarrow> (backed E c \<longrightarrow> backed E c')"

interpretation backs: evolution "backs E" for E
  by unfold_locales (auto simp: backs_def)

lemma backs_paid_same: "paid_same c c' \<Longrightarrow> backs E c c'"
  by (simp add: backs_def backed_def paid_same_def)

lemma backs_calm: "calm.keeps m \<Longrightarrow> backs.keeps E m"
  unfolding evolution.keeps_def [OF backs.evolution_axioms] by (blast intro: backs_paid_same calm.keepsD)

text \<open>Setting a state keeps the invariant when a \<open>Licensed\<close> has its lease in the cache.\<close>

lemma backed_set_state:
  assumes "s = Licensed \<Longrightarrow> \<exists>l. cached_lease (cache c) = Some l \<and> vouched E (cfg c) l \<and> status l = ''active''"
  shows "backed E (snd (run_state (set_client_state E s) c))"
  using assms by (simp add: backed_def)

lemma resolve_with_trial_licensed: "resolve_with_trial E c s = Licensed \<longleftrightarrow> s = Licensed"
  by (auto simp: resolve_with_trial_def split: TrialStatus.split)

lemma resolve_lease_licensed:
  assumes "resolve_from_lease E c (Some l) = Licensed"
  shows "vouched E (cfg c) l" "status l = ''active''"
  using assms by (auto simp: resolve_from_lease_def Let_def trusted_iff_vouched split: if_splits)

lemma resolve_current_licensed:
  "resolve_current_state E c = Licensed \<Longrightarrow> raw_state c = Licensed"
  by (auto simp: resolve_current_state_def resolve_with_trial_licensed split: if_splits)

lemma backs_set_other: "s \<noteq> Licensed \<Longrightarrow> backs.keeps E (set_client_state E s)"
  by (simp add: evolution.keeps_def [OF backs.evolution_axioms] backs_def backed_def)

lemma backs_set_current:
  "backs.keeps E (do { s \<leftarrow> read (resolve_current_state E); _ \<leftarrow> set_client_state E s; k s })"
  if "\<And>s. backs.keeps E (k s)"
  unfolding evolution.keeps_def [OF backs.evolution_axioms]
proof
  fix c
  let ?s = "resolve_current_state E c"
  have "backs E c (snd (run_state (set_client_state E ?s) c))"
    using resolve_current_licensed [of E c] by (auto simp: backs_def backed_def)
  from backs.evolves_trans [OF this backs.keepsD [OF that]]
  show "backs E c (snd (run_state (do { s \<leftarrow> read (resolve_current_state E); _ \<leftarrow> set_client_state E s; k s }) c))"
    by (simp add: split_beta)
qed

section \<open>Operations\<close>

lemma snd_save_cache [simp]:
  "snd (run_state (save_cache E) c) = c\<lparr>world := snd (e_save E (build_blob (cache c)) (world c))\<rparr>"
  by (simp add: save_cache_def)

lemma fst_save_cache [simp]:
  "fst (run_state (save_cache E) c) = fst (e_save E (build_blob (cache c)) (world c))"
  by (simp add: save_cache_def)

lemma keep_trusted_lease:
  assumes "lease_ok l" "clock_stamp E stamp"
  shows "let c' = snd (run_state (keep_trusted E l ex stamp) c) in
    cfg c' = cfg c \<and> raw_state c' = raw_state c
    \<and> (if vouched E (cfg c) l then cached_lease (cache c') = Some l else c' = c)"
proof -
  let ?d = "\<lparr>lease_json = Some (lease_to_json l), pd_expires_at = ex,
      pd_instance_id = cached_instance_id (cache c), pd_license_key = None\<rparr>"
  have stamp: "snd (run_state stamp d) = d" for d
    using assms(2) by (simp add: clock_stamp_def)
  show ?thesis
    by (simp add: keep_trusted_def trusted_iff_vouched persist_def split_beta stamp
        save_last_validated_online_def merge_persist_def assms(1) supplied_def)
qed

lemma backs_keepsI: "(\<And>c. backed E c \<Longrightarrow> backed E (snd (run_state m c))) \<Longrightarrow> backs.keeps E m"
  by (simp add: evolution.keeps_def [OF backs.evolution_axioms] backs_def)

lemma backs_keep_and_resolve:
  assumes "lease_ok l" "clock_stamp E stamp" "\<And>s. backs.keeps E (k s)"
  shows "backs.keeps E (do {
    _ \<leftarrow> keep_trusted E l ex stamp;
    s \<leftarrow> read (\<lambda>c. resolve_with_trial E c (resolve_from_lease E c (Some l)));
    _ \<leftarrow> set_client_state E s;
    k s })" (is "backs.keeps E ?m")
proof (rule backs_keepsI)
  fix c
  define c2 where "c2 = snd (run_state (keep_trusted E l ex stamp) c)"
  define s where "s = resolve_with_trial E c2 (resolve_from_lease E c2 (Some l))"
  have c2: "cfg c2 = cfg c" "vouched E (cfg c) l \<Longrightarrow> cached_lease (cache c2) = Some l"
    using keep_trusted_lease [OF assms(1,2), of ex c] by (simp_all add: c2_def Let_def)
  have "backed E (snd (run_state (set_client_state E s) c2))"
    using resolve_lease_licensed [of E c2 l] c2 by (auto simp: s_def backed_def resolve_with_trial_licensed)
  with backs.keepsD [OF assms(3)]
  have "backed E (snd (run_state (k s) (snd (run_state (set_client_state E s) c2))))"
    unfolding backs_def by blast
  then show "backed E (snd (run_state ?m c))"
    by (simp add: split_beta c2_def s_def)
qed

lemma backs_keep_state:
  assumes "\<And>s. backs.keeps E (k s)"
  shows "backs.keeps E (do {
    s \<leftarrow> read (\<lambda>c. resolve_with_trial E c (raw_state c)); _ \<leftarrow> set_client_state E s; k s })" (is "backs.keeps E ?m")
proof (rule backs_keepsI)
  fix c assume c: "backed E c"
  define s where "s = resolve_with_trial E c (raw_state c)"
  have "backed E (snd (run_state (set_client_state E s) c))"
    using c by (auto simp: s_def backed_def resolve_with_trial_licensed)
  with backs.keepsD [OF assms]
  have "backed E (snd (run_state (k s) (snd (run_state (set_client_state E s) c))))"
    unfolding backs_def by blast
  then show "backed E (snd (run_state ?m c))" by (simp add: split_beta s_def)
qed

lemma backs_absorb_validation:
  assumes "in_range j" "clock_stamp E stamp"
  shows "backs.keeps E (absorb_validation E j stamp)"
proof -
  have "backs.keeps E (do {
     _ \<leftarrow> (case lease_in j ''lease'' of None \<Rightarrow> skip | Some l \<Rightarrow> keep_trusted E l (expires_in j) stamp);
     s \<leftarrow> read (\<lambda>c. resolve_with_trial E c (resolve_from_lease E c (lease_in j ''lease'')));
     _ \<leftarrow> set_client_state E s;
     State_Monad.return s })"
  proof (cases "lease_in j ''lease''")
    case None
    then show ?thesis
      using backs_keep_state [where k = State_Monad.return, OF backs.keeps_return]
      by (simp add: resolve_from_lease_def skip_def)
  next
    case (Some l)
    then show ?thesis
      using backs_keep_and_resolve [where k = State_Monad.return, OF lease_in_ok [OF assms(1) Some] assms(2)
          backs.keeps_return] by simp
  qed
  then show ?thesis
    unfolding absorb_validation_def Let_def
    by (intro backs.keeps_bind [OF backs_calm [OF calm.keeps_apply_config]])
qed

lemma backs_rejection:
  assumes "t \<in> range (e_now E)" shows "backs.keeps E (handle_validate_rejection E b t)"
proof -
  have clear: "backs.keeps E (do { _ \<leftarrow> clear_lease E; _ \<leftarrow> set_client_state E Invalid; State_Monad.return (Some Invalid) })"
    by (rule backs_keepsI) (simp add: backed_def split_beta)
  show ?thesis
    unfolding handle_validate_rejection_def
  proof (intro backs.keeps_sum backs.keeps_option backs.keeps_return clear)
    fix j l assume "json_parse b = Inr j" "lease_in j ''lease'' = Some l"
    then have "lease_ok l" using lease_in_ok json_parse_in_range by blast
    moreover have "clock_stamp E (State_Monad.return t)" using assms by (auto simp: clock_stamp_def)
    ultimately show "backs.keeps E (do {
               _ \<leftarrow> keep_trusted E l (expires_in j) (State_Monad.return t);
               s \<leftarrow> read (\<lambda>c. resolve_with_trial E c (resolve_from_lease E c (Some l)));
               _ \<leftarrow> set_client_state E s;
               State_Monad.return (Some s) })"
      by (rule backs_keep_and_resolve) (rule backs.keeps_return)
  qed
qed

lemmas backs_calm_parts =
  backs_calm [OF calm.keeps_notify] backs_calm [OF calm.keeps_send]
  backs_calm [OF calm.keeps_apply_config] backs_calm [OF calm.keeps_machine_hash]
  backs_calm [OF calm.keeps_free_tier] backs_calm [OF calm.keeps_validate_body]
  backs_calm [OF calm.keeps_activate_fields] backs_calm [OF calm.keeps_save]
  backs_calm [OF calm.keeps_sleep] backs_calm [OF calm.keeps_report(1)]
  backs_calm [OF calm.keeps_report(2)] backs_calm [OF calm.keeps_report(3)]
  backs_calm [OF calm.keeps_report(4)]

lemma backs_validate: "backs.keeps E (validate E)"
  unfolding validate_def
  by (intro backs.keeps_bind_now backs.keeps_intros backs_calm_parts backs_rejection backs_absorb_validation)
    (auto intro: json_parse_in_range)

lemma backs_downgrade: "backs.keeps E (downgrade E)"
  unfolding downgrade_def by (intro backs.keeps_intros backs_set_other backs_calm_parts) simp

lemma backs_reconcile: "backs.keeps E (validate_and_reconcile E)"
  unfolding validate_and_reconcile_def apply_offline_grace_def
  by (intro backs.keeps_bind_now backs.keeps_intros backs_calm_parts backs_rejection backs_absorb_validation
      backs_downgrade)
    (auto intro: json_parse_in_range)

lemma backs_resolve_locally: "backs.keeps E (resolve_locally E)"
  unfolding resolve_locally_def by (intro backs_set_current backs_calm_parts)

lemma backs_launch: "backs.keeps E (checkOnLaunch E)"
  unfolding checkOnLaunch_def
  by (intro backs.keeps_intros backs_reconcile backs_calm_parts backs_resolve_locally)

lemma backs_refresh: "backs.keeps E (refreshIfNeeded E)"
  unfolding refreshIfNeeded_def
  by (intro backs.keeps_intros backs_reconcile backs_calm_parts backs_resolve_locally)

lemma backs_set_current_only:
  "backs.keeps E (do { s \<leftarrow> read (resolve_current_state E); set_client_state E s })"
  using backs_set_current [where k = "\<lambda>_. skip", OF backs.keeps_skip] by (simp add: skip_def)

lemma backs_fetchConfig: "backs.keeps E (fetchConfig E)"
  unfolding fetchConfig_def by (intro backs.keeps_intros backs_calm_parts backs_set_current)

lemma backs_keyless: "backs.keeps E (reportKeylessState E ks)"
  unfolding reportKeylessState_def
  by (intro backs.keeps_Let backs.keeps_bind_now backs.keeps_intros backs_calm_parts backs_set_current_only
      backs.keeps_set_cache)
    (simp add: backs_def backed_def)

lemma backs_tick: "backs.keeps E (heartbeat_tick E)"
  unfolding heartbeat_tick_def by (intro backs.keeps_intros backs_keyless)

lemma backs_startTrial: "backs.keeps E (startTrial E)"
  unfolding startTrial_def
  by (intro backs.keeps_bind_now backs.keeps_intros backs_calm_parts backs_resolve_locally backs.keeps_set_cache)
    (simp add: backs_def backed_def)

lemma backs_active: "backs.keeps E (activeRevalidate E)"
  unfolding activeRevalidate_def
  by (intro backs.keeps_intros backs_validate backs.keeps_modify) (simp add: backs_def backed_def)

lemma backs_upgrade: "backs.keeps E (refreshAfterUpgrade E n t i)"
proof -
  have "backs.keeps E (upgrade_loop E b s iv d m)" for b s iv d m
  proof (induction m)
    case (Suc m)
    show ?case unfolding upgrade_loop.simps
      by (intro backs.keeps_intros backs_validate backs_calm_parts Suc)
  qed (simp add: backs.keeps_return)
  then show ?thesis unfolding refreshAfterUpgrade_def by (intro backs.keeps_Let backs.keeps_intros)
qed

subsection \<open>Activation and deactivation\<close>

text \<open>The two hypotheses: an accepted activation comes with a lease, and the store does its work.\<close>

definition answers_with_lease :: "'w env \<Rightarrow> bool" where
  "answers_with_lease E \<longleftrightarrow>
     (\<forall>r w resp j. fst (e_request E r w) = Inr resp \<longrightarrow> json_parse (body resp) = Inr j \<longrightarrow>
        as_bool (jget j ''activated'') \<longrightarrow> 0 < jsize (jget j ''lease''))"

definition store_works :: "'w env \<Rightarrow> bool" where
  "store_works E \<longleftrightarrow> (\<forall>s w. is_ok (fst (e_save E s w)) \<and> is_ok (fst (e_clear E w)))"

lemma retry_loop_answer:
  "fst (run_state (retry_loop E r n attempt lst) c) = lst
   \<or> (\<exists>w. fst (run_state (retry_loop E r n attempt lst) c) = fst (e_request E r w))"
proof (induction n arbitrary: attempt lst c)
  case (Suc n)
  show ?case
    unfolding retry_loop.simps
    by (simp add: Let_def split_beta) (metis Suc.IH)
qed simp

lemma send_run:
  "\<exists>r c'. run_state (send E verb action b) c
     = run_state (retry_loop E r RETRY_MAX_ATTEMPTS 1 (err EC_Network ''no attempt made'')) c'"
  by (simp add: send_def request_with_retry_def split_beta) blast

lemma send_answer:
  assumes "fst (run_state (send E verb action b) c) = Inr resp"
  shows "\<exists>r w. fst (e_request E r w) = Inr resp"
proof -
  obtain r c' where "run_state (send E verb action b) c
      = run_state (retry_loop E r RETRY_MAX_ATTEMPTS 1 (err EC_Network ''no attempt made'')) c'"
    using send_run by blast
  with retry_loop_answer [of E r RETRY_MAX_ATTEMPTS 1 "err EC_Network ''no attempt made''" c'] assms
  show ?thesis by (auto simp: err_def) blast
qed

lemma backs_absorb_activation:
  assumes "lease_ok l"
  shows "backs.keeps E (absorb_activation E key (Some l) ex iid)"
proof (rule backs_keepsI)
  fix c
  define c2 where "c2 = (if vouched E (cfg c) l then
      snd (run_state (do { _ \<leftarrow> persist E \<lparr>lease_json = Some (lease_to_json l), pd_expires_at = ex,
             pd_instance_id = iid, pd_license_key = Some key\<rparr>; t \<leftarrow> now E; save_last_validated_online E t }) c)
      else c)"
  define s where "s = resolve_with_trial E c2 (resolve_from_lease E c (Some l))"
  have c2: "cfg c2 = cfg c" "vouched E (cfg c) l \<Longrightarrow> cached_lease (cache c2) = Some l"
    using assms by (simp_all add: c2_def persist_def merge_persist_def save_last_validated_online_def split_beta supplied_def)
  have "snd (run_state (absorb_activation E key (Some l) ex iid) c) = snd (run_state (set_client_state E s) c2)"
    by (simp add: absorb_activation_def split_beta trusted_iff_vouched c2_def s_def report_state_def)
  then show "backed E (snd (run_state (absorb_activation E key (Some l) ex iid) c))"
    using resolve_lease_licensed [of E c l] c2 by (auto simp: s_def backed_def resolve_with_trial_licensed)
qed

lemma backs_activate:
  assumes "answers_with_lease E" shows "backs.keeps E (activate E key)"
proof (rule backs_keepsI)
  fix c assume c: "backed E c"
  obtain b c1 where b: "run_state (activate_fields E key) c = (b, c1)" by force
  obtain hr c2 where hr: "run_state (send E ''POST'' ''activate'' b) c1 = (hr, c2)" by force
  have c2: "backed E c2"
    using c backs.keeps_run [OF backs_calm [OF calm.keeps_activate_fields] b]
      backs.keeps_run [OF backs_calm [OF calm.keeps_send] hr] by (simp add: backs_def)
  show "backed E (snd (run_state (activate E key) c))"
  proof (cases hr)
    case (Inl e)
    then show ?thesis using c2 by (simp add: activate_def b hr)
  next
    case (Inr resp)
    have answered: "\<exists>r w. fst (e_request E r w) = Inr resp"
      using send_answer [of E "''POST''" "''activate''" b c1 resp] hr Inr by simp
    show ?thesis
    proof (cases "json_parse (body resp)")
      case (Inl e)
      then show ?thesis using c2 Inr by (simp add: activate_def b hr)
    next
      case (Inr j)
      show ?thesis
      proof (cases "http_status resp \<noteq> 200 \<or> \<not> as_bool (jget j ''activated'')")
        case True
        then show ?thesis
          using c2 \<open>hr = Inr resp\<close> Inr by (auto simp: activate_def b hr keep_reported_def report_state_def)
      next
        case False
        then have "0 < jsize (jget j ''lease'')"
          using assms answered Inr by (auto simp: answers_with_lease_def)
        then have "activate_lease j \<noteq> Inr None"
          by (auto simp: activate_lease_def Let_def split: sum.splits)
        then consider (bad) e where "activate_lease j = Inl e" | (good) l where "activate_lease j = Inr (Some l)"
          by (cases "activate_lease j") auto
        then show ?thesis
        proof cases
          case bad
          then show ?thesis using c2 \<open>hr = Inr resp\<close> Inr False by (simp add: activate_def b hr)
        next
          case good
          then have "lease_ok l" using activate_lease_ok json_parse_in_range Inr by blast
          then have "backed E (snd (run_state (absorb_activation E key (Some l) (expires_in j)
                (nonempty (as_string (jget j ''instance_id'')))) c2))"
            using backs.keepsD [OF backs_absorb_activation] c2 unfolding backs_def by blast
          then show ?thesis
            using good \<open>hr = Inr resp\<close> Inr False by (simp add: activate_def b hr)
        qed
      qed
    qed
  qed
qed

lemma backs_deactivate:
  assumes "store_works E" shows "backs.keeps E (deactivate E)"
proof (rule backs_keepsI)
  fix c
  have ok: "is_ok (fst (e_save E s w))" "is_ok (fst (e_clear E w))" for s w
    using assms by (simp_all add: store_works_def)
  obtain x c1 where r: "run_state (release_seat E) c = (x, c1)" by force
  show "backed E (snd (run_state (deactivate E) c))"
    using ok by (simp add: deactivate_def r split_beta backed_def resolve_with_trial_licensed)
qed

section \<open>Over histories\<close>

lemma backed_new_client: "backed E (new_client E g w)"
proof -
  have "backed E (snd (run_state (refresh_state_from_store E) (blank_client g w)))"
  proof (cases "fst (e_load E w)")
    case (Inl e)
    then show ?thesis by (simp add: refresh_state_from_store_def blank_client_def backed_def)
  next
    case (Inr blob)
    then show ?thesis
      by (auto simp: refresh_state_from_store_def blank_client_def backed_def resolve_with_trial_licensed
          bound_offline_def derive_state_from_verify_def trusted_iff_vouched Let_def
          split: sum.splits option.splits if_splits)
  qed
  then show ?thesis by (simp add: new_client_def split_beta backed_def)
qed

lemma backs_api_call:
  assumes "answers_with_lease E" "store_works E" "api_call E c c'" shows "backs E c c'"
  using assms(3)
proof (cases rule: api_call.cases)
  case (st_subscribe i)
  then show ?thesis using same.keeps_run [OF same_listener_ops(1)] backs_paid_same paid_same_channel by blast
next
  case (st_on event i)
  then show ?thesis using same.keeps_run [OF same_listener_ops(3)] backs_paid_same paid_same_channel by blast
next
  case (st_lifecycle f i)
  then show ?thesis using same.keeps_run [OF same_listener_ops(2)] backs_paid_same paid_same_channel by blast
next
  case (st_unsubscribe sub i)
  then show ?thesis using same.keeps_run [OF same_listener_ops(4)] backs_paid_same paid_same_channel by blast
next
  case (st_stop v)
  then show ?thesis using same.keeps_run [OF same_listener_ops(5)] backs_paid_same paid_same_channel by blast
next
  case (st_free_tier s)
  then show ?thesis using backs.keeps_run [OF backs_calm [OF calm.keeps_free_tier]] by blast
qed (auto intro: backs.keeps_run backs_activate [OF assms(1)] backs_deactivate [OF assms(2)] backs_validate
    backs_launch backs_refresh backs_fetchConfig backs_keyless backs_tick backs_startTrial backs_active backs_upgrade)

lemma backs_api_step:
  assumes "answers_with_lease E" "store_works E" "api_step E c c'" shows "backs E c c'"
  using assms(3)
proof (cases rule: api_step.cases)
  case (st_world w)
  then show ?thesis by (simp add: backs_def backed_def)
next
  case st_call
  then show ?thesis by (rule backs_api_call [OF assms(1,2)])
qed

lemma reachable_cfg: "reachable E g c \<Longrightarrow> cfg c = g"
proof -
  have "cfg (new_client E g w) = g" for w
    by (simp add: new_client_def split_beta refresh_state_from_store_def blank_client_def split: sum.splits)
  then show "reachable E g c \<Longrightarrow> cfg c = g"
    using kept.history_R unfolding reachable_def kept_def by metis
qed

lemma reachable_backed:
  assumes "reachable E g c" "answers_with_lease E" "store_works E" shows "backed E c"
proof -
  obtain w where "(api_step E)\<^sup>*\<^sup>* (new_client E g w) c" using assms(1) by (auto simp: reachable_def)
  then show ?thesis
  proof (induction rule: rtranclp_induct)
    case base
    show ?case by (rule backed_new_client)
  next
    case (step y z)
    then show ?case using backs_api_step [OF assms(2,3)] by (auto simp: backs_def)
  qed
qed

text \<open>
  C1. A client that answers \<open>Licensed\<close>, after any sequence of public calls and whatever the network, the
  disk and the clock did in between, holds a lease with status active that a configured key signed,
  and its clock has not been turned back: provided the server never accepts an activation without
  sending a lease and the store's writes succeed.
\<close>
theorem licensed_is_backed:
  assumes "reachable E g c" "answers_with_lease E" "store_works E" "client_state E c = Licensed"
  shows "\<exists>l. cachedLease c = Some l \<and> vouched E g l \<and> status l = ''active'' \<and> \<not> clock_untrusted E c"
proof -
  have "raw_state c = Licensed" "\<not> clock_untrusted E c"
    using assms(4) by (auto simp: client_state_def split: if_splits)
  then show ?thesis
    using reachable_backed [OF assms(1-3)] reachable_cfg [OF assms(1)] by (auto simp: backed_def cachedLease_def)
qed

end
