(* ===== verification/Client_Restart.thy ===== *)
theory Client_Restart
  imports Client_Paid
begin

text \<open>
  Construction: what a client is after loading its store, from the blob an earlier client wrote and
  from anything else; and what every history of calls after it preserves.
\<close>

section \<open>A client resumed from a cache\<close>

definition loaded :: "Config \<Rightarrow> cache \<Rightarrow> 'w \<Rightarrow> 'w client" where
  "loaded g k w = (blank_client g w)\<lparr>cache := k, last_validated_online_atomic := cached_last_validated_online k\<rparr>"

definition paid_state :: "'w env \<Rightarrow> 'w client \<Rightarrow> State" where
  "paid_state E c = bound_offline E c (case cached_lease (cache c) of
     None \<Rightarrow> Invalid | Some l \<Rightarrow> derive_state_from_verify l (verify_lease E c l))"

definition resumed :: "'w env \<Rightarrow> Config \<Rightarrow> cache \<Rightarrow> 'w \<Rightarrow> 'w client" where
  "resumed E g k w =
     (let c = loaded g k w; c1 = c\<lparr>raw_state := resolve_with_trial E c (paid_state E c)\<rparr>
      in c1\<lparr>last_reported := client_state E c1\<rparr>)"

lemma new_client_decodes:
  assumes "e_load E w = (Inr blob, w')" "blob \<noteq> []" "json_parse blob = Inr j"
  shows "new_client E g w = resumed E g (decode_blob j) w'"
proof -
  let ?k = "decode_blob j"
  have "run_state (refresh_state_from_store E) (blank_client g w) = ((),
      (loaded g ?k w')\<lparr>raw_state := resolve_with_trial E (loaded g ?k w') (paid_state E (loaded g ?k w'))\<rparr>)"
    using assms
    by (cases "cached_last_validated_online ?k = 0")
      (simp_all add: refresh_state_from_store_def loaded_def paid_state_def blank_client_def)
  then show ?thesis by (simp add: new_client_def resumed_def Let_def)
qed

lemma new_client_resumes:
  assumes "cache_ok k" "e_load E w = (Inr (build_blob k), w')"
  shows "new_client E g w = resumed E g (canonical_cache k) w'"
  using new_client_decodes [OF assms(2) build_blob_nonempty parse_build_blob [OF assms(1)]]
    decode_blob_value [OF assms(1)] by simp

lemma new_client_unreadable:
  assumes "e_load E w = (r, w')" "\<nexists>blob j. r = Inr blob \<and> blob \<noteq> [] \<and> json_parse blob = Inr j"
  shows "new_client E g w = blank_client g w'"
proof -
  have "run_state (refresh_state_from_store E) (blank_client g w) = ((), blank_client g w')"
    using assms
    by (cases r) (auto simp: refresh_state_from_store_def blank_client_def split: sum.split)
  then show ?thesis
    by (simp add: new_client_def client_state_def clock_untrusted_def blank_client_def)
qed

lemma new_client_cases:
  obtains (blank) w' where "new_client E g w = blank_client g w'"
  | (stored) j w' where "new_client E g w = resumed E g (decode_blob j) w'"
proof -
  obtain r w' where l: "e_load E w = (r, w')" by force
  show ?thesis
  proof (cases "\<exists>blob j. r = Inr blob \<and> blob \<noteq> [] \<and> json_parse blob = Inr j")
    case True
    then obtain blob j where "r = Inr blob" "blob \<noteq> []" "json_parse blob = Inr j" by blast
    with l have "new_client E g w = resumed E g (decode_blob j) w'" by (simp add: new_client_decodes)
    then show ?thesis by (rule stored)
  next
    case False
    with new_client_unreadable [OF l] have "new_client E g w = blank_client g w'" by simp
    then show ?thesis by (rule blank)
  qed
qed

lemma resumed_simps [simp]:
  "cache (resumed E g k w) = k" "cfg (resumed E g k w) = g" "world (resumed E g k w) = w"
  "last_validated_online_atomic (resumed E g k w) = cached_last_validated_online k"
  "raw_state (resumed E g k w) = resolve_with_trial E (loaded g k w) (paid_state E (loaded g k w))"
  by (simp_all add: resumed_def loaded_def Let_def blank_client_def)

lemma loaded_simps [simp]:
  "cache (loaded g k w) = k" "cfg (loaded g k w) = g" "world (loaded g k w) = w"
  by (simp_all add: loaded_def blank_client_def)

text \<open>What is resolved depends on the cache, the configuration and the moment only.\<close>

lemma resolve_view:
  assumes "cache c = cache d" "cfg c = cfg d" "world c = world d"
  shows "resolve_with_trial E c s = resolve_with_trial E d s" "paid_state E c = paid_state E d"
    "checkTrial E c = checkTrial E d"
  unfolding resolve_with_trial_def paid_state_def checkTrial_def effectiveTrialDurationDays_def
    effectiveFreeTierEnabled_def days_left_from_def bound_offline_def verify_lease_def assms
  by (rule refl)+

section \<open>Restarting\<close>

text \<open>
  Restarting loses nothing and decides by the rules: for every client any history of calls can reach,
  a new client that finds its blob on disk holds the same cache (an empty string or zero timestamp
  read back as absent), and its state is the one its cached lease, the offline bound, the trial and
  the free tier give at that moment.
\<close>
theorem restart_restores:
  assumes "reachable E g c" "clock_ok E" "e_load E w = (Inr (build_blob (cache c)), w')"
  shows "let c' = new_client E g w in
    cache c' = canonical_cache (cache c) \<and> cfg c' = cfg c
    \<and> raw_state c' = resolve_with_trial E c' (paid_state E c')
    \<and> (cached_last_validated_online (cache c) \<noteq> 0
         \<and> clock_rolled_back (cached_last_validated_online (cache c)) (e_now E w') \<longrightarrow> client_state E c' = Invalid)"
proof -
  have "cache_ok (cache c)" using reachable_ok [OF assms(2,1)] by (simp add: client_ok_def)
  then have eq: "new_client E g w = resumed E g (canonical_cache (cache c)) w'"
    using assms(3) by (rule new_client_resumes)
  let ?r = "resumed E g (canonical_cache (cache c)) w'" and ?l = "loaded g (canonical_cache (cache c)) w'"
  have "resolve_with_trial E ?r (paid_state E ?r) = resolve_with_trial E ?l (paid_state E ?l)"
    by (simp add: resolve_view [of ?r ?l])
  then show ?thesis
    using reachable_cfg [OF assms(1)]
    by (simp add: eq Let_def client_state_def clock_untrusted_def canonical_cache_def)
qed

text \<open>A scripted world with a 64-bit clock, and clients started over a disk.\<close>

definition scripted64 :: "tworld env" where
  "scripted64 = scripted\<lparr>e_now := \<lambda>w. i64 (t_now w)\<rparr>"

definition disk_world :: "int \<Rightarrow> string \<Rightarrow> tworld" where
  "disk_world t d = \<lparr>t_now = t, t_disk = d, t_replies = []\<rparr>"

definition trial_cache :: cache where
  "trial_cache = empty_cache\<lparr>cached_trial_start := Some 1000, cached_server_trial_days := Some 14\<rparr>"

lemma reachable_new: "reachable E g (new_client E g w)"
  unfolding reachable_def by blast

lemma clock_ok_scripted64: "clock_ok scripted64"
  by (simp add: clock_ok_def scripted64_def)

lemma load_scripted64 [simp]: "e_load scripted64 (disk_world t d) = (Inr d, disk_world t d)"
  by (simp add: scripted64_def scripted_def disk_world_def)

lemma trial_cache_facts: "cache_ok trial_cache" "canonical_cache trial_cache = trial_cache"
  by (simp_all add: trial_cache_def cache_ok_def empty_cache_def in64_def in32_def INT64_MIN_def INT64_MAX_def
      canonical_cache_def nonzero_def)

lemma trial_cache_fields [simp]:
  "cached_trial_start trial_cache = Some 1000" "cached_server_trial_days trial_cache = Some 14"
  by (simp_all add: trial_cache_def)

lemma cache_new_trial: "cache (new_client scripted64 g (disk_world t (build_blob trial_cache))) = trial_cache"
  using new_client_resumes [OF trial_cache_facts(1), of scripted64 _ _ g] trial_cache_facts(2) by simp

theorem restart_restores_witness:
  "let c = new_client scripted64 test_config (disk_world 90000 (build_blob trial_cache));
       c' = new_client scripted64 test_config (disk_world 100000 (build_blob (cache c)))
   in cache c' = trial_cache \<and> raw_state c' = resolve_with_trial scripted64 c' (paid_state scripted64 c')"
  using restart_restores [where c = "new_client scripted64 test_config (disk_world 90000 (build_blob trial_cache))",
      OF reachable_new clock_ok_scripted64 load_scripted64 [of 100000]]
  by (simp add: Let_def cache_new_trial trial_cache_facts)

text \<open>
  C4. A client that answers \<open>Licensed\<close> right after construction, whatever was on disk, found there a lease
  a configured key signed, with status active and not expired beyond the tolerance; and where the
  product bounds offline use, a recorded server contact that is not in the future and at most
  \<open>maxOfflineDays\<close> old.
\<close>
theorem launch_is_bounded:
  assumes "client_state E (new_client E g w) = Licensed"
  shows "let c = new_client E g w; t = e_now E (world c); anchor = cached_last_validated_online (cache c) in
    \<exists>l. cachedLease c = Some l \<and> vouched E g l \<and> status l = ''active'' \<and> t \<le> i64 (expiresAt l + 300)
      \<and> (0 < maxOfflineDays g \<longrightarrow>
           anchor \<noteq> 0 \<and> \<not> clock_rolled_back anchor t \<and> i64 (t - anchor) \<le> maxOfflineDays g * 86400)"
proof -
  have raw: "raw_state (new_client E g w) = Licensed"
    using assms by (simp add: client_state_def split: if_splits)
  show ?thesis
  proof (cases rule: new_client_cases [of E g w])
    case (blank w')
    then show ?thesis using raw by (simp add: blank_client_def)
  next
    case (stored j w')
    define k where "k = decode_blob j"
    have "paid_state E (loaded g k w') = Licensed"
      using raw stored by (simp add: k_def resolve_with_trial_licensed)
    then obtain l where l: "cached_lease k = Some l"
      "derive_state_from_verify l (verify_lease E (loaded g k w') l) = Licensed"
      "0 < maxOfflineDays g \<Longrightarrow> cached_last_validated_online k \<noteq> 0
         \<and> \<not> clock_rolled_back (cached_last_validated_online k) (e_now E w')
         \<and> i64 (e_now E w' - cached_last_validated_online k) \<le> maxOfflineDays g * 86400"
      by (auto simp: paid_state_def bound_offline_def Let_def split: option.splits if_splits)
    then have "vouched E g l" "status l = ''active''" "e_now E w' \<le> i64 (expiresAt l + 300)"
      by (auto simp: derive_state_from_verify_def trusted_iff_vouched split: if_splits)
        (simp add: verify_lease_def expired_verify)
    then show ?thesis using l by (simp add: stored k_def [symmetric] Let_def cachedLease_def)
  qed
qed

text \<open>A server that answers every request with a signed lease, and a disk that holds it.\<close>

definition offer :: jvalue where
  "offer = JObject [(''activated'', JBool True), (''instance_id'', JString ''i-1''),
     (''lease'', lease_object (test_lease ''active'' 900000))]"

definition lease_server :: "tworld env" where
  "lease_server = scripted64\<lparr>e_request := \<lambda>r w. (reply 200 (render offer), w)\<rparr>"

definition licensed_start :: "tworld client" where
  "licensed_start = new_client lease_server test_config
     (disk_world 1100 (build_blob (licensed_cache (test_lease ''active'' 900000))))"

lemma lease_ok_test: "st \<noteq> [] \<Longrightarrow> in64 until \<Longrightarrow> lease_ok (test_lease st until)"
  by (simp add: lease_ok_def test_lease_def lease_in_range_def in64_def INT64_MIN_def INT64_MAX_def)

lemma vouched_test [simp]:
  "vouched lease_server test_config (test_lease st until)" "vouched scripted64 test_config (test_lease st until)"
  by (simp_all add: vouched_def signature_ok_def test_lease_def test_config_def scripted_def scripted64_def
      lease_server_def decode_flexible_encode good_signature_def)

lemma parse_offer: "json_parse (render offer) = Inr (reread offer)"
proof (rule parse_render)
  have "lease_ok (test_lease ''active'' 900000)"
    by (rule lease_ok_test) (simp_all add: in64_def INT64_MIN_def INT64_MAX_def)
  then show "writable offer" by (simp add: offer_def writable_lease lease_ok_def)
qed

lemma offer_fields:
  "as_bool (jget (reread offer) ''activated'')" "0 < jsize (jget (reread offer) ''lease'')"
  by (simp_all add: offer_def jget_def as_bool_def reread_lease jsize_def)

lemma server_answers_with_lease: "answers_with_lease lease_server"
  using parse_offer offer_fields(2) by (auto simp: answers_with_lease_def lease_server_def reply_def)

lemma server_store_works: "store_works lease_server"
  by (simp add: store_works_def lease_server_def scripted64_def scripted_def)

lemma licensed_start_resumed:
  "licensed_start = resumed lease_server test_config (licensed_cache (test_lease ''active'' 900000))
     (disk_world 1100 (build_blob (licensed_cache (test_lease ''active'' 900000))))"
proof -
  let ?l = "test_lease ''active'' 900000" let ?k = "licensed_cache ?l"
  let ?w = "disk_world 1100 (build_blob ?k)"
  have "lease_ok ?l" by (rule lease_ok_test) (simp_all add: in64_def INT64_MIN_def INT64_MAX_def)
  then have "cache_ok ?k" "canonical_cache ?k = ?k"
    by (simp_all add: licensed_cache_def cache_ok_def empty_cache_def in64_def INT64_MIN_def INT64_MAX_def
        canonical_cache_def nonempty_def)
  then show ?thesis
    using new_client_resumes [of ?k lease_server ?w ?w test_config]
    by (simp add: licensed_start_def lease_server_def)
qed

lemma licensed_start_facts:
  "cached_lease (cache licensed_start) = Some (test_lease ''active'' 900000)"
  "cached_last_validated_online (cache licensed_start) = 1000"
  "client_state lease_server licensed_start = Licensed" "world licensed_start = disk_world 1100
     (build_blob (licensed_cache (test_lease ''active'' 900000)))"
proof -
  let ?l = "test_lease ''active'' 900000" let ?k = "licensed_cache ?l"
  let ?w = "disk_world 1100 (build_blob ?k)"
  note eq = licensed_start_resumed
  have fields: "cached_lease ?k = Some ?l" "cached_last_validated_online ?k = 1000"
    by (simp_all add: licensed_cache_def)
  have now: "e_now lease_server ?w = 1100"
    by (simp add: lease_server_def scripted64_def disk_world_def in64_def INT64_MIN_def INT64_MAX_def)
  have ok: "is_trusted (verify_lease lease_server (loaded test_config ?k ?w) ?l)"
    by (simp add: trusted_iff_vouched)
  have "\<not> expired (verify_lease lease_server (loaded test_config ?k ?w) ?l)"
    by (simp add: verify_lease_def expired_verify now) (simp add: test_lease_def in64_def INT64_MIN_def INT64_MAX_def)
  then have "paid_state lease_server (loaded test_config ?k ?w) = Licensed"
    using ok now
    by (simp add: paid_state_def fields derive_state_from_verify_def bound_offline_def)
      (simp add: test_lease_def test_config_def default_config_def clock_rolled_back_def
        CLOCK_BACKWARD_TOLERANCE_def in64_def INT64_MIN_def INT64_MAX_def)
  then show "client_state lease_server licensed_start = Licensed"
    by (simp add: eq client_state_def clock_untrusted_def now resolve_with_trial_licensed fields
        clock_rolled_back_def CLOCK_BACKWARD_TOLERANCE_def in64_def INT64_MIN_def INT64_MAX_def)
  show "cached_lease (cache licensed_start) = Some ?l" "cached_last_validated_online (cache licensed_start) = 1000"
    "world licensed_start = ?w"
    by (simp_all add: eq fields)
qed

lemma reachable_licensed_start: "reachable lease_server test_config licensed_start"
  unfolding licensed_start_def by (rule reachable_new)

theorem licensed_is_backed_witness:
  "client_state lease_server licensed_start = Licensed
   \<and> (\<exists>l. cachedLease licensed_start = Some l \<and> vouched lease_server test_config l \<and> status l = ''active'')"
  using licensed_is_backed [OF reachable_licensed_start server_answers_with_lease server_store_works licensed_start_facts(3)]
    licensed_start_facts(3) by blast

theorem launch_is_bounded_witness:
  "client_state lease_server licensed_start = Licensed \<and> i64 (e_now lease_server (world licensed_start) - 1000) \<le> 15 * 86400"
  using launch_is_bounded [OF licensed_start_facts(3) [unfolded licensed_start_def]]
  unfolding licensed_start_def [symmetric]
  by (auto simp: Let_def licensed_start_facts test_config_def default_config_def)

text \<open>
  An unreadable store never looks like a license or a trial: when loading fails, or gives nothing or
  text that is not JSON, the client starts \<open>Invalid\<close> with an empty cache, no trial running and no
  entitlement, whatever the configuration says.
\<close>
theorem unreadable_store:
  assumes "e_load E w = (r, w')" "\<nexists>blob j. r = Inr blob \<and> blob \<noteq> [] \<and> json_parse blob = Inr j"
  shows "let c = new_client E g w in client_state E c = Invalid \<and> cache c = empty_cache
    \<and> checkTrial E c = TS_NotStarted \<and> trialDaysLeft E c = 0 \<and> \<not> hasEntitlement E c feature \<and> \<not> hasStoredLicense c"
  using new_client_unreadable [OF assms, of g]
  by (simp add: Let_def client_state_def blank_client_def checkTrial_def trialDaysLeft_def
      hasEntitlement_def hasStoredLicense_def)
    (simp add: empty_cache_def)

theorem unreadable_store_witness:
  "client_state scripted64 (new_client scripted64 (test_config\<lparr>freeTierEnabled := True, trialDurationDays := 30\<rparr>)
     (disk_world 5 ''junk'')) = Invalid"
proof -
  have "json_parse ''junk'' = err EC_BadResponse ''malformed JSON''"
    by (simp add: json_parse_def parse_value.simps skip_ws_def is_ws_def is_digit_def)
  then show ?thesis
    using unreadable_store [OF load_scripted64 [of 5 "''junk''"],
        of "test_config\<lparr>freeTierEnabled := True, trialDurationDays := 30\<rparr>" "[]"]
    by (auto simp: Let_def err_def)
qed

end
