(* ===== verification/Client_Ops.thy ===== *)
theory Client_Ops
  imports Client_Restart
begin

text \<open>
  What the public operations do on each branch: a definitive rejection, a transient failure, the
  release of a seat; what no history of calls changes; and when nothing is sent.
\<close>

section \<open>A server that always gives the same answer\<close>

definition answers :: "'w env \<Rightarrow> HttpResponse result \<Rightarrow> bool" where
  "answers E a \<longleftrightarrow> (\<forall>r w. fst (e_request E r w) = a)"

lemma retry_loop_answers:
  assumes "answers E a" "0 < n \<or> lst = a" shows "fst (run_state (retry_loop E r n attempt lst) c) = a"
  using assms(2)
proof (induction n arbitrary: attempt lst c)
  case (Suc n)
  have "fst (e_request E r (world c)) = a" using assms(1) by (simp add: answers_def)
  moreover have "fst (run_state (retry_loop E r n k a) d) = a" for k d by (rule Suc.IH) simp
  ultimately show ?case by (simp add: Let_def split_beta)
qed simp

lemma send_answers:
  assumes "answers E a"
  obtains c' where "run_state (send E verb action b) c = (a, c')" "paid_same c c'"
proof -
  obtain ans c' where run: "run_state (send E verb action b) c = (ans, c')" by force
  obtain r d where "run_state (send E verb action b) c
      = run_state (retry_loop E r RETRY_MAX_ATTEMPTS 1 (err EC_Network ''no attempt made'')) d"
    using send_run by blast
  then have "ans = fst (run_state (retry_loop E r RETRY_MAX_ATTEMPTS 1 (err EC_Network ''no attempt made'')) d)"
    using run by (metis fst_conv)
  also have "\<dots> = a" by (rule retry_loop_answers [OF assms]) (simp add: RETRY_MAX_ATTEMPTS_def)
  finally have "ans = a" .
  with run that calm.keeps_run [OF calm.keeps_send run] show ?thesis by blast
qed

lemma fst_send: "answers E a \<Longrightarrow> fst (run_state (send E verb action b) c) = a"
  by (rule send_answers [of E a verb action b c]) simp_all

text \<open>The request part of a validation: whatever it does, the paid license is as before.\<close>

lemma validation_request:
  assumes "answers E a"
  obtains b c1 c2 where "run_state (build_validate_body E) c = (b, c1)"
    "run_state (send E ''POST'' ''validate'' b) c1 = (a, c2)" "paid_same c c2"
proof -
  obtain b c1 where b: "run_state (build_validate_body E) c = (b, c1)" by force
  from send_answers [OF assms] obtain c2 where
    c2: "run_state (send E ''POST'' ''validate'' b) c1 = (a, c2)" "paid_same c1 c2" by blast
  from calm.evolves_trans [OF calm.keeps_run [OF calm.keeps_validate_body b] c2(2)] that b c2(1)
  show ?thesis by blast
qed

section \<open>Revocation\<close>

definition rejects :: "HttpResponse result \<Rightarrow> bool" where
  "rejects a \<longleftrightarrow> (\<exists>resp j. a = Inr resp \<and> http_status resp = 422 \<and> json_parse (body resp) = Inr j
     \<and> lease_in j ''lease'' = None)"

definition revoked_from :: "'w client \<Rightarrow> 'w client \<Rightarrow> bool" where
  "revoked_from c c' \<longleftrightarrow> raw_state c' = Invalid \<and> cachedLease c' = None
     \<and> cached_license_key (cache c') = cached_license_key (cache c)"

lemma run_rejection:
  assumes "json_parse b = Inr j" "lease_in j ''lease'' = None"
  shows "fst (run_state (handle_validate_rejection E b t) c) = Some Invalid"
    "revoked_from c (snd (run_state (handle_validate_rejection E b t) c))"
  using assms
  by (simp_all add: handle_validate_rejection_def clear_lease_def split_beta revoked_from_def cachedLease_def)

lemma revoked_calm: "paid_same c c' \<Longrightarrow> revoked_from c' c'' \<Longrightarrow> revoked_from c c''"
  by (simp add: revoked_from_def paid_same_def)

lemma revoked_reported:
  assumes "revoked_from c c'" shows "client_state E c' = Invalid" "\<not> hasEntitlement E c' f"
  using assms by (simp_all add: revoked_from_def client_state_def hasEntitlement_def cachedLease_def)

text \<open>
  C5. A revocation takes effect at once and sticks. When the server rejects a validation for good, without
  a usable lease, both \<open>validate\<close> and the launch check answer \<open>Invalid\<close>, the state is \<open>Invalid\<close>, the
  cached lease is gone and no entitlement is left, whatever trial or free tier there is; only the
  license key stays, so that the next launch asks again.
\<close>
theorem revocation:
  assumes "answers E a" "rejects a"
  shows "(let (r, c') = run_state (validate E) c in
            r = Inr Invalid \<and> revoked_from c c' \<and> client_state E c' = Invalid \<and> \<not> hasEntitlement E c' f)
       \<and> (hasStoredLicense c \<longrightarrow> (let (r, c') = run_state (checkOnLaunch E) c in
            r = Inr Invalid \<and> revoked_from c c' \<and> client_state E c' = Invalid \<and> \<not> hasEntitlement E c' f))"
proof -
  obtain resp j where a: "a = Inr resp" "http_status resp = 422" "json_parse (body resp) = Inr j"
    "lease_in j ''lease'' = None" using assms(2) by (auto simp: rejects_def)
  have v: "fst (run_state (validate E) c) = Inr Invalid \<and> revoked_from c (snd (run_state (validate E) c))"
  proof -
    obtain c0 where c0: "run_state (notify E) c = ((), c0)" by (cases "run_state (notify E) c") auto
    obtain b c1 c2 where req: "run_state (build_validate_body E) c0 = (b, c1)"
      "run_state (send E ''POST'' ''validate'' b) c1 = (a, c2)" "paid_same c0 c2"
      using validation_request [OF assms(1)] by blast
    have "paid_same c c2" using calm.evolves_trans [OF calm.keeps_run [OF calm.keeps_notify c0] req(3)] .
    then show ?thesis
      using run_rejection [OF a(3,4), where E = E and t = "e_now E (world c2)" and c = c2] revoked_calm [of c c2]
      by (simp add: validate_def c0 req(1,2) a(1,2) split_beta report_state_def)
  qed
  have l: "fst (run_state (checkOnLaunch E) c) = Inr Invalid \<and> revoked_from c (snd (run_state (checkOnLaunch E) c))"
    if "hasStoredLicense c"
  proof -
    obtain b c1 c2 where req: "run_state (build_validate_body E) c = (b, c1)"
      "run_state (send E ''POST'' ''validate'' b) c1 = (a, c2)" "paid_same c c2"
      using validation_request [OF assms(1)] by blast
    then show ?thesis
      using run_rejection [OF a(3,4), where E = E and t = "e_now E (world c)" and c = c2] revoked_calm [OF req(3)] that
      by (simp add: checkOnLaunch_def validate_and_reconcile_def req(1,2) a(1,2) split_beta report_result_def
          ok_state_def)
  qed
  show ?thesis
    using v l revoked_reported by (fastforce simp: Let_def split_beta)
qed

definition revoking_server :: "tworld env" where
  "revoking_server = scripted64\<lparr>e_request :=
     \<lambda>r w. (reply 422 (render (JObject [(''error'', JString ''revoked'')])), w)\<rparr>"

lemma parse_error_body:
  "json_parse (render (JObject [(''error'', JString ''revoked'')])) = Inr (JObject [(''error'', JString ''revoked'')])"
  by (subst parse_render) simp_all

theorem revocation_witness:
  "let c = licensed_client (test_lease ''active'' 900000) (disk_world 1100 []) in
     raw_state c = Licensed \<and> fst (run_state (checkOnLaunch revoking_server) c) = Inr Invalid"
proof -
  let ?c = "licensed_client (test_lease ''active'' 900000) (disk_world 1100 [])"
  have "answers revoking_server (reply 422 (render (JObject [(''error'', JString ''revoked'')])))"
    by (simp add: answers_def revoking_server_def)
  moreover have "rejects (reply 422 (render (JObject [(''error'', JString ''revoked'')])))"
    using parse_error_body by (auto simp: rejects_def reply_def lease_in_def jget_def jsize_def)
  moreover have "hasStoredLicense ?c" "raw_state ?c = Licensed"
    by (simp_all add: hasStoredLicense_def licensed_client_def licensed_cache_def)
  ultimately show ?thesis using revocation [of revoking_server _ ?c "[]"] by (simp add: Let_def split_beta)
qed

section \<open>Transient failures\<close>

definition transient :: "HttpResponse result \<Rightarrow> bool" where
  "transient a \<longleftrightarrow>
     (case a of Inl _ \<Rightarrow> True
      | Inr resp \<Rightarrow> (http_status resp \<noteq> 200 \<and> http_status resp \<noteq> 422) \<or> \<not> is_ok (json_parse (body resp)))"

text \<open>The offline-grace table.\<close>

definition graced :: "'w env \<Rightarrow> 'w client \<Rightarrow> State" where
  "graced E c =
     (let t = e_now E (world c); lvo = cached_last_validated_online (cache c); days = maxOfflineDays (cfg c) in
      if raw_state c \<noteq> Licensed then raw_state c
      else case cached_lease (cache c) of
             None \<Rightarrow> Expired
           | Some l \<Rightarrow>
               if expiresAt l < t then Expired
               else if days \<le> 0 \<or> (0 < lvo \<and> i64 (t - lvo) \<le> days * 86400) then Licensed
               else Expired)"

lemma run_grace:
  assumes "paid_same c d" "t = e_now E (world c)" "lvo = cached_last_validated_online (cache c)"
  shows "fst (run_state (apply_offline_grace E t lvo) d) = Inr (graced E c)"
    "paid_same (c\<lparr>raw_state := graced E c\<rparr>) (snd (run_state (apply_offline_grace E t lvo) d))"
proof -
  let ?r = "run_state (apply_offline_grace E t lvo) d"
  have same: "paid_same (d\<lparr>raw_state := s\<rparr>) (snd (run_state (set_client_state E s) d))" for s
    using paid_same_channel [OF set_client_state_same] .
  have eqs: "raw_state d = raw_state c" "cached_lease (cache d) = cached_lease (cache c)" "cfg d = cfg c"
    using calm_fields [OF assms(1)] by simp_all
  have "fst ?r = Inr (graced E c)
      \<and> (snd ?r = d \<and> graced E c = raw_state c \<or> snd ?r = snd (run_state (set_client_state E Expired) d) \<and> graced E c = Expired)"
    unfolding apply_offline_grace_def downgrade_def graced_def assms(2,3)
    by (cases "cached_lease (cache c)") (auto simp: eqs ok_state_def Let_def split_beta)
  moreover have "paid_same (c\<lparr>raw_state := raw_state c\<rparr>) d" using assms(1) by simp
  moreover have "paid_same (c\<lparr>raw_state := Expired\<rparr>) (snd (run_state (set_client_state E Expired) d))"
    using same [of Expired] assms(1) by (simp add: paid_same_def)
  ultimately show "fst ?r = Inr (graced E c)" "paid_same (c\<lparr>raw_state := graced E c\<rparr>) (snd ?r)" by auto
qed

lemma rejection_undecodable:
  "json_parse b = Inl e \<Longrightarrow> run_state (handle_validate_rejection E b t) c = (None, c)"
  by (simp add: handle_validate_rejection_def)

text \<open>
  C6. A transient failure (no answer, an unexpected status, a body that is not JSON) never touches the
  license: \<open>validate\<close> keeps the state and every paid field of the cache; the launch check keeps the
  fields and downgrades \<open>Licensed\<close> to \<open>Expired\<close> exactly when the cached lease is gone or past its own
  expiry, or the product bounds offline use and the last contact is unknown or too old.
\<close>
theorem transient_failure:
  assumes "answers E a" "transient a"
  shows "paid_same c (snd (run_state (validate E) c))
    \<and> (hasStoredLicense c \<longrightarrow>
         (let (r, c') = run_state (checkOnLaunch E) c in
            paid_same (c\<lparr>raw_state := graced E c\<rparr>) c'
            \<and> r = Inr (if clock_untrusted E c' then Invalid else graced E c)))"
proof -
  have cases: "\<And>P. (\<And>e. a = Inl e \<Longrightarrow> P) \<Longrightarrow> (\<And>resp. a = Inr resp \<Longrightarrow> http_status resp \<noteq> 200
      \<Longrightarrow> http_status resp \<noteq> 422 \<Longrightarrow> P) \<Longrightarrow> (\<And>resp e. a = Inr resp \<Longrightarrow> json_parse (body resp) = Inl e \<Longrightarrow> P) \<Longrightarrow> P"
    using assms(2) by (auto simp: transient_def is_ok_def split: sum.splits)
  have v: "paid_same c (snd (run_state (validate E) c))"
  proof -
    obtain c0 where c0: "run_state (notify E) c = ((), c0)" by (cases "run_state (notify E) c") auto
    obtain b c1 c2 where req: "run_state (build_validate_body E) c0 = (b, c1)"
      "run_state (send E ''POST'' ''validate'' b) c1 = (a, c2)" "paid_same c0 c2"
      using validation_request [OF assms(1)] by blast
    have "paid_same c c2" using calm.evolves_trans [OF calm.keeps_run [OF calm.keeps_notify c0] req(3)] .
    moreover have "snd (run_state (validate E) c) = c2"
      by (rule cases; simp add: validate_def c0 req(1,2) keep_reported_def report_state_def rejection_undecodable)
    ultimately show ?thesis by simp
  qed
  have l: "fst (run_state (checkOnLaunch E) c) =
          Inr (if clock_untrusted E (snd (run_state (checkOnLaunch E) c)) then Invalid else graced E c)
      \<and> paid_same (c\<lparr>raw_state := graced E c\<rparr>) (snd (run_state (checkOnLaunch E) c))" if "hasStoredLicense c"
  proof -
    obtain b c1 c2 where req: "run_state (build_validate_body E) c = (b, c1)"
      "run_state (send E ''POST'' ''validate'' b) c1 = (a, c2)" "paid_same c c2"
      using validation_request [OF assms(1)] by blast
    let ?g = "run_state (apply_offline_grace E (e_now E (world c)) (cached_last_validated_online (cache c))) c2"
    have "run_state (validate_and_reconcile E) c = ?g"
      by (rule cases; simp add: validate_and_reconcile_def req(1,2) rejection_undecodable)
    then show ?thesis
      using run_grace [OF req(3) refl refl, of E] that
      by (simp add: checkOnLaunch_def split_beta report_result_def)
  qed
  show ?thesis using v l by (simp add: Let_def split_beta)
qed

theorem transient_failure_witness:
  "let c = licensed_client (test_lease ''active'' 900000) (disk_world 1100 []);
       offline = scripted64\<lparr>e_request := \<lambda>r w. (err EC_Network ''down'', w)\<rparr>
   in raw_state (snd (run_state (validate offline) c)) = Licensed"
proof -
  let ?c = "licensed_client (test_lease ''active'' 900000) (disk_world 1100 [])"
  let ?E = "scripted64\<lparr>e_request := \<lambda>r w. (err EC_Network ''down'', w)\<rparr>"
  have "answers ?E (err EC_Network ''down'')" by (simp add: answers_def)
  moreover have "transient (err EC_Network ''down'')" by (simp add: transient_def err_def)
  ultimately show ?thesis
    using transient_failure [of ?E _ ?c] by (auto simp: Let_def paid_same_def licensed_client_def)
qed

section \<open>Deactivation\<close>

lemma run_deactivate:
  assumes "run_state (release_seat E) c = (x, c1)"
  shows "paid_same c c1"
    "let c' = snd (run_state (deactivate E) c) in
       cache c' = drop_paid (cache c1) \<and> cfg c' = cfg c \<and> last_validated_online_atomic c' = 0"
    "store_works E \<Longrightarrow> fst (run_state (deactivate E) c) = (case x of Some e \<Rightarrow> Inl e | None \<Rightarrow> Inr ())"
    "store_works E \<Longrightarrow> raw_state (snd (run_state (deactivate E) c)) = resolve_with_trial E (snd (run_state (deactivate E) c)) Invalid"
proof -
  show same: "paid_same c c1" by (rule calm.keeps_run [OF calm.keeps_release assms])
  have atomic: "last_validated_online_atomic (snd (run_state (set_client_state E s) d)) = last_validated_online_atomic d" for s d
    using set_client_state_same [of s d E] by (simp add: same_licensing_def)
  show "let c' = snd (run_state (deactivate E) c) in
       cache c' = drop_paid (cache c1) \<and> cfg c' = cfg c \<and> last_validated_online_atomic c' = 0"
    using calm_fields(1) [OF same] by (simp add: deactivate_def assms split_beta Let_def atomic)
  assume ok: "store_works E"
  then show "fst (run_state (deactivate E) c) = (case x of Some e \<Rightarrow> Inl e | None \<Rightarrow> Inr ())"
    by (simp add: deactivate_def assms split_beta store_works_def)
  have view: "resolve_with_trial E (snd (run_state (set_client_state E s) d)) r = resolve_with_trial E d r" for s d r
    by (rule resolve_view) simp_all
  show "raw_state (snd (run_state (deactivate E) c)) = resolve_with_trial E (snd (run_state (deactivate E) c)) Invalid"
    using ok by (simp add: deactivate_def assms split_beta store_works_def view)
qed

lemma release_frame:
  assumes "run_state (release_seat E) c = (x, c1)"
  shows "cached_trial_start (cache c1) = cached_trial_start (cache c)"
    "cached_free_tier_instance_id (cache c1) = cached_free_tier_instance_id (cache c)"
proof -
  have "cache (snd (run_state (retry_loop E r n k lst) d)) = cache d" for r n k lst d
    by (induction n arbitrary: k lst d) (simp_all add: Let_def split_beta sleep_ms_def)
  then have "cache (snd (run_state (send E verb action b) d)) = cache d" for verb action b d
    by (simp add: send_def request_with_retry_def json_headers_def random_request_id_def split_beta)
  from this [of "''POST''" "''deactivate''"] have "cache (snd (run_state (release_seat E) c)) = cache c"
    by (simp add: release_seat_def split_beta)
  then show "cached_trial_start (cache c1) = cached_trial_start (cache c)"
    "cached_free_tier_instance_id (cache c1) = cached_free_tier_instance_id (cache c)"
    using assms by simp_all
qed

text \<open>A store whose every write fails.\<close>

definition store_fails :: "'w env \<Rightarrow> bool" where
  "store_fails E \<longleftrightarrow> (\<forall>s w. \<not> is_ok (fst (e_save E s w)) \<and> \<not> is_ok (fst (e_clear E w)))"

lemma deactivate_store_fails:
  assumes "store_fails E"
  shows "\<not> is_ok (fst (run_state (deactivate E) c))" "raw_state (snd (run_state (deactivate E) c)) = raw_state c"
proof -
  obtain x c1 where rel: "run_state (release_seat E) c = (x, c1)" by force
  show "\<not> is_ok (fst (run_state (deactivate E) c))" "raw_state (snd (run_state (deactivate E) c)) = raw_state c"
    using assms calm_fields(2) [OF run_deactivate(1) [OF rel]]
    by (simp_all add: deactivate_def rel split_beta store_fails_def save_cache_def)
qed

text \<open>What the server's answer comes to; without a seat it is not asked.\<close>

definition seat_answer :: "'w client \<Rightarrow> HttpResponse result \<Rightarrow> unit result" where
  "seat_answer c a =
     (if load_instance_id c = [] then Inr ()
      else case a of
        Inl e \<Rightarrow> Inl e
      | Inr resp \<Rightarrow>
          if http_status resp = 200 then Inr ()
          else err EC_Http (http_error_message (body resp) ''deactivate'' (http_status resp)))"

lemma release_seat_answer:
  assumes "answers E a"
  shows "(case fst (run_state (release_seat E) c) of Some e \<Rightarrow> Inl e | None \<Rightarrow> Inr ()) = seat_answer c a"
  using fst_send [OF assms]
  by (cases a) (simp_all add: release_seat_def seat_answer_def split_beta err_def)

text \<open>
  C7. Deactivation always ends the paid license on this device, whatever the server and the store answer:
  no lease, key, seat or contact time is left and no entitlement, while the trial start and the
  anonymous id survive. When the store's writes succeed the state is what the trial and the free
  tier give, never \<open>Licensed\<close> or \<open>Limited\<close>, and the result is what the server says (the same on every
  attempt): its transport error, an HTTP error for any status but 200, or success; also success when there
  was no seat to release. When all writes fail, the result is an error and the state before the call stays.
\<close>
theorem deactivation:
  "let (r, c') = run_state (deactivate E) c in
     cachedLease c' = None \<and> cachedLicenseKey c' = None \<and> \<not> hasStoredLicense c' \<and> load_instance_id c' = []
     \<and> cachedLicenseExpiresAt c' = None \<and> \<not> hasEntitlement E c' f
     \<and> cached_trial_start (cache c') = cached_trial_start (cache c)
     \<and> cached_free_tier_instance_id (cache c') = cached_free_tier_instance_id (cache c)
     \<and> (store_works E \<longrightarrow>
          client_state E c' = resolve_with_trial E c' Invalid
          \<and> client_state E c' \<noteq> Licensed \<and> client_state E c' \<noteq> Limited
          \<and> (\<forall>a. answers E a \<longrightarrow> r = seat_answer c a)
          \<and> (load_instance_id c = [] \<longrightarrow> r = Inr ()))
     \<and> (store_fails E \<longrightarrow> \<not> is_ok r \<and> client_state E c' = raw_state c)"
proof -
  obtain x c1 where rel: "run_state (release_seat E) c = (x, c1)" by force
  define c' where "c' = snd (run_state (deactivate E) c)"
  have fields: "cache c' = drop_paid (cache c1)" "last_validated_online_atomic c' = 0"
    using run_deactivate(2) [OF rel] by (simp_all add: c'_def Let_def)
  have state: "client_state E c' = raw_state c'" using fields by (simp add: client_state_def clock_untrusted_def)
  have "\<not> is_ok (fst (run_state (deactivate E) c)) \<and> client_state E c' = raw_state c" if "store_fails E"
    using deactivate_store_fails [OF that] state by (simp add: c'_def)
  moreover have "resolve_with_trial E d Invalid \<notin> {Licensed, Limited}" for d
    by (simp add: resolve_with_trial_def split: TrialStatus.split)
  moreover have "(case x of Some e \<Rightarrow> Inl e | None \<Rightarrow> Inr ()) = seat_answer c a" if "answers E a" for a
    using release_seat_answer [OF that, of c] by (simp add: rel)
  moreover have "x = None" if "load_instance_id c = []"
    using rel that by (simp add: release_seat_def)
  ultimately show ?thesis
    using run_deactivate(3,4) [OF rel] release_frame [OF rel] fields state
    by (auto simp: split_beta c'_def [symmetric] cachedLease_def cachedLicenseKey_def hasStoredLicense_def
        load_instance_id_def cachedLicenseExpiresAt_def hasEntitlement_def drop_paid_def)
qed

theorem deactivation_witness:
  "let c = licensed_client (test_lease ''active'' 900000) (disk_world 1100 []);
       refusing = scripted64\<lparr>e_request := \<lambda>r w. (reply 409 [], w)\<rparr>;
       (r, c') = run_state (deactivate refusing) c
   in client_state refusing c' \<noteq> Licensed \<and> r = err EC_Http (http_error_message [] ''deactivate'' 409)"
proof -
  let ?c = "licensed_client (test_lease ''active'' 900000) (disk_world 1100 [])"
  let ?E = "scripted64\<lparr>e_request := \<lambda>r w. (reply 409 [], w)\<rparr>"
  have "store_works ?E" by (simp add: store_works_def scripted64_def scripted_def)
  moreover have "answers ?E (reply 409 [])" by (simp add: answers_def)
  moreover have "load_instance_id ?c \<noteq> []"
    by (simp add: load_instance_id_def licensed_client_def licensed_cache_def)
  then have "seat_answer ?c (reply 409 []) = err EC_Http (http_error_message [] ''deactivate'' 409)"
    by (simp add: seat_answer_def reply_def)
  ultimately show ?thesis
    using deactivation [of ?E ?c "[]"] by (auto simp: Let_def split_beta)
qed

end
