(* ===== verification/Client_World.thy ===== *)
theory Client_World
  imports Client_Ops
begin

text \<open>
  How an operation moves the world. An operation touches the world only through the environment, so
  a preorder on worlds that each kind of interaction keeps is kept by the operation. The locale
  \<open>world_evolution\<close> asks this of every interaction but the request, and covers all that an operation
  does before and after its requests; \<open>network_evolution\<close> asks it of the request too, and covers the
  operations. The log of the instrumented environment and the clock are instances.
\<close>

locale world_evolution =
  fixes E :: "'w env" and Q :: "'w \<Rightarrow> 'w \<Rightarrow> bool"
  assumes world_refl: "Q w w"
    and world_trans: "Q u v \<Longrightarrow> Q v w \<Longrightarrow> Q u w"
    and world_save: "Q w (snd (e_save E s w))"
    and world_clear: "Q w (snd (e_clear E w))"
    and world_bytes: "Q w (snd (e_rand_bytes E n w))"
    and world_rand: "Q w (snd (e_rand64 E w))"
    and world_sleep: "Q w (e_sleep E n w)"
begin

sublocale evolution "\<lambda>c c' :: 'w client. Q (world c) (world c')"
  by unfold_locales (auto intro: world_refl world_trans)

lemma keeps_local: "(\<And>c. world (snd (run_state m c)) = world c) \<Longrightarrow> keeps m"
  by (simp add: keeps_def world_refl)

lemma keeps_cached: "keeps (set_cache f)"
  by (rule keeps_local) simp

lemma keeps_notify: "keeps (notify E)"
  by (rule keeps_local) simp

lemma keeps_set_state: "keeps (set_client_state E s)"
  by (rule keeps_local) simp

lemma keeps_saving: "keeps (save_cache E)"
  by (simp add: keeps_def world_save)

lemma keeps_clearing: "keeps (interact (e_clear E))"
  by (simp add: keeps_def world_clear)

lemma keeps_random: "keeps (interact (e_rand_bytes E n))" "keeps (interact (e_rand64 E))"
  by (simp_all add: keeps_def world_bytes world_rand)

lemma keeps_sleeping: "keeps (sleep_ms E n)"
  by (simp add: keeps_def world_sleep sleep_ms_def)

lemma keeps_reports: "keeps (report_state E s)" "keeps (report_result E r)" "keeps (keep_reported E)" "keeps (ok_state s)"
  unfolding report_state_def report_result_def keep_reported_def ok_state_def by (intro keeps_intros)+

lemma keeps_headers: "keeps (json_headers E)"
  unfolding json_headers_def random_request_id_def by (intro keeps_intros keeps_random)

lemma keeps_apply_config: "keeps (apply_config_fields E j)"
  unfolding apply_config_fields_def by (intro keeps_Let keeps_intros keeps_saving keeps_cached)

lemma keeps_hash: "keeps (machine_hash_of E)"
  unfolding machine_hash_of_def cached_hardware_id_value_def
  by (intro keeps_intros keeps_saving keeps_cached)

lemma keeps_free_tier: "keeps (freeTierInstanceId E)"
  unfolding freeTierInstanceId_def by (intro keeps_intros keeps_saving keeps_cached keeps_random)

lemma keeps_body: "keeps (build_validate_body E)"
  unfolding build_validate_body_def append_attribution_fields_def by (intro keeps_Let keeps_intros keeps_hash)

lemma keeps_keep_trusted:
  assumes "keeps stamp" shows "keeps (keep_trusted E l ex stamp)"
  unfolding keep_trusted_def persist_def save_last_validated_online_def
  by (intro keeps_intros keeps_saving keeps_cached assms keeps_local) simp_all

lemma keeps_rejection: "keeps (handle_validate_rejection E b t)"
  unfolding handle_validate_rejection_def clear_lease_def
  by (intro keeps_intros keeps_saving keeps_cached keeps_keep_trusted keeps_set_state)

lemma keeps_absorb:
  assumes "keeps stamp" shows "keeps (absorb_validation E j stamp)"
  unfolding absorb_validation_def
  by (intro keeps_Let keeps_intros keeps_apply_config keeps_keep_trusted assms keeps_set_state)

lemma keeps_grace: "keeps (apply_offline_grace E t lvo)"
  unfolding apply_offline_grace_def downgrade_def by (intro keeps_intros keeps_set_state keeps_reports)

lemma keeps_resolve_locally: "keeps (resolve_locally E)"
  unfolding resolve_locally_def by (intro keeps_intros keeps_set_state keeps_reports)

lemma keeps_startTrial: "keeps (startTrial E)"
  unfolding startTrial_def
  by (intro keeps_intros keeps_saving keeps_cached keeps_free_tier keeps_resolve_locally)

text \<open>What \<open>validate_and_reconcile_\<close> does with an answer.\<close>

lemma keeps_reconciled:
  "keeps (case a of Inl _ \<Rightarrow> apply_offline_grace E t lvo
     | Inr resp \<Rightarrow>
         if http_status resp \<noteq> 200 then
           (if http_status resp = 422 then do {
              rejected \<leftarrow> handle_validate_rejection E (body resp) t;
              case rejected of Some s \<Rightarrow> ok_state s | None \<Rightarrow> apply_offline_grace E t lvo }
            else apply_offline_grace E t lvo)
         else case json_parse (body resp) of
           Inl _ \<Rightarrow> apply_offline_grace E t lvo
         | Inr j \<Rightarrow> do { s \<leftarrow> absorb_validation E j (State_Monad.return t); ok_state s })"
  by (intro keeps_intros keeps_grace keeps_rejection keeps_reports keeps_absorb)

end

locale network_evolution = world_evolution +
  assumes world_request: "Q w (snd (e_request E r w))"
begin

lemma keeps_retry_loop: "keeps (retry_loop E r n attempt lst)"
proof (induction n arbitrary: attempt lst)
  case (Suc n)
  have "keeps (interact (e_request E r))" by (simp add: keeps_def world_request)
  then show ?case unfolding retry_loop.simps by (intro keeps_Let keeps_intros keeps_sleeping Suc)
qed (simp add: keeps_return)

lemma keeps_send: "keeps (send E verb action b)"
  unfolding send_def request_with_retry_def by (intro keeps_intros keeps_headers keeps_retry_loop)

lemma keeps_validate: "keeps (validate E)"
  unfolding validate_def
  by (intro keeps_intros keeps_notify keeps_body keeps_send keeps_reports keeps_rejection keeps_absorb)

lemma keeps_reconcile: "keeps (validate_and_reconcile E)"
  unfolding validate_and_reconcile_def by (intro keeps_bind keeps_now keeps_read keeps_body keeps_send keeps_reconciled)

lemma keeps_launch: "keeps (checkOnLaunch E)"
  unfolding checkOnLaunch_def by (intro keeps_intros keeps_reconcile keeps_reports keeps_resolve_locally)

lemma keeps_refresh: "keeps (refreshIfNeeded E)"
  unfolding refreshIfNeeded_def
  by (intro keeps_intros keeps_notify keeps_reconcile keeps_reports keeps_resolve_locally)

end

end
