(* ===== verification/Client_Traffic.thy ===== *)
theory Client_Traffic
  imports Client_World
begin

text \<open>
  What the client sends, and when it sends nothing: statements about the log of the instrumented
  environment, for every environment. A part of an operation is silent when the requests in the log
  after it are those before it; the interpretation below carries that through the operations, and
  the retry loop adds one to three copies of one request.
\<close>

fun request_of :: "io \<Rightarrow> HttpRequest option" where
  "request_of (Sent r) = Some r"
| "request_of _ = None"

definition requests :: "('w \<times> io list) client \<Rightarrow> HttpRequest list" where
  "requests c = List.map_filter request_of (io_log c)"

definition same_requests :: "'w \<times> io list \<Rightarrow> 'w \<times> io list \<Rightarrow> bool" where
  "same_requests w w' \<longleftrightarrow> List.map_filter request_of (snd w') = List.map_filter request_of (snd w)"

text \<open>Everything but the request itself leaves the requests in the log as they are.\<close>

interpretation silent: world_evolution "logged E" same_requests for E
  by unfold_locales (auto simp: same_requests_def logged_def split_beta List.map_filter_simps)

lemma silentD: "silent.keeps m \<Longrightarrow> requests (snd (run_state m c)) = requests c"
  using silent.keepsD by (fastforce simp: same_requests_def requests_def io_log_def)

text \<open>The log itself only grows, requests included.\<close>

definition log_grows :: "'w \<times> io list \<Rightarrow> 'w \<times> io list \<Rightarrow> bool" where
  "log_grows w w' \<longleftrightarrow> (\<exists>more. snd w' = snd w @ more)"

interpretation grows: network_evolution "logged E" log_grows for E
  by unfold_locales (auto simp: log_grows_def logged_def split_beta)

section \<open>When nothing is sent\<close>

text \<open>
  The client stays off the network when it should: starting a trial, and launching or refreshing
  without a license key, send nothing; a refresh within five minutes of the last contact, a beacon
  of an unchanged state within a day, and an active-use check within a minute of the last one send
  nothing either.
\<close>
theorem stays_silent:
  fixes c :: "('w \<times> io list) client"
  shows "requests (snd (run_state (startTrial (logged E)) c)) = requests c
    \<and> (\<not> hasStoredLicense c \<longrightarrow>
         requests (snd (run_state (checkOnLaunch (logged E)) c)) = requests c
         \<and> requests (snd (run_state (refreshIfNeeded (logged E)) c)) = requests c
         \<and> requests (snd (run_state (activeRevalidate (logged E)) c)) = requests c)
    \<and> (0 < cached_last_validated_online (cache c)
         \<and> i64 (e_now E (fst (world c)) - cached_last_validated_online (cache c)) < 300 \<longrightarrow>
         requests (snd (run_state (refreshIfNeeded (logged E)) c)) = requests c)
    \<and> (keyless_debounced (e_now E (fst (world c))) (keyless_state_wire ks) (cache c) \<longrightarrow>
         snd (run_state (reportKeylessState (logged E) ks) c) = c)
    \<and> (last_active_revalidate_at c \<noteq> 0
         \<and> i64 (e_now E (fst (world c)) - last_active_revalidate_at c) < 60 \<longrightarrow>
         run_state (activeRevalidate (logged E)) c = (False, c))"
proof -
  have clock: "e_now (logged E) (world c) = e_now E (fst (world c))"
    by (simp add: logged_def split_beta)
  obtain c0 where n: "run_state (notify (logged E)) c = ((), c0)" by (cases "run_state (notify (logged E)) c") auto
  have c0: "cache c0 = cache c" "world c0 = world c" "requests c0 = requests c"
    using notify_frame [OF n] by (simp_all add: same_licensing_def requests_def io_log_def)
  have key: "hasStoredLicense c0 = hasStoredLicense c" by (simp add: hasStoredLicense_def c0)
  have local: "requests (snd (run_state (refreshIfNeeded (logged E)) c)) = requests c" if "\<not> hasStoredLicense c"
    using that silentD [OF silent.keeps_resolve_locally, of E c0] by (simp add: refreshIfNeeded_def n key c0)
  have fresh: "requests (snd (run_state (refreshIfNeeded (logged E)) c)) = requests c"
    if "0 < cached_last_validated_online (cache c)"
      "i64 (e_now E (fst (world c)) - cached_last_validated_online (cache c)) < 300"
  proof (cases "hasStoredLicense c")
    case True
    have "\<not> refresh_due (e_now (logged E) (world c)) c0"
      using that by (simp add: refresh_due_def Let_def c0 clock REFRESH_DEBOUNCE_def)
    then show ?thesis
      using True silentD [OF silent.keeps_reports(3), of E c0]
      by (simp add: refreshIfNeeded_def n key c0)
  qed (rule local)
  show ?thesis
    using silentD [OF silent.keeps_startTrial, of E c] silentD [OF silent.keeps_resolve_locally, of E c] local fresh
    by (simp add: checkOnLaunch_def activeRevalidate_def reportKeylessState_def Let_def clock)
qed

section \<open>When the server is asked\<close>

text \<open>The requests one call of the retry loop adds.\<close>

lemma requests_retry_log: "List.map_filter request_of (retry_log r ds) = replicate (Suc (length ds)) r"
  by (induction r ds rule: retry_log.induct) (simp_all add: List.map_filter_simps)

lemma requests_send:
  assumes "run_state (send (logged E) verb action b) c = (a, c')"
  shows "\<exists>r n. requests c' = requests c @ replicate n r \<and> 1 \<le> n \<and> n \<le> 3 \<and> req_method r = verb
    \<and> req_url r = api_url (cfg c) action \<and> req_body r = b"
proof -
  obtain hs c1 where hs: "run_state (json_headers (logged E)) c = (hs, c1)" by force
  have c1: "requests c1 = requests c"
    using silentD [OF silent.keeps_headers, of E c] hs by simp
  let ?r = "\<lparr>req_method = verb, req_url = api_url (cfg c) action, req_headers = hs, req_body = b\<rparr>"
  have "run_state (retry_loop (logged E) ?r RETRY_MAX_ATTEMPTS 1 (err EC_Network ''no attempt made'')) c1 = (a, c')"
    using assms hs by (simp add: send_def request_with_retry_def)
  from retry_loop_log [OF this] obtain ds where
    "io_log c' = io_log c1 @ retry_log ?r ds" "length ds < RETRY_MAX_ATTEMPTS"
    by (auto simp: RETRY_MAX_ATTEMPTS_def)
  then have "requests c' = requests c @ replicate (Suc (length ds)) ?r" "Suc (length ds) \<le> 3"
    using c1 by (simp_all add: requests_def requests_retry_log RETRY_MAX_ATTEMPTS_def)
  then show ?thesis by (intro exI [of _ ?r] exI [of _ "Suc (length ds)"]) simp
qed

text \<open>
  C34. A launch with a license key always asks the server, and asks it one thing: one to three identical
  POST requests to the validate endpoint of this tenant and product, nothing else, whatever the
  cache, the clock and the last contact say.
\<close>
theorem launch_asks:
  assumes "hasStoredLicense c"
  shows "\<exists>r n. requests (snd (run_state (checkOnLaunch (logged E)) c)) = requests c @ replicate n r
    \<and> 1 \<le> n \<and> n \<le> 3 \<and> req_method r = ''POST'' \<and> req_url r = api_url (cfg c) ''validate''"
proof -
  obtain b c1 where b: "run_state (build_validate_body (logged E)) c = (b, c1)" by force
  obtain a c2 where a: "run_state (send (logged E) ''POST'' ''validate'' b) c1 = (a, c2)" by force
  have c1: "requests c1 = requests c" "cfg c1 = cfg c"
    using silentD [OF silent.keeps_body, of E c] calm.keeps_run [OF calm.keeps_validate_body b] b
    by (simp_all add: paid_same_def)
  let ?t = "e_now (logged E) (world c)" and ?lvo = "cached_last_validated_online (cache c)"
  let ?rest = "case a of Inl _ \<Rightarrow> apply_offline_grace (logged E) ?t ?lvo
     | Inr resp \<Rightarrow>
         if http_status resp \<noteq> 200 then
           (if http_status resp = 422 then do {
              rejected \<leftarrow> handle_validate_rejection (logged E) (body resp) ?t;
              case rejected of Some s \<Rightarrow> ok_state s | None \<Rightarrow> apply_offline_grace (logged E) ?t ?lvo }
            else apply_offline_grace (logged E) ?t ?lvo)
         else case json_parse (body resp) of
           Inl _ \<Rightarrow> apply_offline_grace (logged E) ?t ?lvo
         | Inr j \<Rightarrow> do { s \<leftarrow> absorb_validation (logged E) j (State_Monad.return ?t); ok_state s }"
  have rest: "silent.keeps (do { r \<leftarrow> ?rest; report_result (logged E) r })"
    by (intro silent.keeps_bind silent.keeps_reconciled silent.keeps_reports)
  have "snd (run_state (checkOnLaunch (logged E)) c) = snd (run_state (do { r \<leftarrow> ?rest; report_result (logged E) r }) c2)"
    using assms by (simp add: checkOnLaunch_def validate_and_reconcile_def b a)
  then have "requests (snd (run_state (checkOnLaunch (logged E)) c)) = requests c2"
    using silentD [OF rest, of c2] by simp
  with requests_send [OF a] c1 show ?thesis by auto
qed

theorem stays_silent_witness:
  "let c = blank_client test_config (test_world 1000 [], []) in
     \<not> hasStoredLicense c \<and> requests (snd (run_state (checkOnLaunch (logged scripted)) c)) = []"
proof -
  let ?c = "blank_client test_config (test_world 1000 [], [] :: io list)"
  have "\<not> hasStoredLicense ?c" "requests ?c = []"
    by (simp_all add: hasStoredLicense_def blank_client_def empty_cache_def requests_def io_log_def
        List.map_filter_simps)
  then show ?thesis using stays_silent [of scripted ?c KS_Trial] by (simp add: Let_def)
qed

theorem launch_asks_witness:
  "let c = (blank_client test_config (test_world 1000 [], []))\<lparr>cache := licensed_cache (test_lease ''active'' 900000)\<rparr>
   in hasStoredLicense c \<and> requests (snd (run_state (checkOnLaunch (logged scripted)) c)) \<noteq> requests c"
proof -
  let ?c = "(blank_client test_config (test_world 1000 [], []))\<lparr>cache := licensed_cache (test_lease ''active'' 900000)\<rparr>"
  have stored: "hasStoredLicense ?c" by (simp add: hasStoredLicense_def licensed_cache_def)
  with launch_asks [OF stored, of scripted] show ?thesis by (auto simp: Let_def)
qed

end
