(* ===== verification/Client_Channel.thy ===== *)
theory Client_Channel
  imports Client_Restart
begin

text \<open>
  What listeners hear over a history of calls made one after the other: every change of the reported
  state once, and nothing else. (Calls that overlap are the subject of \<open>Notify\<close>.)
\<close>

fun told_to :: "nat \<Rightarrow> delivery \<Rightarrow> State option" where
  "told_to i (Told j s) = (if j = i then Some s else None)"
| "told_to i _ = None"

definition told :: "nat \<Rightarrow> 'w client \<Rightarrow> State list" where
  "told i c = List.map_filter (told_to i) (delivered c)"

lemma told_events: "List.map_filter (told_to i) (concat (map (tell_event E c ev) ls)) = []"
proof (induction ls)
  case (Cons x xs)
  then show ?case by (cases x; cases "snd x") (auto simp: List.map_filter_def)
qed (simp add: List.map_filter_def)

lemma told_all:
  "distinct ls \<Longrightarrow> List.map_filter (told_to i) (map (\<lambda>j. Told j s) ls) = (if i \<in> set ls then [s] else [])"
  by (induction ls) (auto simp: List.map_filter_simps)

definition channel_ok :: "'w client \<Rightarrow> bool" where
  "channel_ok c \<longleftrightarrow> quiet c \<and> distinct (listeners c)
     \<and> (\<forall>i \<in> set (listeners c). i \<le> next_listener_id c \<and> (told i c \<noteq> [] \<longrightarrow> last (told i c) = last_reported c))
     \<and> (\<forall>i > next_listener_id c. told i c = []) \<and> (\<forall>i. distinct_adj (told i c))"

definition channel_step :: "'w client \<Rightarrow> 'w client \<Rightarrow> bool" where
  "channel_step c c' \<longleftrightarrow> (channel_ok c \<longrightarrow> channel_ok c')"

interpretation channel: evolution channel_step
  by unfold_locales (auto simp: channel_step_def)

lemma channel_same:
  assumes "delivered c' = delivered c" "listeners c' = listeners c" "pending c' = pending c"
    "delivering c' = delivering c" "last_reported c' = last_reported c" "next_listener_id c' = next_listener_id c"
  shows "channel_step c c'"
  using assms by (simp add: channel_step_def channel_ok_def quiet_def told_def)

lemma channel_notify: "channel.keeps (notify (E :: 'w env))"
  unfolding channel.keeps_def channel_step_def
proof (intro allI impI)
  fix c :: "'w client"
  assume ok: "channel_ok c"
  let ?s = "client_state E c" let ?c = "snd (run_state (notify E) c)"
  have q: "quiet c" and d: "distinct (listeners c)" using ok by (simp_all add: channel_ok_def)
  note run = run_notify [OF q, of E]
  show "channel_ok ?c"
  proof (cases "last_reported c = ?s")
    case True
    then have "?c = c" by (simp add: run)
    then show ?thesis using ok by simp
  next
    case False
    have told: "told i ?c = told i c @ (if i \<in> set (listeners c) then [?s] else [])" for i
      using False told_all [OF d] by (simp add: run told_def)
    have fields: "quiet ?c" "listeners ?c = listeners c" "next_listener_id ?c = next_listener_id c" "last_reported ?c = ?s"
      using q by (simp_all add: run quiet_def)
    have "distinct_adj (told i ?c)" for i
      using ok False by (auto simp: told channel_ok_def distinct_adj_append_iff)
    then show ?thesis using ok fields by (auto simp: channel_ok_def told)
  qed
qed

lemma channel_lifecycle: "channel.keeps (notify_lifecycle E ev)"
  unfolding channel.keeps_def channel_step_def notify_lifecycle_def
  by (auto simp: channel_ok_def quiet_def told_def told_events)

lemma channel_heartbeat: "channel.keeps (start_heartbeat E)"
  unfolding start_heartbeat_def
  by (intro channel.keeps_intros channel.keeps_modify channel_same) simp_all

lemma channel_set_state: "channel.keeps (set_client_state E s)"
  unfolding set_client_state_def
  by (intro channel.keeps_Let channel.keeps_intros channel_notify channel_lifecycle channel_heartbeat
      channel.keeps_modify channel_same) simp_all

lemma channel_new_listener: "channel.keeps subscribe" "channel.keeps (onLifecycle f)"
  unfolding channel.keeps_def subscribe_def onLifecycle_def
  by (auto simp: channel_step_def channel_ok_def quiet_def told_def)

lemma channel_unsubscribe: "channel.keeps (unsubscribe sub)"
  unfolding unsubscribe_def remove_listener_def
  by (intro channel.keeps_intros channel.keeps_modify)
    (auto simp: channel_step_def channel_ok_def quiet_def told_def)

interpretation channel: client_evolution E channel_step for E
proof unfold_locales
  fix E :: "'a env" and c :: "'a client" and s f event sub
  show "channel_step c (snd (run_state (notify E) c))"
    "channel_step c (snd (run_state (set_client_state E s) c))"
    "channel_step c (snd (run_state subscribe c))" "channel_step c (snd (run_state (onLifecycle f) c))"
    "channel_step c (snd (run_state (unsubscribe sub) c))"
    by (rule channel.keepsD, rule channel_notify channel_set_state channel_new_listener channel_unsubscribe)+
  show "channel_step c (snd (run_state (on event) c))"
    unfolding on_def by (rule channel.keepsD, intro channel.keeps_intros channel_new_listener)
  show "channel_step c (snd (run_state stop_heartbeat c))"
    unfolding stop_heartbeat_def by (simp add: channel_same)
qed (simp_all add: channel_same)

lemma channel_new_client: "channel_ok (new_client E g w)"
proof (cases rule: new_client_cases [of E g w])
  case (blank w')
  then show ?thesis by (simp add: channel_ok_def quiet_def told_def blank_client_def List.map_filter_def)
next
  case (stored j w')
  then show ?thesis
    by (simp add: channel_ok_def quiet_def told_def resumed_def loaded_def blank_client_def List.map_filter_def Let_def)
qed

section \<open>What a listener is told from here on\<close>

text \<open>
  From \<open>c\<close> to \<open>c'\<close> there is one sequence of new reports, each different from the one before, and every
  listener that stays subscribed is told exactly it.
\<close>

definition hears_on :: "'w client \<Rightarrow> 'w client \<Rightarrow> bool" where
  "hears_on c c' \<longleftrightarrow> (channel_ok c \<longrightarrow> channel_ok c' \<and> next_listener_id c \<le> next_listener_id c'
     \<and> (\<exists>new. distinct_adj (last_reported c # new) \<and> last_reported c' = last (last_reported c # new)
          \<and> (\<forall>i \<le> next_listener_id c. i \<in> set (listeners c') \<longrightarrow> i \<in> set (listeners c) \<and> told i c' = told i c @ new)))"

lemma hears_onI:
  assumes "channel_ok c \<Longrightarrow> channel_ok c' \<and> next_listener_id c \<le> next_listener_id c'
      \<and> distinct_adj (last_reported c # new) \<and> last_reported c' = last (last_reported c # new)"
    and "\<And>i. channel_ok c \<Longrightarrow> i \<le> next_listener_id c \<Longrightarrow> i \<in> set (listeners c')
      \<Longrightarrow> i \<in> set (listeners c) \<and> told i c' = told i c @ new"
  shows "hears_on c c'"
  using assms unfolding hears_on_def by blast

lemma hears_onD:
  assumes "hears_on c c'" "channel_ok c"
  obtains new where "channel_ok c'" "next_listener_id c \<le> next_listener_id c'"
    "distinct_adj (last_reported c # new)" "last_reported c' = last (last_reported c # new)"
    "\<forall>i \<le> next_listener_id c. i \<in> set (listeners c') \<longrightarrow> i \<in> set (listeners c) \<and> told i c' = told i c @ new"
  using assms unfolding hears_on_def by blast

lemma hears_on_refl: "hears_on c c"
  by (rule hears_onI [of _ _ "[]"]) simp_all

lemma distinct_adj_continue:
  "distinct_adj (x # xs) \<Longrightarrow> distinct_adj (last (x # xs) # ys) \<Longrightarrow> distinct_adj (x # xs @ ys)"
  using distinct_adj_append_iff [of "x # xs" ys] by (cases ys) auto

lemma hears_on_trans:
  assumes "hears_on c d" "hears_on d e"
  shows "hears_on c e"
proof (cases "channel_ok c")
  case True
  obtain new1 where d: "channel_ok d" "next_listener_id c \<le> next_listener_id d"
      "distinct_adj (last_reported c # new1)" "last_reported d = last (last_reported c # new1)"
      "\<forall>i \<le> next_listener_id c. i \<in> set (listeners d) \<longrightarrow> i \<in> set (listeners c) \<and> told i d = told i c @ new1"
    by (rule hears_onD [OF assms(1) True])
  obtain new2 where e: "channel_ok e" "next_listener_id d \<le> next_listener_id e"
      "distinct_adj (last_reported d # new2)" "last_reported e = last (last_reported d # new2)"
      "\<forall>i \<le> next_listener_id d. i \<in> set (listeners e) \<longrightarrow> i \<in> set (listeners d) \<and> told i e = told i d @ new2"
    by (rule hears_onD [OF assms(2) d(1)])
  show ?thesis
  proof (rule hears_onI [of _ _ "new1 @ new2"])
    show "channel_ok e \<and> next_listener_id c \<le> next_listener_id e
      \<and> distinct_adj (last_reported c # new1 @ new2) \<and> last_reported e = last (last_reported c # new1 @ new2)"
      using d(2-4) e(1-4) distinct_adj_continue [OF d(3), of new2] by auto
    show "i \<in> set (listeners c) \<and> told i e = told i c @ new1 @ new2"
      if "i \<le> next_listener_id c" "i \<in> set (listeners e)" for i
      using d(5) e(5) that d(2) by simp
  qed
qed (simp add: hears_on_def)

interpretation hearing: evolution hears_on
  by unfold_locales (auto intro: hears_on_refl hears_on_trans)

lemma hears_on_same:
  assumes "channel_step c c'" "delivered c' = delivered c" "listeners c' = listeners c"
    "last_reported c' = last_reported c" "next_listener_id c' = next_listener_id c"
  shows "hears_on c c'"
  by (rule hears_onI [of _ _ "[]"]) (use assms in \<open>simp_all add: channel_step_def told_def\<close>)

lemma hearing_notify: "hearing.keeps (notify (E :: 'w env))"
  unfolding hearing.keeps_def
proof (intro allI)
  fix c :: "'w client"
  let ?c = "snd (run_state (notify E) c)" and ?s = "client_state E c"
  let ?new = "if last_reported c = ?s then [] else [?s]"
  have step: "channel_step c ?c" by (rule channel.keepsD [OF channel_notify])
  show "hears_on c ?c"
  proof (rule hears_onI [of _ _ ?new])
    assume ok: "channel_ok c"
    then have q: "quiet c" and d: "distinct (listeners c)" by (simp_all add: channel_ok_def)
    note run = run_notify [OF q, of E]
    show "channel_ok ?c \<and> next_listener_id c \<le> next_listener_id ?c
        \<and> distinct_adj (last_reported c # ?new) \<and> last_reported ?c = last (last_reported c # ?new)"
      using ok step by (simp add: channel_step_def run)
    show "i \<in> set (listeners c) \<and> told i ?c = told i c @ ?new" if "i \<in> set (listeners ?c)" for i
      using told_all [OF d] that by (simp add: run told_def)
  qed
qed

lemma hearing_lifecycle: "hearing.keeps (notify_lifecycle E ev)"
  unfolding hearing.keeps_def
proof (intro allI)
  fix c
  have "channel_step c (snd (run_state (notify_lifecycle E ev) c))" by (rule channel.keepsD [OF channel_lifecycle])
  then show "hears_on c (snd (run_state (notify_lifecycle E ev) c))"
    by (intro hears_onI [of _ _ "[]"]) (simp_all add: channel_step_def notify_lifecycle_def told_def told_events)
qed

lemma hearing_heartbeat: "hearing.keeps (start_heartbeat E)"
  unfolding start_heartbeat_def
  by (intro hearing.keeps_intros hearing.keeps_modify hears_on_same channel_same) simp_all

lemma hearing_set_state: "hearing.keeps (set_client_state E s)"
  unfolding set_client_state_def
  by (intro hearing.keeps_Let hearing.keeps_intros hearing_notify hearing_lifecycle hearing_heartbeat
      hearing.keeps_modify hears_on_same channel_same) simp_all

lemma hearing_subscribe: "hearing.keeps subscribe"
  unfolding hearing.keeps_def
proof (intro allI)
  fix c :: "'a client"
  have "channel_step c (snd (run_state subscribe c))" by (rule channel.keepsD [OF channel_new_listener(1)])
  then show "hears_on c (snd (run_state subscribe c))"
    by (intro hears_onI [of _ _ "[]"]) (auto simp: channel_step_def subscribe_def told_def)
qed

lemma hearing_onLifecycle: "hearing.keeps (onLifecycle f)"
  unfolding hearing.keeps_def
proof (intro allI)
  fix c :: "'a client"
  have "channel_step c (snd (run_state (onLifecycle f) c))" by (rule channel.keepsD [OF channel_new_listener(2)])
  then show "hears_on c (snd (run_state (onLifecycle f) c))"
    by (intro hears_onI [of _ _ "[]"]) (auto simp: channel_step_def onLifecycle_def told_def)
qed

lemma hearing_unsubscribe: "hearing.keeps (unsubscribe sub)"
  unfolding hearing.keeps_def
proof (intro allI)
  fix c :: "'a client"
  have "channel_step c (snd (run_state (unsubscribe sub) c))" by (rule channel.keepsD [OF channel_unsubscribe])
  then show "hears_on c (snd (run_state (unsubscribe sub) c))"
    by (intro hears_onI [of _ _ "[]"]; cases sub) (auto simp: channel_step_def unsubscribe_def remove_listener_def told_def)
qed

lemmas hearing_new_listener = hearing_subscribe hearing_onLifecycle hearing_unsubscribe

interpretation hearing: client_evolution E hears_on for E
proof unfold_locales
  fix E :: "'a env" and c :: "'a client" and s f event sub
  show "hears_on c (snd (run_state (notify E) c))" "hears_on c (snd (run_state (set_client_state E s) c))"
    "hears_on c (snd (run_state subscribe c))" "hears_on c (snd (run_state (onLifecycle f) c))"
    "hears_on c (snd (run_state (unsubscribe sub) c))"
    by (rule hearing.keepsD, rule hearing_notify hearing_set_state hearing_new_listener)+
  show "hears_on c (snd (run_state (on event) c))"
    unfolding on_def by (rule hearing.keepsD, intro hearing.keeps_intros hearing_new_listener)
  show "hears_on c (snd (run_state stop_heartbeat c))"
    unfolding stop_heartbeat_def by (simp add: hears_on_same channel_same)
qed (simp_all add: hears_on_same channel_same)

section \<open>A change of state is reported at once\<close>

lemma run_set_state:
  assumes "quiet c"
  shows "quiet (snd (run_state (set_client_state E s) c))"
    "last_reported (snd (run_state (set_client_state E s) c)) = client_state E (snd (run_state (set_client_state E s) c))"
    "raw_state (snd (run_state (set_client_state E s) c)) = s"
    "told i (snd (run_state (set_client_state E s) c)) = told i c
       @ (if last_reported c = client_state E (snd (run_state (set_client_state E s) c)) then []
          else List.map_filter (told_to i) (map (\<lambda>j. Told j (client_state E (snd (run_state (set_client_state E s) c)))) (listeners c)))"
proof -
  let ?c' = "snd (run_state (set_client_state E s) c)"
  let ?c1 = "c\<lparr>last_seen_expiry := cached_expires_at (cache c), raw_state := s\<rparr>"
  let ?c2 = "snd (run_state (notify E) ?c1)"
  have q: "quiet ?c1" using assms by (simp add: quiet_def)
  note run = run_notify [OF q, of E]
  have same: "same_licensing (c\<lparr>raw_state := s\<rparr>) ?c'" by (rule set_client_state_same)
  then show "raw_state ?c' = s" by (simp add: same_licensing_def)
  have state: "client_state E ?c' = client_state E ?c1"
    using client_state_same [OF same, of E] by (simp add: client_state_def clock_untrusted_def)
  have "quiet ?c' = quiet ?c2 \<and> last_reported ?c' = last_reported ?c2 \<and> told i ?c' = told i ?c2"
    by (auto simp: set_client_state_def notify_lifecycle_def start_heartbeat_def quiet_def told_def told_events Let_def
        split_beta split: option.split)
  then show "quiet ?c'" "last_reported ?c' = client_state E ?c'"
    "told i ?c' = told i c @ (if last_reported c = client_state E ?c' then []
          else List.map_filter (told_to i) (map (\<lambda>j. Told j (client_state E ?c')) (listeners c)))"
    unfolding state using q by (auto simp: run quiet_def told_def)
qed

definition reports :: "'w client \<Rightarrow> bool" where
  "reports c \<longleftrightarrow> quiet c \<and> last_reported c \<in> {raw_state c, Invalid}"

definition stays_reported :: "'w client \<Rightarrow> 'w client \<Rightarrow> bool" where
  "stays_reported c c' \<longleftrightarrow> (reports c \<longrightarrow> reports c')"

interpretation reported: client_evolution E stays_reported for E
proof unfold_locales
  fix E :: "'a env" and c :: "'a client" and s f event sub
  show "stays_reported c (snd (run_state (notify E) c))"
    by (auto simp: stays_reported_def reports_def run_notify client_state_def quiet_def)
  show "stays_reported c (snd (run_state (set_client_state E s) c))"
    using run_set_state(1-3) [of c E s] by (simp add: stays_reported_def reports_def client_state_def)
  show "stays_reported c (snd (run_state subscribe c))" "stays_reported c (snd (run_state (onLifecycle f) c))"
    "stays_reported c (snd (run_state stop_heartbeat c))"
    by (simp_all add: stays_reported_def reports_def quiet_def subscribe_def onLifecycle_def stop_heartbeat_def)
  then show "stays_reported c (snd (run_state (on event) c))"
    by (simp add: on_def stays_reported_def reports_def quiet_def subscribe_def onLifecycle_def split: option.split)
  show "stays_reported c (snd (run_state (unsubscribe sub) c))"
    by (cases sub) (simp_all add: stays_reported_def reports_def quiet_def unsubscribe_def remove_listener_def)
qed (auto simp: stays_reported_def reports_def quiet_def)

lemma reports_new_client: "reports (new_client E g w)"
proof -
  have "last_reported (new_client E g w) = client_state E (new_client E g w)"
    by (simp add: new_client_def split_beta client_state_def clock_untrusted_def)
  then show ?thesis
    using channel_new_client [of E g w] by (auto simp: reports_def channel_ok_def client_state_def)
qed

text \<open>
  C20. Listeners hear every change of the reported state, at once, in order, and nothing else. After any
  history of calls no event is left undelivered, and what was last reported is the state or, with an
  untrusted clock, \<open>Invalid\<close>. Every setting of the state and every poll that changes what \<open>state()\<close>
  answers tells each listener exactly that answer, before it returns, and tells nobody anything
  otherwise. Whatever is called from there on, there is one sequence of reports, beginning with one that
  differs from the last, without repetition, ending in what is then the last report, and it is what every
  listener that stays subscribed is told.
\<close>
theorem listeners_hear_changes:
  assumes "reachable E g c"
  shows "pending c = [] \<and> \<not> delivering c \<and> last_reported c \<in> {raw_state c, Invalid}
    \<and> distinct_adj (told i c) \<and> (i \<in> set (listeners c) \<and> told i c \<noteq> [] \<longrightarrow> last (told i c) = last_reported c)
    \<and> (\<forall>m \<in> insert (notify E) (range (set_client_state E)). let c' = snd (run_state m c) in
         last_reported c' = client_state E c'
         \<and> (\<forall>j \<in> set (listeners c). told j c' = told j c
              @ (if last_reported c = client_state E c' then [] else [client_state E c'])))
    \<and> (\<forall>c'. (api_step E)\<^sup>*\<^sup>* c c' \<longrightarrow>
         (\<exists>new. distinct_adj (last_reported c # new) \<and> last_reported c' = last (last_reported c # new)
            \<and> (\<forall>j \<in> set (listeners c) \<inter> set (listeners c'). told j c' = told j c @ new)))"
proof -
  obtain w where history: "(api_step E)\<^sup>*\<^sup>* (new_client E g w) c" using assms by (auto simp: reachable_def)
  from channel.history_R [OF this] have ok: "channel_ok c"
    using channel_new_client [of E g w] by (simp add: channel_step_def)
  from reported.history_R [OF history] have "reports c"
    using reports_new_client [of E g w] by (simp add: stays_reported_def)
  from ok have q: "quiet c" and d: "distinct (listeners c)" by (simp_all add: channel_ok_def)
  have state: "client_state E (snd (run_state (notify E) c)) = client_state E c"
    by (rule client_state_same) (rule same.keepsD [OF same_notify])
  have poll: "last_reported (snd (run_state (notify E) c)) = client_state E (snd (run_state (notify E) c))"
    "told j (snd (run_state (notify E) c)) = told j c
       @ (if last_reported c = client_state E (snd (run_state (notify E) c)) then []
          else List.map_filter (told_to j) (map (\<lambda>k. Told k (client_state E (snd (run_state (notify E) c)))) (listeners c)))"
    for j unfolding state by (simp_all add: run_notify [OF q] told_def)
  have "\<exists>new. distinct_adj (last_reported c # new) \<and> last_reported c' = last (last_reported c # new)
      \<and> (\<forall>j \<in> set (listeners c) \<inter> set (listeners c'). told j c' = told j c @ new)"
    if later: "(api_step E)\<^sup>*\<^sup>* c c'" for c'
  proof -
    have ids: "j \<le> next_listener_id c" if "j \<in> set (listeners c)" for j using ok that by (simp add: channel_ok_def)
    obtain new where
      "distinct_adj (last_reported c # new)" "last_reported c' = last (last_reported c # new)"
      "\<forall>j \<le> next_listener_id c. j \<in> set (listeners c') \<longrightarrow> j \<in> set (listeners c) \<and> told j c' = told j c @ new"
      by (rule hears_onD [OF hearing.history_R [OF later] ok])
    with ids show ?thesis by blast
  qed
  moreover have "let c' = snd (run_state m c) in last_reported c' = client_state E c'
         \<and> (\<forall>j \<in> set (listeners c). told j c' = told j c
              @ (if last_reported c = client_state E c' then [] else [client_state E c']))"
    if "m \<in> insert (notify E) (range (set_client_state E))" for m
    using that poll run_set_state(2,4) [OF q, where E = E] told_all [OF d] by (auto simp: Let_def)
  ultimately show ?thesis
    using ok \<open>reports c\<close> by (auto simp: channel_ok_def reports_def quiet_def)
qed

definition heard_client :: "tworld client" where
  "heard_client = snd (run_state (do { _ \<leftarrow> subscribe; startTrial scripted64 })
     (new_client scripted64 (test_config\<lparr>trialDurationDays := 14\<rparr>) (disk_world 1000 [])))"

lemma reachable_heard: "reachable scripted64 (test_config\<lparr>trialDurationDays := 14\<rparr>) heard_client"
proof -
  let ?g = "test_config\<lparr>trialDurationDays := 14\<rparr>"
  let ?c0 = "new_client scripted64 ?g (disk_world 1000 [])"
  obtain i c1 where s: "run_state subscribe ?c0 = (i, c1)" by force
  obtain r c2 where t: "run_state (startTrial scripted64) c1 = (r, c2)" by force
  have "(api_step scripted64)\<^sup>*\<^sup>* ?c0 c2"
    using st_call [OF st_subscribe [OF s]] st_call [OF st_trial [OF t]] by (meson rtranclp.rtrancl_into_rtrancl rtranclp.rtrancl_refl)
  moreover have "heard_client = c2" by (simp add: heard_client_def s t)
  ultimately show ?thesis unfolding reachable_def by blast
qed

theorem listeners_hear_changes_witness:
  "pending heard_client = [] \<and> distinct_adj (told 1 heard_client)
    \<and> last_reported (snd (run_state (set_client_state scripted64 Expired) heard_client))
        = client_state scripted64 (snd (run_state (set_client_state scripted64 Expired) heard_client))"
  using listeners_hear_changes [OF reachable_heard, of 1] by (simp add: Let_def)

end
