(* ===== verification/Client_History.thy ===== *)
theory Client_History
  imports Client_Restart
begin

text \<open>
  What holds over whole histories of calls: what is fixed for good, where the server-owned settings
  come from, what an entitlement rests on, and the trial window.
\<close>

section \<open>Fixed for good\<close>

text \<open>
  The trial cannot be restarted and the device keeps its anonymous id: once set, neither the trial
  start nor the id is changed by any later sequence of calls (deactivation included), nor is the
  configuration; asking for a trial again keeps the first start.
\<close>
theorem never_reset:
  assumes "(api_step E)\<^sup>*\<^sup>* c c'"
  shows "cfg c' = cfg c
    \<and> (\<forall>t. cached_trial_start (cache c) = Some t \<longrightarrow> cached_trial_start (cache c') = Some t)
    \<and> (\<forall>i. cached_free_tier_instance_id (cache c) = Some i \<longrightarrow> cached_free_tier_instance_id (cache c') = Some i)
    \<and> cached_trial_start (cache (snd (run_state (startTrial E) c)))
        = Some (case cached_trial_start (cache c) of None \<Rightarrow> e_now E (world c) | Some t \<Rightarrow> t)"
proof -
  have keep: "kept c c'" by (rule kept.history_R [OF assms])
  have start: "kept d (snd (run_state (do { _ \<leftarrow> freeTierInstanceId E; resolve_locally E }) d))" for d :: "'a client"
    by (rule kept.keepsD) (intro kept.keeps_intros kept.keeps_free_tier kept.keeps_resolve_locally)
  have "cached_trial_start (cache (snd (run_state (startTrial E) c)))
        = Some (case cached_trial_start (cache c) of None \<Rightarrow> e_now E (world c) | Some t \<Rightarrow> t)"
  proof (cases "cached_trial_start (cache c)")
    case None
    let ?d = "snd (run_state (save_cache E) (c\<lparr>cache := (cache c)\<lparr>cached_trial_start := Some (e_now E (world c))\<rparr>\<rparr>))"
    have "cached_trial_start (cache ?d) = Some (e_now E (world c))" by simp
    with start [of ?d] None show ?thesis by (simp add: startTrial_def kept_def split_beta)
  next
    case (Some t)
    with start [of c] show ?thesis by (simp add: startTrial_def kept_def)
  qed
  with keep show ?thesis by (simp add: kept_def)
qed

theorem never_reset_witness:
  "let c = new_client scripted64 test_config (disk_world 90000 (build_blob trial_cache));
       c' = snd (run_state (deactivate scripted64) c)
   in cached_trial_start (cache c') = Some 1000"
proof -
  let ?c = "new_client scripted64 test_config (disk_world 90000 (build_blob trial_cache))"
  obtain u c' where d: "run_state (deactivate scripted64) ?c = (u, c')" by force
  have "(api_step scripted64)\<^sup>*\<^sup>* ?c c'" using st_call [OF st_deactivate [OF d]] by (rule r_into_rtranclp)
  from never_reset [OF this] show ?thesis
    using cache_new_trial [of test_config 90000] by (simp add: Let_def d)
qed

section \<open>Server-owned settings\<close>

text \<open>
  C19. With \<open>requireSignedConfig\<close>, the trial length and the free-tier flag a client acts on were either on
  its own disk when it started or came in an envelope that a configured key signed for exactly this
  tenant, product and pair of values, inside its validity window when it was absorbed; no history
  of calls, and no server without the key, brings in anything else.
\<close>
theorem settings_are_signed:
  assumes "requireSignedConfig g" "(api_step E)\<^sup>*\<^sup>* (new_client E g w) c"
  shows "(cached_server_trial_days (cache c) = cached_server_trial_days (cache (new_client E g w))
           \<and> cached_server_free_tier (cache c) = cached_server_free_tier (cache (new_client E g w)))
       \<or> authentic E g (cached_server_trial_days (cache c)) (cached_server_free_tier (cache c))"
  using settings.history_R [OF assms(2)] assms(1) reachable_cfg [OF reachable_new [of E g w]]
  by (simp add: settings_signed_def)

theorem settings_are_signed_witness:
  "let g = test_config\<lparr>requireSignedConfig := True\<rparr>;
       c = new_client scripted64 g (disk_world 90000 (build_blob trial_cache));
       c' = snd (run_state (fetchConfig scripted64) c)
   in cached_server_trial_days (cache c') = Some 14
      \<or> authentic scripted64 g (cached_server_trial_days (cache c')) (cached_server_free_tier (cache c'))"
proof -
  let ?g = "test_config\<lparr>requireSignedConfig := True\<rparr>"
  let ?w = "disk_world 90000 (build_blob trial_cache)"
  obtain u c' where d: "run_state (fetchConfig scripted64) (new_client scripted64 ?g ?w) = (u, c')" by force
  have "(api_step scripted64)\<^sup>*\<^sup>* (new_client scripted64 ?g ?w) c'" using st_call [OF st_config [OF d]] by (rule r_into_rtranclp)
  from settings_are_signed [OF _ this] show ?thesis
    using cache_new_trial [of ?g 90000] by (auto simp: Let_def d)
qed

section \<open>Entitlements\<close>

text \<open>
  A feature is unlocked only by a signature: \<open>hasEntitlement\<close> is true exactly when the clock is
  trusted and the cached lease lists the feature, is vouched for by a configured key, is not past
  its expiry by more than the tolerance and does not say expired.
\<close>
theorem entitlement_needs_lease:
  "hasEntitlement E c f \<longleftrightarrow> \<not> clock_untrusted E c \<and>
     (\<exists>l. cachedLease c = Some l \<and> f \<in> set (entitlements l) \<and> vouched E (cfg c) l
        \<and> e_now E (world c) \<le> i64 (expiresAt l + 300) \<and> status l \<noteq> ''expired'')"
  by (auto simp: hasEntitlement_def Let_def cachedLease_def trusted_iff_vouched [symmetric] verify_lease_def
      expired_verify split: option.split)

text \<open>
  The README and the comment promise that \<open>hasEntitlement\<close> never unlocks a feature while the state
  resolves to \<open>Expired\<close>. It does: a client that starts from a good lease after twenty days without
  contact, where fifteen are allowed, is \<open>Expired\<close> and still has its entitlement.
\<close>
theorem entitlement_outlives_state:
  "let c = new_client scripted64 test_config
       (disk_world (1000 + 20 * 86400) (build_blob (licensed_cache (test_lease ''active'' 9000000))))
   in client_state scripted64 c = Expired \<and> hasEntitlement scripted64 c ''pro''"
proof -
  let ?l = "test_lease ''active'' 9000000" let ?k = "licensed_cache ?l"
  let ?w = "disk_world 1729000 (build_blob ?k)"
  have l: "lease_ok ?l" by (rule lease_ok_test) (simp_all add: in64_def INT64_MIN_def INT64_MAX_def)
  then have k: "cache_ok ?k" "canonical_cache ?k = ?k"
    by (simp_all add: licensed_cache_def cache_ok_def empty_cache_def in64_def INT64_MIN_def INT64_MAX_def
        canonical_cache_def nonempty_def)
  have fields: "cached_lease ?k = Some ?l" "cached_last_validated_online ?k = 1000"
    by (simp_all add: licensed_cache_def)
  have now: "e_now scripted64 ?w = 1729000"
    by (simp add: scripted64_def disk_world_def in64_def INT64_MIN_def INT64_MAX_def)
  have eq: "new_client scripted64 test_config ?w = resumed scripted64 test_config ?k ?w"
    using new_client_resumes [OF k(1), of scripted64 ?w ?w test_config] k(2) by simp
  have fresh: "\<not> expired (verify_lease scripted64 d ?l)" if "world d = ?w" for d
    using that by (simp add: verify_lease_def expired_verify now) (simp add: in64_def INT64_MIN_def INT64_MAX_def)
  then have "paid_state scripted64 (loaded test_config ?k ?w) = Expired"
    using now
    by (simp add: paid_state_def fields derive_state_from_verify_def bound_offline_def trusted_iff_vouched)
      (simp add: test_config_def default_config_def in64_def INT64_MIN_def INT64_MAX_def)
  moreover have trust: "\<not> clock_untrusted scripted64 (resumed scripted64 test_config ?k ?w)"
    by (simp add: clock_untrusted_def now fields clock_rolled_back_def CLOCK_BACKWARD_TOLERANCE_def in64_def
        INT64_MIN_def INT64_MAX_def)
  moreover have "hasEntitlement scripted64 (resumed scripted64 test_config ?k ?w) ''pro''"
    using trust fresh
    by (simp add: hasEntitlement_def fields trusted_iff_vouched Let_def)
  ultimately show ?thesis by (simp add: Let_def eq client_state_def resolve_with_trial_def)
qed

section \<open>The trial window\<close>

text \<open>
  C36. The trial window is exactly the configured number of days: with a start and a clock whose distance
  fits 64 bits, the trial is active from the start (or any earlier time) until \<open>duration\<close> days of
  seconds have passed, the days left are the whole days not yet begun, positive exactly while it is
  active, and never more than the duration.
\<close>
theorem trial_window:
  assumes "cached_trial_start (cache c) = Some start" "in64 (e_now E (world c) - start)"
    "in32 (effectiveTrialDurationDays c)"
  shows "let d = effectiveTrialDurationDays c; elapsed = max 0 (e_now E (world c) - start) in
     (checkTrial E c = TS_Active \<longleftrightarrow> elapsed < d * 86400)
     \<and> (checkTrial E c = TS_Expired \<longleftrightarrow> 0 < d \<and> d * 86400 \<le> elapsed)
     \<and> trialDaysLeft E c = max 0 (d - elapsed div 86400)
     \<and> (0 < trialDaysLeft E c \<longleftrightarrow> checkTrial E c = TS_Active) \<and> trialDaysLeft E c \<le> max 0 d"
proof -
  define d where "d = effectiveTrialDurationDays c"
  define x where "x = max 0 (e_now E (world c) - start)"
  have left: "days_left_from E c start d = d - x div 86400"
    using assms(2) by (simp add: days_left_from_def Let_def x_def max_def)
  have x: "0 \<le> x" "0 \<le> x div 86400" by (simp_all add: x_def)
  have "x = x div 86400 * 86400 + x mod 86400" "0 \<le> x mod 86400" "x mod 86400 < 86400" by simp_all
  then have lt: "0 < d - x div 86400 \<longleftrightarrow> x < d * 86400" by (intro iffI; linarith)
  have fits: "in32 (d - x div 86400)" if "0 < d - x div 86400"
    using that x assms(3) by (simp add: in32_def d_def)
  have neg: "\<not> x < d * 86400" if "d \<le> 0" using that x by simp
  show ?thesis
    using lt x fits neg
    by (auto simp: Let_def d_def [symmetric] x_def [symmetric] checkTrial_def trialDaysLeft_def assms(1) left)
qed

theorem trial_window_witness:
  "let c = new_client scripted64 test_config (disk_world 90000 (build_blob trial_cache)) in
     checkTrial scripted64 c = TS_Active \<and> trialDaysLeft scripted64 c = 13"
proof -
  let ?c = "new_client scripted64 test_config (disk_world 90000 (build_blob trial_cache))"
  have c: "cache ?c = trial_cache" by (rule cache_new_trial)
  have "world ?c = disk_world 90000 (build_blob trial_cache)"
    using new_client_resumes [OF trial_cache_facts(1), of scripted64 _ _ test_config] by simp
  then have now: "e_now scripted64 (world ?c) = 90000"
    by (simp add: scripted64_def disk_world_def in64_def INT64_MIN_def INT64_MAX_def)
  have "cached_trial_start (cache ?c) = Some 1000" "effectiveTrialDurationDays ?c = 14"
    by (simp_all add: c effectiveTrialDurationDays_def)
  with trial_window [of ?c 1000 scripted64] now show ?thesis
    by (simp add: Let_def in64_def in32_def INT64_MIN_def INT64_MAX_def)
qed

end
