(* ===== verification/Client_Upgrade.thy ===== *)
theory Client_Upgrade
  imports Client_World
begin

text \<open>
  The polling loop of \<open>refreshAfterUpgrade\<close>: it returns once the clock moves, after a number of rounds
  the timeout bounds, and its answer says whether anything changed.
\<close>

text \<open>
  A clock of seconds read off one of milliseconds that never runs backwards and that sleeping moves by at
  least the time slept.
\<close>

definition clock_runs :: "'w env \<Rightarrow> ('w \<Rightarrow> int) \<Rightarrow> bool" where
  "clock_runs E ms \<longleftrightarrow> (\<forall>w s n r. e_now E w = ms w div 1000
     \<and> ms w \<le> ms (snd (e_save E s w)) \<and> ms w \<le> ms (snd (e_clear E w))
     \<and> ms w \<le> ms (snd (e_rand_bytes E n w)) \<and> ms w \<le> ms (snd (e_rand64 E w))
     \<and> ms w \<le> ms (snd (e_request E r w)) \<and> ms w + int n \<le> ms (e_sleep E n w))"

definition not_earlier :: "('w \<Rightarrow> int) \<Rightarrow> 'w \<Rightarrow> 'w \<Rightarrow> bool" where
  "not_earlier ms w w' \<longleftrightarrow> ms w \<le> ms w'"

lemma clock_evolution:
  assumes "clock_runs E ms" shows "network_evolution E (not_earlier ms)"
proof unfold_locales
  show "not_earlier ms w (e_sleep E n w)" for w n
  proof -
    have "ms w + int n \<le> ms (e_sleep E n w)" using assms by (simp add: clock_runs_def)
    then show ?thesis unfolding not_earlier_def by linarith
  qed
qed (use assms in \<open>auto simp: clock_runs_def not_earlier_def\<close>)

lemma validate_not_earlier:
  assumes "clock_runs E ms" shows "ms (world c) \<le> ms (world (snd (run_state (validate E) c)))"
proof -
  have "evolution (\<lambda>c c' :: 'a client. not_earlier ms (world c) (world c'))"
    by unfold_locales (auto simp: not_earlier_def)
  from evolution.keeps_def [OF this, of "validate E"] network_evolution.keeps_validate [OF clock_evolution [OF assms]]
  show ?thesis by (simp add: not_earlier_def)
qed

lemma upgrade_loop_returns:
  assumes "clock_runs E ms" "1000 * deadline - ms (world c) \<le> int (n * interval)"
  shows "\<exists>b. fst (run_state (upgrade_loop E ents st interval deadline (Suc n)) c) = Some b"
  using assms(2)
proof (induction n arbitrary: c)
  case 0
  have "1000 * deadline \<le> ms (world (snd (run_state (validate E) c)))"
    using validate_not_earlier [OF assms(1), of c] 0 by simp
  then have "deadline \<le> e_now E (world (snd (run_state (validate E) c)))"
    using assms(1) by (simp add: clock_runs_def)
  then show ?case by (auto simp: split_beta)
next
  case (Suc n)
  let ?c = "snd (run_state (validate E) c)"
  have later: "ms (world c) \<le> ms (world ?c)" by (rule validate_not_earlier [OF assms(1)])
  show ?case
  proof (cases "(sorted_entitlements ?c \<noteq> ents \<or> raw_state ?c \<noteq> st) \<or> deadline \<le> e_now E (world ?c)")
    case True
    then show ?thesis by (auto simp: split_beta)
  next
    case False
    let ?d = "?c\<lparr>world := e_sleep E interval (world ?c)\<rparr>"
    have "ms (world ?c) + int interval \<le> ms (world ?d)" using assms(1) by (simp add: clock_runs_def)
    then have "1000 * deadline - ms (world ?d) \<le> int (n * interval)"
      using Suc.prems later by (simp add: algebra_simps)
    from Suc.IH [OF this] False show ?thesis
      unfolding upgrade_loop.simps(2) [of E ents st interval deadline "Suc n"]
      by (simp add: split_beta sleep_ms_def del: upgrade_loop.simps)
  qed
qed

lemma upgrade_loop_answer:
  "fst (run_state (upgrade_loop E ents st interval deadline n) c) = Some b \<Longrightarrow>
   b \<longleftrightarrow> (let c' = snd (run_state (upgrade_loop E ents st interval deadline n) c) in
      sorted_entitlements c' \<noteq> ents \<or> raw_state c' \<noteq> st)"
  by (induction n arbitrary: c) (auto simp: split_beta sleep_ms_def Let_def split: if_splits)

text \<open>What the loop sleeps between two rounds, and how long it is to wait, in milliseconds.\<close>

definition poll_ms :: "int \<Rightarrow> nat" where
  "poll_ms pollIntervalMs = (if 0 < pollIntervalMs then nat pollIntervalMs else 100)"

definition wait_ms :: "int \<Rightarrow> int" where
  "wait_ms timeoutMs = 1000 * max 0 (timeoutMs div 1000)"

text \<open>
  C35. Waiting for an upgrade ends, with any timeout and any poll interval, also one that is zero or
  negative: on a clock that sleeping advances by the time slept, the loop makes at most one round more
  than it takes intervals (a tenth of a second for one that is not positive) to fill the timeout's whole
  seconds, and it answers true exactly when there was a license and its entitlements or the state are
  no longer what they were.
\<close>
theorem upgrade_terminates:
  assumes "clock_runs E ms" "in64 (e_now E (world c) + max 0 (timeoutMs div 1000))"
    "wait_ms timeoutMs \<le> int (rounds * poll_ms pollIntervalMs)"
  shows "\<exists>b c'. run_state (refreshAfterUpgrade E (Suc rounds) timeoutMs pollIntervalMs) c = (Some b, c')
    \<and> (b \<longleftrightarrow> hasStoredLicense c \<and> (sorted_entitlements c' \<noteq> sorted_entitlements c \<or> raw_state c' \<noteq> raw_state c))"
proof (cases "hasStoredLicense c")
  case True
  let ?wait = "if 0 < timeoutMs then timeoutMs div 1000 else 0"
  have wait: "?wait = max 0 (timeoutMs div 1000)"
    by (auto simp: max_def pos_imp_zdiv_nonneg_iff div_nonpos_pos_le0 not_less)
  let ?m = "upgrade_loop E (sorted_entitlements c) (raw_state c) (poll_ms pollIntervalMs)
      (i64 (e_now E (world c) + ?wait)) (Suc rounds)"
  have run: "run_state (refreshAfterUpgrade E (Suc rounds) timeoutMs pollIntervalMs) c = run_state ?m c"
    using True by (simp add: refreshAfterUpgrade_def poll_ms_def Let_def del: upgrade_loop.simps)
  have "\<exists>b. fst (run_state ?m c) = Some b"
  proof (rule upgrade_loop_returns [OF assms(1)])
    have "1000 * (ms (world c) div 1000) \<le> ms (world c)" by simp
    then show "1000 * i64 (e_now E (world c) + ?wait) - ms (world c) \<le> int (rounds * poll_ms pollIntervalMs)"
      using assms(1,2,3) unfolding wait by (simp add: clock_runs_def wait_ms_def algebra_simps)
  qed
  then obtain b where b: "fst (run_state ?m c) = Some b" by blast
  from upgrade_loop_answer [OF b] b True show ?thesis
    unfolding run by (intro exI [of _ b] exI [of _ "snd (run_state ?m c)"]) (simp add: prod_eq_iff Let_def)
next
  case False
  then show ?thesis by (auto simp: refreshAfterUpgrade_def)
qed

text \<open>The scripted world with its clock in milliseconds.\<close>

definition ticking :: "tworld env" where
  "ticking = scripted\<lparr>e_now := \<lambda>w. t_now w div 1000, e_sleep := \<lambda>n w. w\<lparr>t_now := t_now w + int n\<rparr>\<rparr>"

text \<open>Half a minute, polled with an interval of zero: three hundred rounds and one.\<close>

theorem upgrade_terminates_witness:
  "let c = licensed_client (test_lease ''active'' 900000) (disk_world 1100000 []) in
     hasStoredLicense c \<and> fst (run_state (refreshAfterUpgrade ticking 301 30000 0) c) \<noteq> None"
proof -
  let ?c = "licensed_client (test_lease ''active'' 900000) (disk_world 1100000 [])"
  have "clock_runs ticking t_now"
    by (simp add: clock_runs_def ticking_def scripted_def split: list.split)
  moreover have "in64 (e_now ticking (world ?c) + max 0 (30000 div 1000))"
    by (simp add: ticking_def licensed_client_def disk_world_def blank_client_def in64_def INT64_MIN_def INT64_MAX_def)
  moreover have "wait_ms 30000 \<le> int (300 * poll_ms 0)" by (simp add: wait_ms_def poll_ms_def)
  moreover have "hasStoredLicense ?c" by (simp add: hasStoredLicense_def licensed_client_def licensed_cache_def)
  moreover have "301 = Suc (300 :: nat)" by simp
  ultimately show ?thesis
    using upgrade_terminates [of ticking t_now ?c 30000 300 0] by (auto simp: Let_def)
qed

end
