(* ===== verification/Chacha20.thy ===== *)
theory Chacha20
  imports Prelude "HOL-Library.Word"
begin

unbundle bit_operations_syntax

text \<open>
  The ChaCha20 stream of \<open>chacha20poly1305.hpp\<close>: little-endian loads and stores, the quarter round, the
  block function and the XOR loop. The loop is shown to be the keystream applied byte by byte, and
  so its own inverse.
\<close>

type_synonym c32 = "32 word"

definition cc_rotl32 :: "c32 \<Rightarrow> nat \<Rightarrow> c32" where
  "cc_rotl32 x n = push_bit n x OR drop_bit (32 - n) x"

definition cc_load32_le :: "byte list \<Rightarrow> nat \<Rightarrow> c32" where
  "cc_load32_le p k =
     ucast (p ! k) OR push_bit 8 (ucast (p ! (k + 1))) OR push_bit 16 (ucast (p ! (k + 2)))
     OR push_bit 24 (ucast (p ! (k + 3)))"

definition cc_store32_le :: "c32 \<Rightarrow> byte list" where
  "cc_store32_le v = [ucast v, ucast (drop_bit 8 v), ucast (drop_bit 16 v), ucast (drop_bit 24 v)]"

definition cc_store64_le :: "64 word \<Rightarrow> byte list" where
  "cc_store64_le v = map (\<lambda>i. ucast (drop_bit (8 * i) v)) [0..<8]"

definition cc_quarter_round :: "c32 \<Rightarrow> c32 \<Rightarrow> c32 \<Rightarrow> c32 \<Rightarrow> c32 \<times> c32 \<times> c32 \<times> c32" where
  "cc_quarter_round a b c d =
     (let a = a + b; d = cc_rotl32 (d XOR a) 16;
          c = c + d; b = cc_rotl32 (b XOR c) 12;
          a = a + b; d = cc_rotl32 (d XOR a) 8;
          c = c + d; b = cc_rotl32 (b XOR c) 7
      in (a, b, c, d))"

definition round_at :: "c32 list \<Rightarrow> nat \<times> nat \<times> nat \<times> nat \<Rightarrow> c32 list" where
  "round_at x q =
     (case q of (i, j, k, l) \<Rightarrow>
        (case cc_quarter_round (x ! i) (x ! j) (x ! k) (x ! l) of (a, b, c, d) \<Rightarrow>
           x[i := a, j := b, k := c, l := d]))"

definition double_round :: "c32 list \<Rightarrow> c32 list" where
  "double_round x = foldl round_at x
     [(0, 4, 8, 12), (1, 5, 9, 13), (2, 6, 10, 14), (3, 7, 11, 15),
      (0, 5, 10, 15), (1, 6, 11, 12), (2, 7, 8, 13), (3, 4, 9, 14)]"

definition kSigma :: "byte list" where
  "kSigma = bytes_of ''expand 32-byte k''"

definition initial_state :: "byte list \<Rightarrow> c32 \<Rightarrow> byte list \<Rightarrow> c32 list" where
  "initial_state key counter nonce =
     map (\<lambda>i. cc_load32_le kSigma (4 * i)) [0..<4] @ map (\<lambda>i. cc_load32_le key (4 * i)) [0..<8]
     @ [counter] @ map (\<lambda>i. cc_load32_le nonce (4 * i)) [0..<3]"

definition chacha20_block :: "byte list \<Rightarrow> c32 \<Rightarrow> byte list \<Rightarrow> byte list" where
  "chacha20_block key counter nonce =
     (let s = initial_state key counter nonce; x = (double_round ^^ 10) s in
      concat (map cc_store32_le (map2 (+) x s)))"

function chacha20_xor :: "byte list \<Rightarrow> c32 \<Rightarrow> byte list \<Rightarrow> byte list \<Rightarrow> byte list" where
  "chacha20_xor key counter nonce inp =
     (if inp = [] then []
      else map2 (XOR) (take 64 inp) (chacha20_block key counter nonce)
           @ chacha20_xor key (counter + 1) nonce (drop 64 inp))"
  by pat_completeness auto
termination chacha20_xor
  by (relation "measure (\<lambda>(k, c, n, i). length i)") auto

declare chacha20_xor.simps [simp del]

lemma chacha20_xor_Nil [simp]: "chacha20_xor key counter nonce [] = []"
  by (simp add: chacha20_xor.simps)

section \<open>Lengths\<close>

lemma length_round_at [simp]: "length (round_at x q) = length x"
  by (simp add: round_at_def split: prod.split)

lemma length_rounds [simp]: "length (foldl round_at x qs) = length x"
  by (induction qs arbitrary: x) simp_all

lemma length_double_rounds [simp]: "length ((double_round ^^ n) x) = length x"
  by (induction n) (simp_all add: double_round_def)

lemma length_initial_state [simp]: "length (initial_state key counter nonce) = 16"
  by (simp add: initial_state_def)

lemma length_store32 [simp]: "length (cc_store32_le v) = 4"
  by (simp add: cc_store32_le_def)

lemma length_concat_store32 [simp]: "length (concat (map cc_store32_le ws)) = 4 * length ws"
  by (induction ws) simp_all

lemma length_chacha20_block [simp]: "length (chacha20_block key counter nonce) = 64"
  by (simp add: chacha20_block_def Let_def del: map_map)

section \<open>The keystream\<close>

text \<open>Byte \<open>i\<close> of the stream: in block \<open>i div 64\<close> after the first counter, at \<open>i mod 64\<close>.\<close>

definition keystream :: "byte list \<Rightarrow> c32 \<Rightarrow> byte list \<Rightarrow> nat \<Rightarrow> byte" where
  "keystream key counter nonce i = chacha20_block key (counter + of_nat (i div 64)) nonce ! (i mod 64)"

lemma keystream_shift:
  "64 \<le> i \<Longrightarrow> keystream key (counter + 1) nonce (i - 64) = keystream key counter nonce i"
proof -
  assume "64 \<le> i"
  then have "(i - 64) div 64 = i div 64 - 1" "(i - 64) mod 64 = i mod 64" "1 \<le> i div 64"
    by (simp_all add: le_div_geq le_mod_geq)
  then show ?thesis by (simp add: keystream_def of_nat_diff)
qed

lemma length_chacha20_xor [simp]: "length (chacha20_xor key counter nonce xs) = length xs"
proof (induction key counter nonce xs rule: chacha20_xor.induct)
  case (1 key counter nonce inp)
  then show ?case by (cases "inp = []") (simp_all add: chacha20_xor.simps [of key counter nonce inp])
qed

lemma chacha20_xor_nth:
  "i < length xs \<Longrightarrow> chacha20_xor key counter nonce xs ! i = xs ! i XOR keystream key counter nonce i"
proof (induction key counter nonce xs arbitrary: i rule: chacha20_xor.induct)
  case (1 key counter nonce xs)
  then have ne: "xs \<noteq> []" by auto
  have eq: "chacha20_xor key counter nonce xs =
      map2 (XOR) (take 64 xs) (chacha20_block key counter nonce) @ chacha20_xor key (counter + 1) nonce (drop 64 xs)"
    using ne by (simp add: chacha20_xor.simps [of key counter nonce xs])
  show ?case
  proof (cases "i < 64")
    case True
    then show ?thesis using 1(2) by (simp add: eq nth_append keystream_def)
  next
    case False
    then have "i - 64 < length (drop 64 xs)" using 1(2) by simp
    from 1(1) [OF ne this] False 1(2) show ?thesis
      by (simp add: eq nth_append keystream_shift)
  qed
qed

text \<open>The loop is the keystream, byte by byte; it undoes itself.\<close>

lemma chacha20_xor_eq:
  "chacha20_xor key counter nonce xs = map (\<lambda>i. xs ! i XOR keystream key counter nonce i) [0..<length xs]"
  by (rule nth_equalityI) (simp_all add: chacha20_xor_nth)

lemma chacha20_xor_involution [simp]:
  "chacha20_xor key counter nonce (chacha20_xor key counter nonce xs) = xs"
  by (rule nth_equalityI) (simp_all add: chacha20_xor_nth xor.assoc)

end
