(* ===== verification/Little_Endian.thy ===== *)
theory Little_Endian
  imports Prelude
begin

text \<open>
  Byte strings as little-endian numbers, as the one-time authenticator and the signature check read
  and write them.
\<close>

unbundle bit_operations_syntax

fun le_num :: "byte list \<Rightarrow> nat" where
  "le_num [] = 0"
| "le_num (b # bs) = unat b + 256 * le_num bs"

definition le_bytes :: "nat \<Rightarrow> nat \<Rightarrow> byte list" where
  "le_bytes k n = map (\<lambda>i. of_nat (n div 256 ^ i)) [0..<k]"

lemma le_num_append: "le_num (xs @ ys) = le_num xs + 256 ^ length xs * le_num ys"
  by (induction xs) (simp_all add: algebra_simps)

lemma le_num_zeros [simp]: "le_num (replicate n 0) = 0"
  by (induction n) simp_all

lemma byte_less: "unat (b :: byte) < 256"
  using unsigned_less [of b] by simp

lemma le_num_less: "le_num bs < 256 ^ length bs"
proof (induction bs)
  case (Cons b bs)
  have "unat b + 256 * le_num bs < 256 * Suc (le_num bs)" using byte_less [of b] by simp
  also have "\<dots> \<le> 256 * 256 ^ length bs" using Cons by (intro mult_le_mono2) simp
  finally show ?case by simp
qed simp

lemma le_num_inject: "length xs = length ys \<Longrightarrow> le_num xs = le_num ys \<Longrightarrow> xs = ys"
proof (induction xs ys rule: list_induct2)
  case (Cons x xs y ys)
  have eq: "unat x + 256 * le_num xs = unat y + 256 * le_num ys" using Cons.prems by simp
  have "(unat x + 256 * le_num xs) mod 256 = (unat y + 256 * le_num ys) mod 256" using eq by simp
  then have "unat x = unat y" using byte_less [of x] byte_less [of y] by simp
  moreover from this eq have "le_num xs = le_num ys" by simp
  ultimately have "x = y" "le_num xs = le_num ys" by (auto intro: unsigned_word_eqI)
  then show ?case using Cons.IH by simp
qed simp

lemma le_num_le_bytes: "le_num (le_bytes k n) = n mod 256 ^ k"
proof (induction k arbitrary: n)
  case (Suc k)
  have "le_bytes (Suc k) n = of_nat n # le_bytes k (n div 256)"
    by (rule nth_equalityI) (auto simp: le_bytes_def nth_Cons div_mult2_eq split: nat.split simp del: upt_Suc)
  then show ?case using Suc [of "n div 256"] by (simp add: unat_of_nat mod_mult2_eq)
qed (simp add: le_bytes_def)

lemma bit_le_num: "bit (le_num bs) n \<longleftrightarrow> n < 8 * length bs \<and> bit (bs ! (n div 8)) (n mod 8)"
proof (induction bs arbitrary: n)
  case (Cons b bs)
  have or: "le_num (b # bs) = unat b OR push_bit 8 (le_num bs)"
  proof -
    have "unat b + push_bit 8 (le_num bs) = unat b OR push_bit 8 (le_num bs)"
      by (rule disjunctive_add) (auto simp: bit_push_bit_iff bit_unsigned_iff dest: bit_imp_le_length)
    then show ?thesis by (simp add: push_bit_eq_mult)
  qed
  show ?case
  proof (cases "n < 8")
    case True
    then show ?thesis by (simp add: or bit_or_iff bit_push_bit_iff bit_unsigned_iff del: le_num.simps)
  next
    case False
    then have "n div 8 = Suc ((n - 8) div 8)" "n mod 8 = (n - 8) mod 8" by (simp_all add: le_div_geq le_mod_geq)
    moreover have "\<not> bit b n" using False by (auto dest: bit_imp_le_length)
    ultimately show ?thesis using False Cons [of "n - 8"]
      by (auto simp: or bit_or_iff bit_push_bit_iff bit_unsigned_iff simp del: le_num.simps)
  qed
qed simp

end
