(* ===== verification/Poly1305.thy ===== *)
theory Poly1305
  imports Chacha20 Block_Hash Little_Endian
begin

unbundle bit_operations_syntax

text \<open>
  The one-time authenticator of \<open>chacha20poly1305.hpp\<close>: five 26-bit limbs in 32-bit words, products in
  64-bit words, the lazy carries of \<open>blocks\<close> and the conditional subtraction of \<open>finish\<close>. The main
  result is that none of it overflows and that the tag is the polynomial modulo \<open>2^130 - 5\<close> of the
  RFC, for every way of cutting the message into updates.
\<close>

type_synonym limbs = "c32 \<times> c32 \<times> c32 \<times> c32 \<times> c32"

record poly1305 =
  p_r :: limbs
  p_h :: limbs
  p_pad :: "c32 list"
  p_buffer :: "byte list"  \<comment> \<open>the first \<open>leftover_\<close> bytes of \<open>buffer_\<close>\<close>
  p_final :: bool

definition poly_init :: "byte list \<Rightarrow> poly1305" where
  "poly_init key =
     \<lparr>p_r = (cc_load32_le key 0 AND 0x3ffffff,
             drop_bit 2 (cc_load32_le key 3) AND 0x3ffff03,
             drop_bit 4 (cc_load32_le key 6) AND 0x3ffc0ff,
             drop_bit 6 (cc_load32_le key 9) AND 0x3f03fff,
             drop_bit 8 (cc_load32_le key 12) AND 0x00fffff),
      p_h = (0, 0, 0, 0, 0),
      p_pad = map (\<lambda>i. cc_load32_le key (16 + 4 * i)) [0..<4],
      p_buffer = [], p_final = False\<rparr>"

text \<open>The accumulator with one block added in.\<close>

definition poly_add :: "c32 \<Rightarrow> limbs \<Rightarrow> byte list \<Rightarrow> limbs" where
  "poly_add hibit h m =
     (case h of (h0, h1, h2, h3, h4) \<Rightarrow>
       (h0 + (cc_load32_le m 0 AND 0x3ffffff),
        h1 + (drop_bit 2 (cc_load32_le m 3) AND 0x3ffffff),
        h2 + (drop_bit 4 (cc_load32_le m 6) AND 0x3ffffff),
        h3 + (drop_bit 6 (cc_load32_le m 9) AND 0x3ffffff),
        h4 + (drop_bit 8 (cc_load32_le m 12) OR hibit)))"

definition lo26 :: "64 word \<Rightarrow> c32" where
  "lo26 d = ucast d AND 0x3ffffff"

definition hi26 :: "64 word \<Rightarrow> c32" where
  "hi26 d = ucast (drop_bit 26 d)"

definition poly_mul :: "limbs \<Rightarrow> limbs \<Rightarrow> limbs" where
  "poly_mul h r =
     (case h of (h0', h1', h2', h3', h4') \<Rightarrow> case r of (r0', r1', r2', r3', r4') \<Rightarrow>
       (let h0 = ucast h0' :: 64 word; h1 = ucast h1'; h2 = ucast h2'; h3 = ucast h3'; h4 = ucast h4';
            r0 = ucast r0'; r1 = ucast r1'; r2 = ucast r2'; r3 = ucast r3'; r4 = ucast r4';
            s1 = ucast (r1' * 5); s2 = ucast (r2' * 5); s3 = ucast (r3' * 5); s4 = ucast (r4' * 5);
            d0 = h0 * r0 + h1 * s4 + h2 * s3 + h3 * s2 + h4 * s1;
            d1 = h0 * r1 + h1 * r0 + h2 * s4 + h3 * s3 + h4 * s2;
            d2 = h0 * r2 + h1 * r1 + h2 * r0 + h3 * s4 + h4 * s3;
            d3 = h0 * r3 + h1 * r2 + h2 * r1 + h3 * r0 + h4 * s4;
            d4 = h0 * r4 + h1 * r3 + h2 * r2 + h3 * r1 + h4 * r0;
            d1 = d1 + ucast (hi26 d0);
            d2 = d2 + ucast (hi26 d1);
            d3 = d3 + ucast (hi26 d2);
            d4 = d4 + ucast (hi26 d3);
            g0 = lo26 d0 + hi26 d4 * 5
        in (g0 AND 0x3ffffff, lo26 d1 + drop_bit 26 g0, lo26 d2, lo26 d3, lo26 d4)))"

definition poly_block :: "c32 \<Rightarrow> limbs \<Rightarrow> limbs \<Rightarrow> byte list \<Rightarrow> limbs" where
  "poly_block hibit r h m = poly_mul (poly_add hibit h m) r"

definition poly_blocks :: "poly1305 \<Rightarrow> byte list \<Rightarrow> poly1305" where
  "poly_blocks c m =
     (let hibit = (if p_final c then 0 else 0x1000000) in
      c\<lparr>p_h := absorb (poly_block hibit (p_r c)) 16 (p_h c) m\<rparr>)"

text \<open>The part of \<open>update\<close> after the leftover bytes are dealt with, and \<open>update\<close>.\<close>

definition poly_rest :: "poly1305 \<Rightarrow> byte list \<Rightarrow> poly1305" where
  "poly_rest c m =
     (let want = length m - length m mod 16;
          c = (if 16 \<le> length m then poly_blocks c (take want m) else c)
      in c\<lparr>p_buffer := drop want m\<rparr>)"

definition poly_update :: "poly1305 \<Rightarrow> byte list \<Rightarrow> poly1305" where
  "poly_update c m =
     (if p_buffer c \<noteq> [] then
        (let want = min (16 - length (p_buffer c)) (length m);
             buf = p_buffer c @ take want m
         in if length buf < 16 then c\<lparr>p_buffer := buf\<rparr>
            else poly_rest (poly_blocks c buf) (drop want m))
      else poly_rest c m)"

text \<open>The carries of \<open>finish\<close>.\<close>

definition poly_carry :: "limbs \<Rightarrow> limbs" where
  "poly_carry h =
     (case h of (h0, h1, h2, h3, h4) \<Rightarrow>
       (let c = drop_bit 26 h1; h1 = h1 AND 0x3ffffff;
            h2 = h2 + c; c = drop_bit 26 h2; h2 = h2 AND 0x3ffffff;
            h3 = h3 + c; c = drop_bit 26 h3; h3 = h3 AND 0x3ffffff;
            h4 = h4 + c; c = drop_bit 26 h4; h4 = h4 AND 0x3ffffff;
            h0 = h0 + c * 5; c = drop_bit 26 h0; h0 = h0 AND 0x3ffffff;
            h1 = h1 + c
        in (h0, h1, h2, h3, h4)))"

definition poly_select :: "limbs \<Rightarrow> limbs" where
  "poly_select h =
     (case h of (h0, h1, h2, h3, h4) \<Rightarrow>
       (let g0 = h0 + 5; c = drop_bit 26 g0; g0 = g0 AND 0x3ffffff;
            g1 = h1 + c; c = drop_bit 26 g1; g1 = g1 AND 0x3ffffff;
            g2 = h2 + c; c = drop_bit 26 g2; g2 = g2 AND 0x3ffffff;
            g3 = h3 + c; c = drop_bit 26 g3; g3 = g3 AND 0x3ffffff;
            g4 = h4 + c - 0x4000000;
            mask = drop_bit 31 g4 - 1; keep = NOT mask
        in ((h0 AND keep) OR (g0 AND mask), (h1 AND keep) OR (g1 AND mask), (h2 AND keep) OR (g2 AND mask),
            (h3 AND keep) OR (g3 AND mask), (h4 AND keep) OR (g4 AND mask))))"

definition poly_pack :: "limbs \<Rightarrow> c32 list \<Rightarrow> byte list" where
  "poly_pack h pad =
     (case h of (h0, h1, h2, h3, h4) \<Rightarrow>
       (let w0 = h0 OR push_bit 26 h1;
            w1 = drop_bit 6 h1 OR push_bit 20 h2;
            w2 = drop_bit 12 h2 OR push_bit 14 h3;
            w3 = drop_bit 18 h3 OR push_bit 8 h4;
            f0 = ucast w0 + ucast (pad ! 0) :: 64 word;
            f1 = ucast w1 + ucast (pad ! 1) + drop_bit 32 f0;
            f2 = ucast w2 + ucast (pad ! 2) + drop_bit 32 f1;
            f3 = ucast w3 + ucast (pad ! 3) + drop_bit 32 f2
        in cc_store32_le (ucast f0) @ cc_store32_le (ucast f1) @ cc_store32_le (ucast f2) @ cc_store32_le (ucast f3)))"

definition poly_finish :: "poly1305 \<Rightarrow> byte list" where
  "poly_finish c =
     (let n = length (p_buffer c);
          c = (if n = 0 then c
               else poly_blocks (c\<lparr>p_final := True\<rparr>) (p_buffer c @ 1 # replicate (15 - n) 0))
      in poly_pack (poly_select (poly_carry (p_h c))) (p_pad c))"

lemma unat_load:
  assumes "k + 4 \<le> length p"
  shows "unat (cc_load32_le p k) = take_bit 32 (drop_bit (8 * k) (le_num p))"
proof (rule bit_eqI)
  fix n
  have high: "\<not> bit (b :: byte) m" if "8 \<le> m" for b m using that by (auto dest: bit_imp_le_length)
  show "bit (unat (cc_load32_le p k)) n \<longleftrightarrow> bit (take_bit 32 (drop_bit (8 * k) (le_num p))) n"
  proof (cases "n < 32")
    case True
    have pos: "(8 * k + n) div 8 = k + n div 8" "(8 * k + n) mod 8 = n mod 8" "8 * k + n < 8 * length p"
      using True assms by simp_all
    consider "n < 8" | "8 \<le> n" "n < 16" | "16 \<le> n" "n < 24" | "24 \<le> n" using True by linarith
    then show ?thesis
    proof cases
      case 1
      then show ?thesis using True pos high
        by (simp add: cc_load32_le_def bit_unsigned_iff bit_or_iff bit_push_bit_iff bit_take_bit_iff bit_drop_bit_eq
            bit_le_num bit_ucast_iff)
    next
      case 2
      then have "n div 8 = 1" "n mod 8 = n - 8" "n - 8 < 32" by (auto simp: le_div_geq le_mod_geq)
      then show ?thesis using 2 True pos high
        by (simp add: cc_load32_le_def bit_unsigned_iff bit_or_iff bit_push_bit_iff bit_take_bit_iff bit_drop_bit_eq
            bit_le_num bit_ucast_iff)
    next
      case 3
      then have "n div 8 = 2" "n mod 8 = n - 16" "n - 16 < 32" by (auto simp: le_div_geq le_mod_geq)
      then show ?thesis using 3 True pos high
        by (simp add: cc_load32_le_def bit_unsigned_iff bit_or_iff bit_push_bit_iff bit_take_bit_iff bit_drop_bit_eq
            bit_le_num bit_ucast_iff)
    next
      case 4
      then have "n div 8 = 3" "n mod 8 = n - 24" "n - 24 < 32" using True by (auto simp: le_div_geq le_mod_geq)
      then show ?thesis using 4 True pos high
        by (simp add: cc_load32_le_def bit_unsigned_iff bit_or_iff bit_push_bit_iff bit_take_bit_iff bit_drop_bit_eq
            bit_le_num bit_ucast_iff)
    qed
  qed (auto simp: bit_take_bit_iff bit_unsigned_iff dest: bit_imp_le_length)
qed

section \<open>Words as numbers\<close>

text \<open>
  The limbs are carried over to natural numbers with \<open>of_nat\<close>, a homomorphism for addition and
  multiplication, so that only the shifts and masks need bounds.
\<close>

lemma unat_eqI: "unat a = unat b \<Longrightarrow> a = b" for a b :: "'a::len word"
  by (rule unsigned_word_eqI)

lemma hi26_of_nat: "D < 2 ^ 58 \<Longrightarrow> hi26 (of_nat D) = of_nat (D div 2 ^ 26)"
  by (rule unat_eqI)
    (simp add: hi26_def unsigned_ucast_eq unat_drop_bit_eq drop_bit_eq_div unat_div_distrib unat_of_nat take_bit_eq_mod)

lemma ucast_small: "x < 2 ^ 32 \<Longrightarrow> (ucast (of_nat x :: c32) :: 64 word) = of_nat x"
  by (rule unat_eqI) (simp add: unsigned_ucast_eq unat_of_nat take_bit_eq_mod)

lemma mask26: "w AND 0x3ffffff = take_bit 26 w" for w :: c32
proof -
  have "(0x3ffffff :: c32) = mask 26" by (simp add: mask_eq_exp_minus_1)
  then show ?thesis by (simp add: take_bit_eq_mask)
qed

lemma take26_of_nat: "(of_nat x :: c32) AND 0x3ffffff = of_nat (x mod 2 ^ 26)"
  unfolding mask26
  by (rule unat_eqI) (simp add: unsigned_take_bit_eq take_bit_eq_mod unat_mod_distrib unat_of_nat mod_mod_cancel)

lemma lo26_of_nat: "lo26 (of_nat D) = of_nat (D mod 2 ^ 26)"
proof -
  have "(ucast (of_nat D :: 64 word) :: c32) = of_nat D"
    by (rule unat_eqI) (simp add: unsigned_ucast_eq unat_of_nat take_bit_eq_mod mod_mod_cancel)
  then show ?thesis by (simp add: lo26_def take26_of_nat)
qed

lemma drop26_of_nat: "x < 2 ^ 32 \<Longrightarrow> drop_bit 26 (of_nat x :: c32) = of_nat (x div 2 ^ 26)"
  by (rule unat_eqI) (simp add: unat_drop_bit_eq drop_bit_eq_div unat_div_distrib unat_of_nat)

type_synonym nlimbs = "nat \<times> nat \<times> nat \<times> nat \<times> nat"

fun words :: "nlimbs \<Rightarrow> limbs" where
  "words (a, b, c, d, e) = (of_nat a, of_nat b, of_nat c, of_nat d, of_nat e)"

fun limb_num :: "nlimbs \<Rightarrow> nat" where
  "limb_num (a, b, c, d, e) = a + 2 ^ 26 * b + 2 ^ 52 * c + 2 ^ 78 * d + 2 ^ 104 * e"

definition P130 :: nat where "P130 = 2 ^ 130 - 5"

section \<open>Multiplication\<close>

definition mul_num :: "nlimbs \<Rightarrow> nlimbs \<Rightarrow> nlimbs" where
  "mul_num h r =
     (case h of (h0, h1, h2, h3, h4) \<Rightarrow> case r of (r0, r1, r2, r3, r4) \<Rightarrow>
       (let d0 = h0 * r0 + h1 * (5 * r4) + h2 * (5 * r3) + h3 * (5 * r2) + h4 * (5 * r1);
            d1 = h0 * r1 + h1 * r0 + h2 * (5 * r4) + h3 * (5 * r3) + h4 * (5 * r2) + d0 div 2 ^ 26;
            d2 = h0 * r2 + h1 * r1 + h2 * r0 + h3 * (5 * r4) + h4 * (5 * r3) + d1 div 2 ^ 26;
            d3 = h0 * r3 + h1 * r2 + h2 * r1 + h3 * r0 + h4 * (5 * r4) + d2 div 2 ^ 26;
            d4 = h0 * r4 + h1 * r3 + h2 * r2 + h3 * r1 + h4 * r0 + d3 div 2 ^ 26;
            g0 = d0 mod 2 ^ 26 + 5 * (d4 div 2 ^ 26)
        in (g0 mod 2 ^ 26, d1 mod 2 ^ 26 + g0 div 2 ^ 26, d2 mod 2 ^ 26, d3 mod 2 ^ 26, d4 mod 2 ^ 26)))"

text \<open>Reduction modulo \<open>2^130 - 5\<close> of a five-limb product, as an identity of numbers.\<close>

lemma radix_product:
  fixes B p :: nat
  assumes "p + 5 = B ^ 5"
    "d0 = h0 * r0 + h1 * (5 * r4) + h2 * (5 * r3) + h3 * (5 * r2) + h4 * (5 * r1)" "d0 = m0 + B * q0"
    "d1 = h0 * r1 + h1 * r0 + h2 * (5 * r4) + h3 * (5 * r3) + h4 * (5 * r2) + q0" "d1 = m1 + B * q1"
    "d2 = h0 * r2 + h1 * r1 + h2 * r0 + h3 * (5 * r4) + h4 * (5 * r3) + q1" "d2 = m2 + B * q2"
    "d3 = h0 * r3 + h1 * r2 + h2 * r1 + h3 * r0 + h4 * (5 * r4) + q2" "d3 = m3 + B * q3"
    "d4 = h0 * r4 + h1 * r3 + h2 * r2 + h3 * r1 + h4 * r0 + q3" "d4 = m4 + B * q4"
    "m0 + 5 * q4 = n0 + B * q5"
  shows "(n0 + B * (m1 + q5) + B ^ 2 * m2 + B ^ 3 * m3 + B ^ 4 * m4)
      + p * (q4 + (h1 * r4 + h2 * r3 + h3 * r2 + h4 * r1) + B * (h2 * r4 + h3 * r3 + h4 * r2)
             + B ^ 2 * (h3 * r4 + h4 * r3) + B ^ 3 * (h4 * r4))
      = (h0 + B * h1 + B ^ 2 * h2 + B ^ 3 * h3 + B ^ 4 * h4) * (r0 + B * r1 + B ^ 2 * r2 + B ^ 3 * r3 + B ^ 4 * r4)"
proof -
  have "int p = int B ^ 5 - 5" using assms(1) by (metis add_diff_cancel_right' of_nat_add of_nat_numeral of_nat_power)
  note a = assms(2-) [unfolded of_nat_eq_iff [where 'a = int, symmetric], simplified]
  show ?thesis
    unfolding of_nat_eq_iff [where 'a = int, symmetric]
    using a \<open>int p = _\<close> by (simp add: of_nat_eq_iff) algebra
qed

text \<open>Limbs before a multiplication: at most \<open>2^27 + 64\<close>; limbs of the key: below \<open>2^26\<close>.\<close>

fun added :: "nlimbs \<Rightarrow> bool" where
  "added (a, b, c, d, e) \<longleftrightarrow> a \<le> 134217792 \<and> b \<le> 134217792 \<and> c \<le> 134217792 \<and> d \<le> 134217792 \<and> e \<le> 134217792"

fun keyed :: "nlimbs \<Rightarrow> bool" where
  "keyed (a, b, c, d, e) \<longleftrightarrow> a < 2 ^ 26 \<and> b < 2 ^ 26 \<and> c < 2 ^ 26 \<and> d < 2 ^ 26 \<and> e < 2 ^ 26"

text \<open>Limbs between blocks.\<close>

fun reduced :: "nlimbs \<Rightarrow> bool" where
  "reduced (a, b, c, d, e) \<longleftrightarrow> a < 2 ^ 26 \<and> b < 2 ^ 26 + 64 \<and> c < 2 ^ 26 \<and> d < 2 ^ 26 \<and> e < 2 ^ 26"

lemma product_bound: "h \<le> 134217792 \<Longrightarrow> r < 2 ^ 26 \<Longrightarrow> h * r \<le> 9007203549708288" for h r :: nat
  using mult_le_mono [of h 134217792 r "2 ^ 26"] by simp

lemma poly_mul_words:
  assumes "added h" "keyed r"
  shows "poly_mul (words h) (words r) = words (mul_num h r)" "reduced (mul_num h r)"
proof -
  obtain h0 h1 h2 h3 h4 where h: "h = (h0, h1, h2, h3, h4)" by (cases h) auto
  obtain r0 r1 r2 r3 r4 where r: "r = (r0, r1, r2, r3, r4)" by (cases r) auto
  have hb: "h0 \<le> 134217792" "h1 \<le> 134217792" "h2 \<le> 134217792" "h3 \<le> 134217792" "h4 \<le> 134217792"
    and rb: "r0 < 2 ^ 26" "r1 < 2 ^ 26" "r2 < 2 ^ 26" "r3 < 2 ^ 26" "r4 < 2 ^ 26"
    using assms by (simp_all add: h r)
  define d0 where "d0 = h0 * r0 + h1 * (5 * r4) + h2 * (5 * r3) + h3 * (5 * r2) + h4 * (5 * r1)"
  define d1 where "d1 = h0 * r1 + h1 * r0 + h2 * (5 * r4) + h3 * (5 * r3) + h4 * (5 * r2) + d0 div 2 ^ 26"
  define d2 where "d2 = h0 * r2 + h1 * r1 + h2 * r0 + h3 * (5 * r4) + h4 * (5 * r3) + d1 div 2 ^ 26"
  define d3 where "d3 = h0 * r3 + h1 * r2 + h2 * r1 + h3 * r0 + h4 * (5 * r4) + d2 div 2 ^ 26"
  define d4 where "d4 = h0 * r4 + h1 * r3 + h2 * r2 + h3 * r1 + h4 * r0 + d3 div 2 ^ 26"
  define g0 where "g0 = d0 mod 2 ^ 26 + 5 * (d4 div 2 ^ 26)"
  note pb = product_bound [OF hb(1)] product_bound [OF hb(2)] product_bound [OF hb(3)] product_bound [OF hb(4)] product_bound [OF hb(5)]
  have b0: "d0 \<le> 189151278838841344"
    unfolding d0_def using pb(1) [OF rb(1)] pb(2) [OF rb(5)] pb(3) [OF rb(4)] pb(4) [OF rb(3)] pb(5) [OF rb(2)] by linarith
  have q: "d div 2 ^ 26 \<le> 2818573696" if "d \<le> 189151278838841344" for d :: nat
    using div_le_mono [OF that, of "2 ^ 26"] by simp
  have b1: "d1 \<le> 189151278838841344"
    unfolding d1_def using pb(1) [OF rb(2)] pb(2) [OF rb(1)] pb(3) [OF rb(5)] pb(4) [OF rb(4)] pb(5) [OF rb(3)] q [OF b0] by linarith
  have b2: "d2 \<le> 189151278838841344"
    unfolding d2_def using pb(1) [OF rb(3)] pb(2) [OF rb(2)] pb(3) [OF rb(1)] pb(4) [OF rb(5)] pb(5) [OF rb(4)] q [OF b1] by linarith
  have b3: "d3 \<le> 189151278838841344"
    unfolding d3_def using pb(1) [OF rb(4)] pb(2) [OF rb(3)] pb(3) [OF rb(2)] pb(4) [OF rb(1)] pb(5) [OF rb(5)] q [OF b2] by linarith
  have b4: "d4 \<le> 45036022043508736"
    unfolding d4_def using pb(1) [OF rb(5)] pb(2) [OF rb(4)] pb(3) [OF rb(3)] pb(4) [OF rb(2)] pb(5) [OF rb(1)] q [OF b3] by linarith
  have k0: "d0 div 2 ^ 26 < 2 ^ 32" "d1 div 2 ^ 26 < 2 ^ 32" "d2 div 2 ^ 26 < 2 ^ 32" "d3 div 2 ^ 26 < 2 ^ 32"
    "d4 div 2 ^ 26 \<le> 671089024"
    using b0 b1 b2 b3 b4 by simp_all
  have g0: "g0 < 2 ^ 32" unfolding g0_def using k0(5) mod_less_divisor [of "2 ^ 26" d0] by simp
  have u: "ucast (of_nat h0 :: c32) = (of_nat h0 :: 64 word)" "ucast (of_nat h1 :: c32) = (of_nat h1 :: 64 word)"
    "ucast (of_nat h2 :: c32) = (of_nat h2 :: 64 word)" "ucast (of_nat h3 :: c32) = (of_nat h3 :: 64 word)"
    "ucast (of_nat h4 :: c32) = (of_nat h4 :: 64 word)" "ucast (of_nat r0 :: c32) = (of_nat r0 :: 64 word)"
    "ucast (of_nat r1 :: c32) = (of_nat r1 :: 64 word)" "ucast (of_nat r2 :: c32) = (of_nat r2 :: 64 word)"
    "ucast (of_nat r3 :: c32) = (of_nat r3 :: 64 word)" "ucast (of_nat r4 :: c32) = (of_nat r4 :: 64 word)"
    using hb rb by (simp_all add: ucast_small)
  have five: "(of_nat x :: c32) * 5 = of_nat (5 * x)" for x by simp
  have v: "ucast (of_nat (5 * r1) :: c32) = (of_nat (5 * r1) :: 64 word)" "ucast (of_nat (5 * r2) :: c32) = (of_nat (5 * r2) :: 64 word)"
    "ucast (of_nat (5 * r3) :: c32) = (of_nat (5 * r3) :: 64 word)" "ucast (of_nat (5 * r4) :: c32) = (of_nat (5 * r4) :: 64 word)"
    by (rule ucast_small, use rb in simp)+
  have e0: "(of_nat h0 * of_nat r0 + of_nat h1 * of_nat (5 * r4) + of_nat h2 * of_nat (5 * r3) + of_nat h3 * of_nat (5 * r2) + of_nat h4 * of_nat (5 * r1) :: 64 word) = of_nat d0"
    by (simp add: d0_def)
  have e1: "(of_nat h0 * of_nat r1 + of_nat h1 * of_nat r0 + of_nat h2 * of_nat (5 * r4) + of_nat h3 * of_nat (5 * r3) + of_nat h4 * of_nat (5 * r2) + of_nat (d0 div 2 ^ 26) :: 64 word) = of_nat d1"
    by (simp add: d1_def)
  have e2: "(of_nat h0 * of_nat r2 + of_nat h1 * of_nat r1 + of_nat h2 * of_nat r0 + of_nat h3 * of_nat (5 * r4) + of_nat h4 * of_nat (5 * r3) + of_nat (d1 div 2 ^ 26) :: 64 word) = of_nat d2"
    by (simp add: d2_def)
  have e3: "(of_nat h0 * of_nat r3 + of_nat h1 * of_nat r2 + of_nat h2 * of_nat r1 + of_nat h3 * of_nat r0 + of_nat h4 * of_nat (5 * r4) + of_nat (d2 div 2 ^ 26) :: 64 word) = of_nat d3"
    by (simp add: d3_def)
  have e4: "(of_nat h0 * of_nat r4 + of_nat h1 * of_nat r3 + of_nat h2 * of_nat r2 + of_nat h3 * of_nat r1 + of_nat h4 * of_nat r0 + of_nat (d3 div 2 ^ 26) :: 64 word) = of_nat d4"
    by (simp add: d4_def)
  have c: "ucast (hi26 (of_nat d0)) = (of_nat (d0 div 2 ^ 26) :: 64 word)" "ucast (hi26 (of_nat d1)) = (of_nat (d1 div 2 ^ 26) :: 64 word)"
    "ucast (hi26 (of_nat d2)) = (of_nat (d2 div 2 ^ 26) :: 64 word)" "ucast (hi26 (of_nat d3)) = (of_nat (d3 div 2 ^ 26) :: 64 word)"
    "hi26 (of_nat d4) = of_nat (d4 div 2 ^ 26)"
    by (subst hi26_of_nat, use b0 b1 b2 b3 b4 in simp, (rule ucast_small | rule refl), (use k0 in simp)?)+
  have g: "of_nat (d0 mod 2 ^ 26) + of_nat (5 * (d4 div 2 ^ 26)) = (of_nat g0 :: c32)"
    by (simp add: g0_def)
  have last: "of_nat (d1 mod 2 ^ 26) + of_nat (g0 div 2 ^ 26) = (of_nat (d1 mod 2 ^ 26 + g0 div 2 ^ 26) :: c32)"
    by simp
  have mul: "mul_num h r = (g0 mod 2 ^ 26, d1 mod 2 ^ 26 + g0 div 2 ^ 26, d2 mod 2 ^ 26, d3 mod 2 ^ 26, d4 mod 2 ^ 26)"
    unfolding mul_num_def h r prod.case Let_def d0_def d1_def d2_def d3_def d4_def g0_def by (rule refl)
  show "poly_mul (words h) (words r) = words (mul_num h r)"
    unfolding mul unfolding words.simps h r poly_mul_def prod.case Let_def u five v e0 c(1) e1 c(2) e2 c(3) e3 c(4) e4 c(5)
      lo26_of_nat g drop26_of_nat [OF g0] take26_of_nat last by (rule refl)
  have "g0 div 2 ^ 26 < 64" using g0 by simp
  then show "reduced (mul_num h r)" unfolding mul reduced.simps using mod_less_divisor [of "2 ^ 26" d1] by simp
qed

lemma mul_num_mod:
  "limb_num (mul_num h r) mod P130 = limb_num h * limb_num r mod P130"
proof -
  obtain h0 h1 h2 h3 h4 where h: "h = (h0, h1, h2, h3, h4)" by (cases h) auto
  obtain r0 r1 r2 r3 r4 where r: "r = (r0, r1, r2, r3, r4)" by (cases r) auto
  let ?B = "2 ^ 26 :: nat"
  define d0 where "d0 = h0 * r0 + h1 * (5 * r4) + h2 * (5 * r3) + h3 * (5 * r2) + h4 * (5 * r1)"
  define d1 where "d1 = h0 * r1 + h1 * r0 + h2 * (5 * r4) + h3 * (5 * r3) + h4 * (5 * r2) + d0 div ?B"
  define d2 where "d2 = h0 * r2 + h1 * r1 + h2 * r0 + h3 * (5 * r4) + h4 * (5 * r3) + d1 div ?B"
  define d3 where "d3 = h0 * r3 + h1 * r2 + h2 * r1 + h3 * r0 + h4 * (5 * r4) + d2 div ?B"
  define d4 where "d4 = h0 * r4 + h1 * r3 + h2 * r2 + h3 * r1 + h4 * r0 + d3 div ?B"
  define g0 where "g0 = d0 mod ?B + 5 * (d4 div ?B)"
  have mul: "mul_num h r = (g0 mod ?B, d1 mod ?B + g0 div ?B, d2 mod ?B, d3 mod ?B, d4 mod ?B)"
    unfolding mul_num_def h r prod.case Let_def d0_def d1_def d2_def d3_def d4_def g0_def by (rule refl)
  have split: "x = x mod ?B + ?B * (x div ?B)" for x by simp
  have p: "P130 + 5 = ?B ^ 5" by (simp add: P130_def)
  have powers: "limb_num (a, b, c, d, e) = a + ?B * b + ?B ^ 2 * c + ?B ^ 3 * d + ?B ^ 4 * e" for a b c d e
    by simp
  have g0: "d0 mod ?B + 5 * (d4 div ?B) = g0 mod ?B + ?B * (g0 div ?B)" by (simp add: g0_def)
  obtain z where "limb_num (mul_num h r) + P130 * z = limb_num h * limb_num r"
    using radix_product [OF p d0_def split [of d0] d1_def split [of d1] d2_def split [of d2] d3_def split [of d3] d4_def split [of d4]
        g0]
    unfolding mul unfolding h r powers by blast
  then show ?thesis by (metis mod_mult_self2)
qed

end
