(* ===== verification/Poly1305_Field.thy ===== *)
theory Poly1305_Field
  imports Poly1305
begin

unbundle bit_operations_syntax

text \<open>
  The limb arithmetic of \<open>Poly1305::blocks\<close> and of the carries of \<open>finish\<close> as arithmetic modulo
  \<open>2^130 - 5\<close>: with limbs in the ranges \<open>reduced\<close> and \<open>small\<close> name, no word operation overflows and the
  number the limbs stand for is the RFC's.
\<close>

section \<open>Adding a block\<close>

definition limbs_of :: "nat \<Rightarrow> nlimbs" where
  "limbs_of n = (n mod 2 ^ 26, n div 2 ^ 26 mod 2 ^ 26, n div 2 ^ 52 mod 2 ^ 26, n div 2 ^ 78 mod 2 ^ 26, n div 2 ^ 104)"

lemma radix_five:
  fixes B :: nat
  assumes "n = a + B * n1" "n1 = b + B * n2" "n2 = c + B * n3" "n3 = d + B * e"
  shows "n = a + B * b + B ^ 2 * c + B ^ 3 * d + B ^ 4 * e"
  by (simp add: assms algebra_simps numeral_eq_Suc)

lemma limb_num_limbs_of: "limb_num (limbs_of n) = n"
proof -
  have step: "m = m mod 2 ^ 26 + 2 ^ 26 * (m div 2 ^ 26)" for m :: nat by simp
  have "n div 2 ^ 26 div 2 ^ 26 = n div 2 ^ 52" "n div 2 ^ 52 div 2 ^ 26 = n div 2 ^ 78" "n div 2 ^ 78 div 2 ^ 26 = n div 2 ^ 104"
    by (simp_all flip: div_mult2_eq)
  then show ?thesis
    using radix_five [OF step [of n] step [of "n div 2 ^ 26"] step [of "n div 2 ^ 26 div 2 ^ 26"] step [of "n div 2 ^ 26 div 2 ^ 26 div 2 ^ 26"]]
    by (simp add: limbs_of_def)
qed

definition add_num :: "nlimbs \<Rightarrow> nlimbs \<Rightarrow> nlimbs" where
  "add_num h m =
     (case h of (h0, h1, h2, h3, h4) \<Rightarrow> case m of (m0, m1, m2, m3, m4) \<Rightarrow>
       (h0 + m0, h1 + m1, h2 + m2, h3 + m3, h4 + m4))"

lemma limb_num_add: "limb_num (add_num h m) = limb_num h + limb_num m"
  by (cases h; cases m) (simp add: add_num_def)

definition block_limbs :: "byte list \<Rightarrow> nat \<Rightarrow> nlimbs" where
  "block_limbs m b =
     (le_num m mod 2 ^ 26, le_num m div 2 ^ 26 mod 2 ^ 26, le_num m div 2 ^ 52 mod 2 ^ 26, le_num m div 2 ^ 78 mod 2 ^ 26,
      le_num m div 2 ^ 104 + b * 2 ^ 24)"

lemma limb_num_block: "limb_num (block_limbs m b) = le_num m + b * 2 ^ 128"
  using limb_num_limbs_of [of "le_num m"] by (simp add: limbs_of_def block_limbs_def)

lemma load_limb:
  assumes "k + 4 \<le> length m" "s \<le> 6"
  shows "drop_bit s (cc_load32_le m k) AND 0x3ffffff = of_nat (le_num m div 2 ^ (8 * k + s) mod 2 ^ 26)"
proof (rule unat_eqI)
  have "take_bit 26 (drop_bit s (take_bit 32 (drop_bit (8 * k) (le_num m)))) = take_bit 26 (drop_bit (8 * k + s) (le_num m))"
    using assms(2) by (intro bit_eqI) (auto simp: bit_take_bit_iff bit_drop_bit_eq add.assoc)
  then show "unat (drop_bit s (cc_load32_le m k) AND 0x3ffffff) = unat (of_nat (le_num m div 2 ^ (8 * k + s) mod 2 ^ 26) :: c32)"
    unfolding mask26 unsigned_take_bit_eq unat_drop_bit_eq unat_load [OF assms(1)]
    by (simp add: take_bit_eq_mod drop_bit_eq_div unat_of_nat mod_mod_cancel)
qed

lemma load_top:
  assumes "length m = 16"
  shows "drop_bit 8 (cc_load32_le m 12) = of_nat (le_num m div 2 ^ 104)"
proof (rule unat_eqI)
  have less: "le_num m < 2 ^ 128" using le_num_less [of m] assms by simp
  then have "drop_bit 96 (le_num m) < 2 ^ 32" by (simp add: drop_bit_eq_div div_less_iff_less_mult)
  then have "take_bit 32 (drop_bit 96 (le_num m)) = drop_bit 96 (le_num m)" by (simp add: take_bit_nat_eq_self_iff)
  moreover have "le_num m div 2 ^ 104 < 2 ^ 32" using less by (simp add: div_less_iff_less_mult)
  ultimately show "unat (drop_bit 8 (cc_load32_le m 12)) = unat (of_nat (le_num m div 2 ^ 104) :: c32)"
    using assms unat_load [of 12 m] by (simp add: unat_drop_bit_eq drop_bit_eq_div unat_div_distrib unat_of_nat flip: div_mult2_eq)
qed

lemma or_disjoint:
  assumes "x < 2 ^ k"
  shows "of_nat x OR push_bit k (of_nat y) = (of_nat (x + 2 ^ k * y) :: 'a::len word)"
proof -
  have "\<not> bit x n" if "k \<le> n" for n
    using assms that by (metis bit_take_bit_iff not_less take_bit_nat_eq_self_iff)
  then have "of_nat x OR push_bit k (of_nat y) = (of_nat x + push_bit k (of_nat y) :: 'a word)"
    by (intro disjunctive_add [symmetric]) (auto simp: bit_of_nat_iff bit_push_bit_iff)
  then show ?thesis by (simp add: push_bit_eq_mult mult.commute)
qed

lemma poly_add_words:
  assumes "length m = 16" "reduced h" "b \<le> 1"
  shows "poly_add (of_nat (b * 2 ^ 24)) (words h) m = words (add_num h (block_limbs m b))"
    and "added (add_num h (block_limbs m b))"
proof -
  obtain h0 h1 h2 h3 h4 where h: "h = (h0, h1, h2, h3, h4)" by (cases h) auto
  have less: "le_num m < 2 ^ 128" using le_num_less [of m] assms by simp
  then have top: "le_num m div 2 ^ 104 < 2 ^ 24" by (simp add: div_less_iff_less_mult)
  have "of_nat (b * 2 ^ 24) = push_bit 24 (of_nat b :: c32)" by (simp add: push_bit_eq_mult mult.commute)
  then have "drop_bit 8 (cc_load32_le m 12) OR of_nat (b * 2 ^ 24) = of_nat (le_num m div 2 ^ 104 + b * 2 ^ 24)"
    using or_disjoint [OF top, of b] by (simp only: load_top [OF assms(1)] mult.commute)
  then show "poly_add (of_nat (b * 2 ^ 24)) (words h) m = words (add_num h (block_limbs m b))"
    unfolding block_limbs_def h poly_add_def words.simps prod.case add_num_def
    using load_limb [of 0 m 0] load_limb [of 3 m 2] load_limb [of 6 m 4] load_limb [of 9 m 6] assms(1) by simp
  show "added (add_num h (block_limbs m b))"
  proof -
    have "x mod 2 ^ 26 < 2 ^ 26" for x :: nat by simp
    from this [of "le_num m"] this [of "le_num m div 2 ^ 26"] this [of "le_num m div 2 ^ 52"] this [of "le_num m div 2 ^ 78"]
    show ?thesis using assms(2,3) top by (auto simp: block_limbs_def h add_num_def)
  qed
qed

lemma poly_block_words:
  assumes "length m = 16" "reduced h" "b \<le> 1" "keyed r"
  obtains h' where "poly_block (of_nat (b * 2 ^ 24)) (words r) (words h) m = words h'" "reduced h'"
    "limb_num h' mod P130 = (limb_num h + (le_num m + b * 2 ^ 128)) * limb_num r mod P130"
proof
  let ?h = "add_num h (block_limbs m b)"
  show "poly_block (of_nat (b * 2 ^ 24)) (words r) (words h) m = words (mul_num ?h r)"
    unfolding poly_block_def poly_add_words(1) [OF assms(1-3)] by (rule poly_mul_words [OF poly_add_words(2) [OF assms(1-3)] assms(4)])
  show "reduced (mul_num ?h r)" by (rule poly_mul_words(2) [OF poly_add_words(2) [OF assms(1-3)] assms(4)])
  show "limb_num (mul_num ?h r) mod P130 = (limb_num h + (le_num m + b * 2 ^ 128)) * limb_num r mod P130"
    by (simp only: mul_num_mod limb_num_add limb_num_block)
qed

section \<open>The final reduction\<close>

fun small :: "nlimbs \<Rightarrow> bool" where
  "small (a, b, c, d, e) \<longleftrightarrow> a < 2 ^ 26 \<and> b < 2 ^ 26 \<and> c < 2 ^ 26 \<and> d < 2 ^ 26 \<and> e < 2 ^ 26"

lemma carry_step: "y < 2 ^ 27 \<Longrightarrow> y div 2 ^ 26 \<le> 1" for y :: nat
  using less_mult_imp_div_less [of y 2 "2 ^ 26"] by simp

definition carry_num :: "nlimbs \<Rightarrow> nlimbs" where
  "carry_num h =
     (case h of (h0, h1, h2, h3, h4) \<Rightarrow>
       (let t2 = h2 + h1 div 2 ^ 26; t3 = h3 + t2 div 2 ^ 26; t4 = h4 + t3 div 2 ^ 26; t0 = h0 + 5 * (t4 div 2 ^ 26)
        in (t0 mod 2 ^ 26, h1 mod 2 ^ 26 + t0 div 2 ^ 26, t2 mod 2 ^ 26, t3 mod 2 ^ 26, t4 mod 2 ^ 26)))"

lemma radix_carry:
  fixes B p :: nat
  assumes "p + 5 = B ^ 5" "h1 = m1 + B * q1" "h2 + q1 = m2 + B * q2" "h3 + q2 = m3 + B * q3" "h4 + q3 = m4 + B * q4"
    "h0 + 5 * q4 = m0 + B * q0"
  shows "(m0 + B * (m1 + q0) + B ^ 2 * m2 + B ^ 3 * m3 + B ^ 4 * m4) + p * q4
      = h0 + B * h1 + B ^ 2 * h2 + B ^ 3 * h3 + B ^ 4 * h4"
proof -
  have "int p = int B ^ 5 - 5" using assms(1) by (metis add_diff_cancel_right' of_nat_add of_nat_numeral of_nat_power)
  note a = assms(2-) [unfolded of_nat_eq_iff [where 'a = int, symmetric], simplified]
  show ?thesis
    unfolding of_nat_eq_iff [where 'a = int, symmetric]
    using a \<open>int p = _\<close> by (simp add: of_nat_eq_iff) algebra
qed

lemma carry_num_mod: "limb_num (carry_num h) mod P130 = limb_num h mod P130"
proof -
  obtain h0 h1 h2 h3 h4 where h: "h = (h0, h1, h2, h3, h4)" by (cases h) auto
  let ?B = "2 ^ 26 :: nat"
  define t2 where "t2 = h2 + h1 div ?B"
  define t3 where "t3 = h3 + t2 div ?B"
  define t4 where "t4 = h4 + t3 div ?B"
  define t0 where "t0 = h0 + 5 * (t4 div ?B)"
  have carry: "carry_num h = (t0 mod ?B, h1 mod ?B + t0 div ?B, t2 mod ?B, t3 mod ?B, t4 mod ?B)"
    unfolding carry_num_def h prod.case Let_def t2_def t3_def t4_def t0_def by (rule refl)
  have split: "t = x \<Longrightarrow> x = t mod ?B + ?B * (t div ?B)" for x t by simp
  have p: "P130 + 5 = ?B ^ 5" by (simp add: P130_def)
  have powers: "limb_num (a, b, c, d, e) = a + ?B * b + ?B ^ 2 * c + ?B ^ 3 * d + ?B ^ 4 * e" for a b c d e
    by simp
  obtain z where "limb_num (carry_num h) + P130 * z = limb_num h"
    using radix_carry [OF p split [OF refl, of h1] split [OF t2_def] split [OF t3_def] split [OF t4_def] split [OF t0_def]]
    unfolding carry unfolding h powers by blast
  then show ?thesis by (metis mod_mult_self2)
qed

lemma poly_carry_words:
  assumes "reduced h"
  shows "poly_carry (words h) = words (carry_num h)" "small (carry_num h)"
proof -
  obtain h0 h1 h2 h3 h4 where h: "h = (h0, h1, h2, h3, h4)" by (cases h) auto
  have b: "h0 < 2 ^ 26" "h1 < 2 ^ 26 + 64" "h2 < 2 ^ 26" "h3 < 2 ^ 26" "h4 < 2 ^ 26" using assms by (simp_all add: h)
  define c1 where "c1 = h1 div 2 ^ 26"
  define t2 where "t2 = h2 + c1"
  define c2 where "c2 = t2 div 2 ^ 26"
  define t3 where "t3 = h3 + c2"
  define c3 where "c3 = t3 div 2 ^ 26"
  define t4 where "t4 = h4 + c3"
  define c4 where "c4 = t4 div 2 ^ 26"
  define t0 where "t0 = h0 + 5 * c4"
  have carry: "carry_num h = (t0 mod 2 ^ 26, h1 mod 2 ^ 26 + t0 div 2 ^ 26, t2 mod 2 ^ 26, t3 mod 2 ^ 26, t4 mod 2 ^ 26)"
    unfolding carry_num_def h prod.case Let_def t2_def t3_def t4_def t0_def c1_def c2_def c3_def c4_def by (rule refl)
  have 1: "c1 \<le> 1" unfolding c1_def by (rule carry_step) (use b in simp)
  have 2: "c2 \<le> 1" unfolding c2_def by (rule carry_step) (use b 1 in \<open>simp add: t2_def\<close>)
  have 3: "c3 \<le> 1" unfolding c3_def by (rule carry_step) (use b 2 in \<open>simp add: t3_def\<close>)
  have 4: "c4 \<le> 1" unfolding c4_def by (rule carry_step) (use b 3 in \<open>simp add: t4_def\<close>)
  note c = 1 2 3 4
  have t: "h1 < 2 ^ 32" "t2 < 2 ^ 32" "t3 < 2 ^ 32" "t4 < 2 ^ 32" "t0 < 2 ^ 32"
    using b c by (simp_all add: t2_def t3_def t4_def t0_def)
  have five: "(of_nat x :: c32) * 5 = of_nat (5 * x)" for x by simp
  show "poly_carry (words h) = words (carry_num h)"
    unfolding carry unfolding h words.simps poly_carry_def prod.case Let_def
      take26_of_nat drop26_of_nat [OF t(1)] of_nat_add [symmetric] c1_def [symmetric] t2_def [symmetric]
      drop26_of_nat [OF t(2)] c2_def [symmetric] t3_def [symmetric] drop26_of_nat [OF t(3)] c3_def [symmetric]
      t4_def [symmetric] drop26_of_nat [OF t(4)] c4_def [symmetric] five t0_def [symmetric] drop26_of_nat [OF t(5)]
    by (rule refl)
  have "h1 mod 2 ^ 26 + t0 div 2 ^ 26 < 2 ^ 26"
  proof (cases "c4 = 0")
    case True
    then show ?thesis using b by (simp add: t0_def)
  next
    case False
    have "h1 \<ge> 2 ^ 26"
    proof (rule ccontr)
      assume "\<not> h1 \<ge> 2 ^ 26"
      then have "c1 = 0" by (simp add: c1_def)
      then have "c2 = 0" using b by (simp add: c2_def t2_def)
      then have "c3 = 0" using b by (simp add: c3_def t3_def)
      then have "c4 = 0" using b by (simp add: c4_def t4_def)
      with False show False by simp
    qed
    then have "h1 mod 2 ^ 26 < 64" using b by (simp add: le_mod_geq)
    moreover have "t0 div 2 ^ 26 \<le> 1" by (rule carry_step) (use b 4 in \<open>simp add: t0_def\<close>)
    ultimately show ?thesis by simp
  qed
  then show "small (carry_num h)" by (simp add: carry)
qed

end
