(* ===== verification/Poly1305_Tag.thy ===== *)
theory Poly1305_Tag
  imports Poly1305_Field
begin

unbundle bit_operations_syntax

text \<open>
  The tag \<open>Poly1305::finish\<close> returns is the one of RFC 8439, for every way of cutting the message into
  updates: the message's 16-byte blocks are the coefficients of a polynomial in the clamped half \<open>r\<close> of
  the key, taken modulo \<open>2^130 - 5\<close>, plus the other half modulo \<open>2^128\<close>.
\<close>

section \<open>The conditional subtraction\<close>

definition select_num :: "nlimbs \<Rightarrow> nlimbs" where
  "select_num h =
     (case h of (h0, h1, h2, h3, h4) \<Rightarrow>
       (let t0 = h0 + 5; t1 = h1 + t0 div 2 ^ 26; t2 = h2 + t1 div 2 ^ 26; t3 = h3 + t2 div 2 ^ 26; t4 = h4 + t3 div 2 ^ 26
        in if t4 < 2 ^ 26 then h
           else (t0 mod 2 ^ 26, t1 mod 2 ^ 26, t2 mod 2 ^ 26, t3 mod 2 ^ 26, t4 - 2 ^ 26)))"

lemma small_less: "small h \<Longrightarrow> limb_num h < 2 ^ 130"
  by (cases h) simp

lemma radix_add:
  fixes B :: nat
  assumes "h0 + k = m0 + B * q0" "h1 + q0 = m1 + B * q1" "h2 + q1 = m2 + B * q2" "h3 + q2 = m3 + B * q3"
  shows "h0 + B * h1 + B ^ 2 * h2 + B ^ 3 * h3 + B ^ 4 * h4 + k = m0 + B * m1 + B ^ 2 * m2 + B ^ 3 * m3 + B ^ 4 * (h4 + q3)"
proof -
  note a = assms [unfolded of_nat_eq_iff [where 'a = int, symmetric], simplified]
  show ?thesis
    unfolding of_nat_eq_iff [where 'a = int, symmetric] using a by (simp add: of_nat_eq_iff) algebra
qed

lemma select_num_mod:
  assumes "small h"
  shows "limb_num (select_num h) = limb_num h mod P130" "small (select_num h)"
proof -
  obtain h0 h1 h2 h3 h4 where h: "h = (h0, h1, h2, h3, h4)" by (cases h) auto
  let ?B = "2 ^ 26 :: nat"
  define t0 where "t0 = h0 + 5"
  define t1 where "t1 = h1 + t0 div ?B"
  define t2 where "t2 = h2 + t1 div ?B"
  define t3 where "t3 = h3 + t2 div ?B"
  define t4 where "t4 = h4 + t3 div ?B"
  have select: "select_num h = (if t4 < ?B then h else (t0 mod ?B, t1 mod ?B, t2 mod ?B, t3 mod ?B, t4 - ?B))"
    unfolding select_num_def h prod.case Let_def t0_def t1_def t2_def t3_def t4_def by (rule refl)
  have split: "t = x \<Longrightarrow> x = t mod ?B + ?B * (t div ?B)" for x t by simp
  have powers: "limb_num (a, b, c, d, e) = a + ?B * b + ?B ^ 2 * c + ?B ^ 3 * d + ?B ^ 4 * e" for a b c d e
    by simp
  have val: "limb_num h + 5 = limb_num (t0 mod ?B, t1 mod ?B, t2 mod ?B, t3 mod ?B, t4)"
    unfolding h powers t4_def
    by (rule radix_add [OF split [OF t0_def] split [OF t1_def] split [OF t2_def] split [OF t3_def]])
  have less: "limb_num h < 2 ^ 130" by (rule small_less [OF assms])
  have low: "t0 mod ?B < ?B" "t1 mod ?B < ?B" "t2 mod ?B < ?B" "t3 mod ?B < ?B" by simp_all
  show "limb_num (select_num h) = limb_num h mod P130"
  proof (cases "t4 < ?B")
    case True
    then have "limb_num h + 5 < 2 ^ 130"
      unfolding val by (intro small_less) (use low in simp)
    then show ?thesis using True by (simp add: select P130_def)
  next
    case False
    then have "limb_num h + 5 = limb_num (select_num h) + 2 ^ 130"
      unfolding val by (simp add: select)
    then show ?thesis using less by (simp add: P130_def le_mod_geq)
  qed
  have b: "h0 < 2 ^ 26" "h1 < 2 ^ 26" "h2 < 2 ^ 26" "h3 < 2 ^ 26" "h4 < 2 ^ 26" using assms by (simp_all add: h)
  have "t0 div ?B \<le> 1" by (rule carry_step) (use b in \<open>simp add: t0_def\<close>)
  then have "t1 div ?B \<le> 1" by (intro carry_step) (use b in \<open>simp add: t1_def\<close>)
  then have "t2 div ?B \<le> 1" by (intro carry_step) (use b in \<open>simp add: t2_def\<close>)
  then have "t3 div ?B \<le> 1" by (intro carry_step) (use b in \<open>simp add: t3_def\<close>)
  then have "t4 \<le> 2 ^ 26" using b by (simp add: t4_def)
  then show "small (select_num h)" using assms by (simp add: select)
qed

lemma borrow_mask:
  assumes "t \<le> 2 ^ 26"
  shows "drop_bit 31 (of_nat t - 0x4000000 :: c32) - 1 = (if t < 2 ^ 26 then 0 else - 1)"
proof (cases "t < 2 ^ 26")
  case True
  have word: "of_nat t - 0x4000000 = (of_nat (t + 2 ^ 32 - 2 ^ 26) :: c32)"
    using True by (simp add: of_nat_diff)
  have bit: "drop_bit 31 (of_nat (t + 2 ^ 32 - 2 ^ 26) :: c32) = 1"
  proof (rule unat_eqI)
    have "unat (of_nat n :: c32) = n" if "n < 2 ^ 32" for n using that by (simp add: unat_of_nat)
    from this [of "t + 2 ^ 32 - 2 ^ 26"] True
    have "unat (of_nat (t + 2 ^ 32 - 2 ^ 26) :: c32) = t + 2 ^ 32 - 2 ^ 26" by (simp del: of_nat_add)
    then show "unat (drop_bit 31 (of_nat (t + 2 ^ 32 - 2 ^ 26) :: c32)) = unat (1 :: c32)"
      unfolding unat_drop_bit_eq by (simp only: drop_bit_eq_div) (use True in \<open>simp add: div_nat_eqI\<close>)
  qed
  show ?thesis unfolding word bit using True by simp
next
  case False
  then have "t = 2 ^ 26" using assms by simp
  then show ?thesis by simp
qed

lemma poly_select_words:
  assumes "small h"
  shows "poly_select (words h) = words (select_num h)"
proof -
  obtain h0 h1 h2 h3 h4 where h: "h = (h0, h1, h2, h3, h4)" by (cases h) auto
  let ?B = "2 ^ 26 :: nat"
  have b: "h0 < 2 ^ 26" "h1 < 2 ^ 26" "h2 < 2 ^ 26" "h3 < 2 ^ 26" "h4 < 2 ^ 26" using assms by (simp_all add: h)
  define t0 where "t0 = h0 + 5"
  define t1 where "t1 = h1 + t0 div ?B"
  define t2 where "t2 = h2 + t1 div ?B"
  define t3 where "t3 = h3 + t2 div ?B"
  define t4 where "t4 = h4 + t3 div ?B"
  have select: "select_num h = (if t4 < ?B then h else (t0 mod ?B, t1 mod ?B, t2 mod ?B, t3 mod ?B, t4 - ?B))"
    unfolding select_num_def h prod.case Let_def t0_def t1_def t2_def t3_def t4_def by (rule refl)
  have c0: "t0 div ?B \<le> 1" by (rule carry_step) (use b in \<open>simp add: t0_def\<close>)
  then have c1: "t1 div ?B \<le> 1" by (intro carry_step) (use b in \<open>simp add: t1_def\<close>)
  then have c2: "t2 div ?B \<le> 1" by (intro carry_step) (use b in \<open>simp add: t2_def\<close>)
  then have c3: "t3 div ?B \<le> 1" by (intro carry_step) (use b in \<open>simp add: t3_def\<close>)
  have top: "t4 \<le> 2 ^ 26" using b c3 by (simp add: t4_def)
  have t: "t0 < 2 ^ 32" "t1 < 2 ^ 32" "t2 < 2 ^ 32" "t3 < 2 ^ 32"
    using b c0 c1 c2 by (simp_all add: t0_def t1_def t2_def t3_def)
  have start: "(of_nat h0 :: c32) + 5 = of_nat t0" by (simp add: t0_def)
  have g4: "t4 \<ge> ?B \<Longrightarrow> (of_nat t4 :: c32) - 0x4000000 = of_nat (t4 - ?B)" by (simp add: of_nat_diff)
  show ?thesis
    unfolding select unfolding h words.simps poly_select_def prod.case Let_def start
      take26_of_nat drop26_of_nat [OF t(1)] of_nat_add [symmetric] t1_def [symmetric]
      drop26_of_nat [OF t(2)] t2_def [symmetric] drop26_of_nat [OF t(3)] t3_def [symmetric]
      drop26_of_nat [OF t(4)] t4_def [symmetric] borrow_mask [OF top]
    using g4 by (simp add: words.simps)
qed

section \<open>Packing\<close>

definition pack_num :: "nlimbs \<Rightarrow> nat list" where
  "pack_num h =
     (case h of (h0, h1, h2, h3, h4) \<Rightarrow>
       [h0 + 2 ^ 26 * (h1 mod 2 ^ 6), h1 div 2 ^ 6 + 2 ^ 20 * (h2 mod 2 ^ 12), h2 div 2 ^ 12 + 2 ^ 14 * (h3 mod 2 ^ 18),
        h3 div 2 ^ 18 + 2 ^ 8 * (h4 mod 2 ^ 24)])"

fun num32 :: "nat list \<Rightarrow> nat" where
  "num32 [] = 0"
| "num32 (w # ws) = w + 2 ^ 32 * num32 ws"

lemma radix_pack:
  assumes "h1 = m1 + 2 ^ 6 * q1" "h2 = m2 + 2 ^ 12 * q2" "h3 = m3 + 2 ^ 18 * q3" "h4 = m4 + 2 ^ 24 * q4"
  shows "limb_num (h0, h1, h2, h3, h4)
      = num32 [h0 + 2 ^ 26 * m1, q1 + 2 ^ 20 * m2, q2 + 2 ^ 14 * m3, q3 + 2 ^ 8 * m4] + 2 ^ 128 * q4"
  by (simp add: assms algebra_simps)

lemma num32_pack:
  assumes "small h"
  shows "num32 (pack_num h) = limb_num h mod 2 ^ 128" "\<forall>w \<in> set (pack_num h). w < 2 ^ 32"
proof -
  obtain h0 h1 h2 h3 h4 where h: "h = (h0, h1, h2, h3, h4)" by (cases h) auto
  have b: "h0 < 2 ^ 26" "h1 < 2 ^ 26" "h2 < 2 ^ 26" "h3 < 2 ^ 26" "h4 < 2 ^ 26" using assms by (simp_all add: h)
  have q: "h1 div 2 ^ 6 < 2 ^ 20" "h2 div 2 ^ 12 < 2 ^ 14" "h3 div 2 ^ 18 < 2 ^ 8"
    by (rule less_mult_imp_div_less, use b in simp)+
  have m: "h1 mod 2 ^ 6 < 2 ^ 6" "h2 mod 2 ^ 12 < 2 ^ 12" "h3 mod 2 ^ 18 < 2 ^ 18" "h4 mod 2 ^ 24 < 2 ^ 24" by simp_all
  have "x + 2 ^ 26 * y < 2 ^ 32" if "x < 2 ^ 26" "y < 2 ^ 6" for x y :: nat using that by simp
  moreover have "x + 2 ^ 20 * y < 2 ^ 32" if "x < 2 ^ 20" "y < 2 ^ 12" for x y :: nat using that by simp
  moreover have "x + 2 ^ 14 * y < 2 ^ 32" if "x < 2 ^ 14" "y < 2 ^ 18" for x y :: nat using that by simp
  moreover have "x + 2 ^ 8 * y < 2 ^ 32" if "x < 2 ^ 8" "y < 2 ^ 24" for x y :: nat using that by simp
  ultimately show words: "\<forall>w \<in> set (pack_num h). w < 2 ^ 32"
    using b(1) q m unfolding pack_num_def h prod.case list.set ball_simps by blast
  have "limb_num h = num32 (pack_num h) + 2 ^ 128 * (h4 div 2 ^ 24)"
    unfolding h pack_num_def prod.case
    by (rule radix_pack) (rule mod_mult_div_eq [symmetric])+
  moreover have "num32 (pack_num h) < 2 ^ 128" using words by (simp add: pack_num_def h)
  ultimately show "num32 (pack_num h) = limb_num h mod 2 ^ 128" by simp
qed

lemma take_pack: "x + 2 ^ k * (y mod 2 ^ l) = (x + 2 ^ k * y) mod 2 ^ (k + l)" if "x < 2 ^ k" for x y :: nat
  using that by (simp add: power_add mod_mult2_eq)

definition words_of :: "limbs \<Rightarrow> c32 list" where
  "words_of h =
     (case h of (h0, h1, h2, h3, h4) \<Rightarrow>
       [h0 OR push_bit 26 h1, drop_bit 6 h1 OR push_bit 20 h2, drop_bit 12 h2 OR push_bit 14 h3,
        drop_bit 18 h3 OR push_bit 8 h4])"

lemma drop_of_nat: "x < 2 ^ 26 \<Longrightarrow> drop_bit k (of_nat x :: c32) = of_nat (x div 2 ^ k)"
proof (rule unat_eqI)
  assume x: "x < 2 ^ 26"
  have unat: "unat (of_nat y :: c32) = y" if "y < 2 ^ 26" for y using that by (simp add: unat_of_nat)
  have "x div 2 ^ k < 2 ^ 26" using x by (rule le_less_trans [OF div_le_dividend])
  then show "unat (drop_bit k (of_nat x :: c32)) = unat (of_nat (x div 2 ^ k) :: c32)"
    unfolding unat_drop_bit_eq unat [OF x] by (simp only: unat drop_bit_eq_div)
qed

lemma words_of_words:
  assumes "small h"
  shows "map unat (words_of (words h)) = pack_num h"
proof -
  obtain h0 h1 h2 h3 h4 where h: "h = (h0, h1, h2, h3, h4)" by (cases h) auto
  have b: "h0 < 2 ^ 26" "h1 < 2 ^ 26" "h2 < 2 ^ 26" "h3 < 2 ^ 26" "h4 < 2 ^ 26" using assms by (simp_all add: h)
  have q: "h1 div 2 ^ 6 < 2 ^ 20" "h2 div 2 ^ 12 < 2 ^ 14" "h3 div 2 ^ 18 < 2 ^ 8"
    by (rule less_mult_imp_div_less, use b in simp)+
  have w: "words_of (words h) = map of_nat [h0 + 2 ^ 26 * h1, h1 div 2 ^ 6 + 2 ^ 20 * h2, h2 div 2 ^ 12 + 2 ^ 14 * h3, h3 div 2 ^ 18 + 2 ^ 8 * h4]"
    unfolding h words.simps words_of_def prod.case list.map drop_of_nat [OF b(2)] drop_of_nat [OF b(3)] drop_of_nat [OF b(4)]
      or_disjoint [OF b(1)] or_disjoint [OF q(1)] or_disjoint [OF q(2)] or_disjoint [OF q(3)] by (rule refl)
  have unat: "unat (of_nat x :: c32) = x mod 2 ^ 32" for x by (simp add: unat_of_nat)
  show ?thesis
    unfolding w unfolding list.map unat pack_num_def h prod.case
    using take_pack [OF b(1), of h1 6] take_pack [OF q(1), of h2 12] take_pack [OF q(2), of h3 18] take_pack [OF q(3), of h4 24]
    by (simp only: numeral_plus_numeral semiring_norm)
qed

lemma le_num_store32: "le_num (cc_store32_le v) = unat v"
proof -
  have "unat (ucast (drop_bit k v) :: byte) = unat v div 2 ^ k mod 256" for k
    by (simp only: unsigned_ucast_eq unat_drop_bit_eq) (simp add: take_bit_eq_mod drop_bit_eq_div)
  from this [of 0] this [of 8] this [of 16] this [of 24]
  have "le_num (cc_store32_le v) = unat v mod 256 + 256 * (unat v div 2 ^ 8 mod 256 + 256 * (unat v div 2 ^ 16 mod 256
      + 256 * (unat v div 2 ^ 24 mod 256)))"
    by (simp add: cc_store32_le_def)
  also have "unat v div 2 ^ 24 mod 256 = unat v div 2 ^ 24"
    by (rule mod_less, rule less_mult_imp_div_less) (use unsigned_less [of v] in simp)

  also have "unat v div 2 ^ 16 mod 256 + 256 * (unat v div 2 ^ 24) = unat v div 2 ^ 16"
    using mod_mult_div_eq [of "unat v div 2 ^ 16" 256] by (simp flip: div_mult2_eq)
  also have "unat v div 2 ^ 8 mod 256 + 256 * (unat v div 2 ^ 16) = unat v div 2 ^ 8"
    using mod_mult_div_eq [of "unat v div 2 ^ 8" 256] by (simp flip: div_mult2_eq)
  finally show ?thesis by simp
qed

lemma num32_add:
  assumes "w0 + p0 = m0 + 2 ^ 32 * q0" "w1 + p1 + q0 = m1 + 2 ^ 32 * q1" "w2 + p2 + q1 = m2 + 2 ^ 32 * q2"
    "w3 + p3 + q2 = m3 + 2 ^ 32 * q3"
  shows "num32 [w0, w1, w2, w3] + num32 [p0, p1, p2, p3] = num32 [m0, m1, m2, m3] + 2 ^ 128 * q3"
  using assms by simp

lemma drop32_of_nat: "x < 2 ^ 64 \<Longrightarrow> drop_bit 32 (of_nat x :: 64 word) = of_nat (x div 2 ^ 32)"
  by (rule unat_eqI) (simp add: unat_drop_bit_eq drop_bit_eq_div unat_div_distrib unat_of_nat)

lemma low32_of_nat: "unat (ucast (of_nat x :: 64 word) :: c32) = x mod 2 ^ 32"
  by (simp add: unsigned_ucast_eq unat_of_nat take_bit_eq_mod mod_mod_cancel)

lemma wide: "(ucast (w :: c32) :: 64 word) = of_nat (unat w)"
  by simp

lemma poly_pack_num:
  assumes "length pad = 4"
  shows "le_num (poly_pack h pad) = (num32 (map unat (words_of h)) + num32 (map unat pad)) mod 2 ^ 128"
    and "length (poly_pack h pad) = 16"
proof -
  obtain h0 h1 h2 h3 h4 where h: "h = (h0, h1, h2, h3, h4)" by (cases h) auto
  obtain p0 p1 p2 p3 where pad: "pad = [p0, p1, p2, p3]"
    using assms by (auto simp: numeral_eq_Suc length_Suc_conv)
  define w0 where "w0 = h0 OR push_bit 26 h1"
  define w1 where "w1 = drop_bit 6 h1 OR push_bit 20 h2"
  define w2 where "w2 = drop_bit 12 h2 OR push_bit 14 h3"
  define w3 where "w3 = drop_bit 18 h3 OR push_bit 8 h4"
  define f0 where "f0 = unat w0 + unat p0"
  define f1 where "f1 = unat w1 + unat p1 + f0 div 2 ^ 32"
  define f2 where "f2 = unat w2 + unat p2 + f1 div 2 ^ 32"
  define f3 where "f3 = unat w3 + unat p3 + f2 div 2 ^ 32"
  have less: "unat w < 2 ^ 32" for w :: c32 using unsigned_less [of w] by simp
  have f: "f0 < 2 ^ 64" "f1 < 2 ^ 64" "f2 < 2 ^ 64"
    using less [of w0] less [of p0] less [of w1] less [of p1] less [of w2] less [of p2]
      div_le_dividend [of f0 "2 ^ 32"] div_le_dividend [of f1 "2 ^ 32"]
    unfolding f0_def [symmetric] by (simp_all add: f0_def f1_def f2_def)
  have words: "words_of h = [w0, w1, w2, w3]" by (simp add: words_of_def h w0_def w1_def w2_def w3_def)
  have nth: "pad ! 0 = p0" "pad ! 1 = p1" "pad ! 2 = p2" "pad ! 3 = p3" by (simp_all add: pad)
  have pack: "poly_pack h pad = cc_store32_le (ucast (of_nat f0 :: 64 word)) @ cc_store32_le (ucast (of_nat f1 :: 64 word))
      @ cc_store32_le (ucast (of_nat f2 :: 64 word)) @ cc_store32_le (ucast (of_nat f3 :: 64 word))"
    unfolding poly_pack_def h prod.case Let_def w0_def [symmetric] w1_def [symmetric] w2_def [symmetric] w3_def [symmetric]
      nth wide of_nat_add [symmetric] f0_def [symmetric] drop32_of_nat [OF f(1)] f1_def [symmetric]
      drop32_of_nat [OF f(2)] f2_def [symmetric] drop32_of_nat [OF f(3)] f3_def [symmetric]
    by (rule refl)
  have split: "x = t \<Longrightarrow> x = t mod 2 ^ 32 + 2 ^ 32 * (t div 2 ^ 32)" for x t :: nat by simp
  have "num32 (map unat (words_of h)) + num32 (map unat pad)
      = num32 [f0 mod 2 ^ 32, f1 mod 2 ^ 32, f2 mod 2 ^ 32, f3 mod 2 ^ 32] + 2 ^ 128 * (f3 div 2 ^ 32)"
    unfolding words pad list.map
    by (rule num32_add; rule split; simp only: f0_def f1_def f2_def f3_def)
  moreover have "le_num (poly_pack h pad) = num32 [f0 mod 2 ^ 32, f1 mod 2 ^ 32, f2 mod 2 ^ 32, f3 mod 2 ^ 32]"
    unfolding pack by (simp only: le_num_append le_num_store32 length_store32 low32_of_nat num32.simps) simp
  moreover show len: "length (poly_pack h pad) = 16" unfolding pack by (simp add: length_store32)
  moreover have "le_num (poly_pack h pad) < 2 ^ 128" using le_num_less [of "poly_pack h pad"] len by simp
  ultimately show "le_num (poly_pack h pad) = (num32 (map unat (words_of h)) + num32 (map unat pad)) mod 2 ^ 128"
    by simp
qed

section \<open>Streaming\<close>

interpretation poly: block_hash "poly_block hibit r" 16 for hibit r
  by unfold_locales simp

text \<open>A state \<open>c\<close> that has been fed \<open>m\<close> since it was initialised with \<open>key\<close>.\<close>

definition fed :: "byte list \<Rightarrow> byte list \<Rightarrow> poly1305 \<Rightarrow> bool" where
  "fed key m c \<longleftrightarrow>
     p_r c = p_r (poly_init key) \<and> p_pad c = p_pad (poly_init key) \<and> \<not> p_final c \<and> p_buffer c = waiting 16 m \<and>
     p_h c = absorb (poly_block 0x1000000 (p_r (poly_init key))) 16 (0, 0, 0, 0, 0) m"

lemma poly_blocks_simps [simp]:
  "p_r (poly_blocks c m) = p_r c" "p_pad (poly_blocks c m) = p_pad c" "p_final (poly_blocks c m) = p_final c"
  "p_buffer (poly_blocks c m) = p_buffer c"
  by (simp_all add: poly_blocks_def)

lemma p_h_blocks: "p_h (poly_blocks c m) = absorb (poly_block (if p_final c then 0 else 0x1000000) (p_r c)) 16 (p_h c) m"
  by (simp add: poly_blocks_def)

lemma poly_init_fed: "fed key [] (poly_init key)"
  by (simp add: fed_def poly_init_def poly.absorb_short waiting_def)

lemma poly_rest_fed:
  assumes "fed key m c" "length m mod 16 = 0"
  shows "fed key (m @ x) (poly_rest c x)"
proof -
  have want: "length x - length x mod 16 = 16 * (length x div 16)" by (simp add: minus_mod_eq_mult_div)
  have wait: "drop (16 * (length x div 16)) x = waiting 16 (m @ x)"
    unfolding poly.aligned_append(2) [OF assms(2)] by (rule waiting_def [symmetric])
  have short: "absorb f 16 s x = s" if "length x < 16" for f :: "limbs \<Rightarrow> byte list \<Rightarrow> limbs" and s
    using that by (simp add: absorb_def chunks.simps [of 16 x])
  show ?thesis
    using assms(1) short unfolding poly_rest_def want Let_def wait
    by (auto simp: fed_def poly.aligned_append(1) [OF assms(2)] p_h_blocks poly.absorb_whole)
qed

lemma poly_update_fed:
  assumes "fed key m c"
  shows "fed key (m @ x) (poly_update c x)"
proof (cases "p_buffer c = []")
  case True
  then have "length (waiting 16 m) = 0" using assms by (simp add: fed_def)
  then have "length m mod 16 = 0" by simp
  then show ?thesis using poly_rest_fed [OF assms] True by (simp add: poly_update_def)
next
  case False
  have buf: "p_buffer c = waiting 16 m" using assms by (simp add: fed_def)
  then have less: "length (p_buffer c) < 16" by simp
  show ?thesis
  proof (cases "length (waiting 16 m) + length x < 16")
    case True
    then show ?thesis
      using False assms poly.absorb_wait [OF True] unfolding poly_update_def Let_def buf
      by (simp add: fed_def)
  next
    case long: False
    define y z where "y = take (16 - length (waiting 16 m)) x" and "z = drop (16 - length (waiting 16 m)) x"
    have yz: "m @ x = (m @ y) @ z" by (simp add: y_def z_def)
    have want: "min (16 - length (waiting 16 m)) (length x) = 16 - length (waiting 16 m)" using long by simp
    have fill: "length (waiting 16 m) + length y = 16" using long less unfolding buf y_def by simp
    have full: "length (waiting 16 m @ y) = 16" using fill by simp
    have whole: "waiting 16 (m @ y) = []" by (rule poly.absorb_fill(2) [OF fill])
    let ?c = "(poly_blocks c (waiting 16 m @ y))\<lparr>p_buffer := []\<rparr>"
    have "fed key (m @ y) ?c"
      using assms by (simp add: fed_def p_h_blocks poly.absorb_block [OF full] poly.absorb_fill(1) [OF fill] whole)
    moreover have "length (waiting 16 (m @ y)) = 0" by (simp only: whole list.size)
    then have "length (m @ y) mod 16 = 0" by (simp only: length_waiting)
    ultimately have "fed key ((m @ y) @ z) (poly_rest ?c z)" by (rule poly_rest_fed)
    moreover have "poly_rest (d\<lparr>p_buffer := []\<rparr>) z = poly_rest d z" for d z
      by (simp add: poly_rest_def poly_blocks_def Let_def)
    moreover have "poly_update c x = poly_rest (poly_blocks c (waiting 16 m @ y)) z"
      using False full unfolding poly_update_def buf want Let_def y_def [symmetric] z_def [symmetric] by simp
    ultimately show ?thesis unfolding yz by simp
  qed
qed

lemma poly_updates_fed: "fed key m c \<Longrightarrow> fed key (m @ concat ms) (foldl poly_update c ms)"
proof (induction ms arbitrary: m c)
  case (Cons x ms)
  from Cons.IH [OF poly_update_fed [OF Cons.prems]] show ?case by simp
qed simp

section \<open>The specification\<close>

text \<open>Section 2.5.1 of RFC 8439, over natural numbers.\<close>

function rfc_acc :: "nat \<Rightarrow> nat \<Rightarrow> byte list \<Rightarrow> nat" where
  "rfc_acc r a m = (if m = [] then a else rfc_acc r ((a + le_num (take 16 m @ [1])) * r mod P130) (drop 16 m))"
  by pat_completeness auto
termination
  by (relation "measure (\<lambda>(r, a, m). length m)") auto

declare rfc_acc.simps [simp del]

definition rfc_r :: "byte list \<Rightarrow> nat" where
  "rfc_r key = (le_num (take 16 key) AND 0x0ffffffc0ffffffc0ffffffc0fffffff)"

definition rfc_tag :: "byte list \<Rightarrow> byte list \<Rightarrow> byte list" where
  "rfc_tag key m = le_bytes 16 (rfc_acc (rfc_r key) 0 m + le_num (take 16 (drop 16 key)))"

lemma rfc_acc_block: "length b = 16 \<Longrightarrow> rfc_acc r a (b @ m) = rfc_acc r ((a + (le_num b + 2 ^ 128)) * r mod P130) m"
  by (subst rfc_acc.simps) (auto simp: le_num_append)

lemma absorb_value:
  assumes "reduced h" "keyed r"
  obtains h' where "absorb (poly_block 0x1000000 (words r)) 16 (words h) m = words h'" "reduced h'"
    "rfc_acc (limb_num r) (limb_num h mod P130) m = rfc_acc (limb_num r) (limb_num h' mod P130) (waiting 16 m)"
  using assms(1)
proof (induction m arbitrary: h thesis rule: length_induct)
  case (1 m)
  show ?case
  proof (cases "length m < 16")
    case True
    then show ?thesis using 1(2) [of h] 1(3) by (simp add: poly.absorb_short waiting_def)
  next
    case False
    let ?b = "take 16 m" and ?m = "drop 16 m"
    have b: "length ?b = 16" "length ?b mod 16 = 0" using False by simp_all
    have one: "of_nat (2 ^ 24) = (0x1000000 :: c32)" by simp
    obtain h1 where h1: "poly_block 0x1000000 (words r) (words h) ?b = words h1" "reduced h1"
      "limb_num h1 mod P130 = (limb_num h + (le_num ?b + 2 ^ 128)) * limb_num r mod P130"
      using poly_block_words [OF b(1) 1(3) le_refl assms(2)] by (simp only: mult_1 one) blast
    have "length ?m < length m" using False by simp
    with 1(1) h1(2) obtain h' where h': "absorb (poly_block 0x1000000 (words r)) 16 (words h1) ?m = words h'" "reduced h'"
      "rfc_acc (limb_num r) (limb_num h1 mod P130) ?m = rfc_acc (limb_num r) (limb_num h' mod P130) (waiting 16 ?m)"
      by blast
    have "absorb (poly_block 0x1000000 (words r)) 16 (words h) (?b @ ?m) = words h'"
      unfolding poly.aligned_append(1) [OF b(2)] poly.absorb_block [OF b(1)] h1(1) h'(1) by (rule refl)
    moreover have "waiting 16 (?b @ ?m) = waiting 16 ?m" by (rule poly.aligned_append(2) [OF b(2)])
    moreover have "rfc_acc (limb_num r) (limb_num h mod P130) (?b @ ?m) = rfc_acc (limb_num r) (limb_num h1 mod P130) ?m"
      unfolding rfc_acc_block [OF b(1)] h1(3) by (metis mod_add_left_eq mod_mult_left_eq)
    ultimately show ?thesis using 1(2) [of h'] h'(2,3) by simp
  qed
qed

lemma load_prefix: "k + 4 \<le> n \<Longrightarrow> cc_load32_le (take n p) k = cc_load32_le p k"
  by (simp add: cc_load32_le_def)

lemma load_drop: "n + k + 4 \<le> length p \<Longrightarrow> cc_load32_le (drop n p) k = cc_load32_le p (n + k)"
  by (simp add: cc_load32_le_def algebra_simps)

lemma num32_digits: "num32 (map (\<lambda>i. n div 2 ^ (32 * i) mod 2 ^ 32) [0..<k]) = n mod 2 ^ (32 * k)"
proof (induction k arbitrary: n)
  case (Suc k)
  have digit: "n div 2 ^ (32 * Suc i) = n div 2 ^ 32 div 2 ^ (32 * i)" for i
    by (simp only: mult_Suc_right power_add div_mult2_eq)
  have "num32 (map (\<lambda>i. n div 2 ^ (32 * i) mod 2 ^ 32) [0..<Suc k])
      = n mod 2 ^ 32 + 2 ^ 32 * (n div 2 ^ 32 mod 2 ^ (32 * k))"
    by (simp only: map_upt_Suc digit num32.simps Suc) simp
  then show ?case by (simp only: mult_Suc_right power_add mod_mult2_eq add.commute)
qed simp

lemma pad_num:
  assumes "length key \<ge> 32"
  shows "num32 (map unat (p_pad (poly_init key))) = le_num (take 16 (drop 16 key))"
proof -
  let ?k = "take 16 (drop 16 key)"
  have len: "length ?k = 16" using assms by simp
  have "unat (cc_load32_le key (16 + 4 * i)) = le_num ?k div 2 ^ (32 * i) mod 2 ^ 32" if "i < 4" for i
    using unat_load [of "4 * i" ?k] load_prefix [of "4 * i" 16 "drop 16 key"] load_drop [of 16 "4 * i" key] that assms
    by (simp add: take_bit_eq_mod drop_bit_eq_div)
  then have "map unat (p_pad (poly_init key)) = map (\<lambda>i. le_num ?k div 2 ^ (32 * i) mod 2 ^ 32) [0..<4]"
    unfolding poly_init_def poly1305.simps list.map_comp comp_def by (intro map_cong refl) simp
  moreover have "le_num ?k < 2 ^ (32 * 4)" using le_num_less [of ?k] len by simp
  ultimately show ?thesis by (simp only: num32_digits mod_less)
qed

lemma clamped:
  assumes "length key \<ge> 16"
  shows "p_r (poly_init key) = words (limbs_of (rfc_r key))" "keyed (limbs_of (rfc_r key))"
proof -
  let ?k = "take 16 key" and ?c = "0x0ffffffc0ffffffc0ffffffc0fffffff :: nat"
  have len: "length ?k = 16" using assms by simp
  have limb: "rfc_r key div 2 ^ n mod 2 ^ 26 = le_num ?k div 2 ^ n mod 2 ^ 26 AND ?c div 2 ^ n mod 2 ^ 26" for n
    by (simp only: rfc_r_def take_bit_eq_mod [symmetric] drop_bit_eq_div [symmetric] drop_bit_and take_bit_and)
  have top: "rfc_r key div 2 ^ 104 = le_num ?k div 2 ^ 104 AND ?c div 2 ^ 104"
    by (simp only: rfc_r_def drop_bit_eq_div [symmetric] drop_bit_and)
  have word: "(of_nat (a AND b) :: c32) = of_nat a AND of_nat b" for a b :: nat
    by (rule bit_eqI) (auto simp: bit_of_nat_iff bit_and_iff)
  have narrow: "x AND c = (x AND 0x3ffffff) AND c" if "c AND 0x3ffffff = c" for x c :: c32
    using that by (metis and.assoc and.commute)
  have load: "drop_bit s (cc_load32_le key k) AND 0x3ffffff = of_nat (le_num ?k div 2 ^ (8 * k + s) mod 2 ^ 26)"
    if "k + 4 \<le> 16" "s \<le> 6" for k s
    using load_limb [of k ?k s] load_prefix [OF that(1), of key] that len by simp
  have l0: "cc_load32_le key 0 AND 0x3ffffff = of_nat (rfc_r key mod 2 ^ 26)"
    using load [of 0 0] limb [of 0] by (simp add: word take26_of_nat)
  have l1: "drop_bit 2 (cc_load32_le key 3) AND 0x3ffff03 = of_nat (rfc_r key div 2 ^ 26 mod 2 ^ 26)"
    using load [of 3 2] limb [of 26] by (subst narrow) (simp_all add: word)
  have l2: "drop_bit 4 (cc_load32_le key 6) AND 0x3ffc0ff = of_nat (rfc_r key div 2 ^ 52 mod 2 ^ 26)"
    using load [of 6 4] limb [of 52] by (subst narrow) (simp_all add: word)
  have l3: "drop_bit 6 (cc_load32_le key 9) AND 0x3f03fff = of_nat (rfc_r key div 2 ^ 78 mod 2 ^ 26)"
    using load [of 9 6] limb [of 78] by (subst narrow) (simp_all add: word)
  have l4: "drop_bit 8 (cc_load32_le key 12) AND 0x00fffff = of_nat (rfc_r key div 2 ^ 104)"
    using load_top [OF len] load_prefix [of 12 16 key] top by (simp add: word)
  show "p_r (poly_init key) = words (limbs_of (rfc_r key))"
    by (simp only: poly_init_def poly1305.simps l0 l1 l2 l3 l4 limbs_of_def words.simps)
  have "?c div 2 ^ 104 = mask 20" by (simp add: mask_eq_exp_minus_1)
  then have "rfc_r key div 2 ^ 104 < 2 ^ 20" unfolding top by (simp only: take_bit_eq_mask [symmetric] take_bit_nat_less_exp)
  then show "keyed (limbs_of (rfc_r key))" by (simp add: limbs_of_def)
qed

lemma poly_tag:
  assumes "reduced h" "length pad = 4"
  shows "poly_pack (poly_select (poly_carry (words h))) pad
       = le_bytes 16 (limb_num h mod P130 + num32 (map unat pad))"
proof (rule le_num_inject)
  note carry = poly_carry_words [OF assms(1)]
  note sel = select_num_mod [OF carry(2)]
  show "length (poly_pack (poly_select (poly_carry (words h))) pad) = length (le_bytes 16 (limb_num h mod P130 + num32 (map unat pad)))"
    by (simp add: poly_pack_num(2) [OF assms(2)] le_bytes_def)
  show "le_num (poly_pack (poly_select (poly_carry (words h))) pad) = le_num (le_bytes 16 (limb_num h mod P130 + num32 (map unat pad)))"
    unfolding carry(1) poly_select_words [OF carry(2)] poly_pack_num(1) [OF assms(2)] words_of_words [OF sel(2)]
      num32_pack(1) [OF sel(2)] sel(1) carry_num_mod le_num_le_bytes
    by (simp add: mod_add_left_eq)
qed

lemma poly_finish_fed:
  assumes "fed key m c" "32 \<le> length key"
  shows "poly_finish c = rfc_tag key m"
proof -
  let ?r = "limbs_of (rfc_r key)"
  have key: "p_r c = words ?r" "p_pad c = p_pad (poly_init key)" "\<not> p_final c" "p_buffer c = waiting 16 m"
    "p_h c = absorb (poly_block 0x1000000 (words ?r)) 16 (words (0, 0, 0, 0, 0)) m"
    and keyed: "keyed ?r"
    using assms clamped [of key] by (simp_all add: fed_def)
  have pad: "length (p_pad (poly_init key)) = 4" by (simp add: poly_init_def)
  have zero: "reduced (0, 0, 0, 0, 0)" by simp
  obtain h where absorbed: "absorb (poly_block 0x1000000 (words ?r)) 16 (words (0, 0, 0, 0, 0)) m = words h" "reduced h"
    "rfc_acc (limb_num ?r) (limb_num (0, 0, 0, 0, 0) mod P130) m = rfc_acc (limb_num ?r) (limb_num h mod P130) (waiting 16 m)"
    by (rule absorb_value [OF zero keyed])
  have "limb_num (0, 0, 0, 0, 0) mod P130 = 0" by simp
  then have h: "p_h c = words h" "reduced h"
    "rfc_acc (rfc_r key) 0 m = rfc_acc (rfc_r key) (limb_num h mod P130) (waiting 16 m)"
    using absorbed unfolding key(5) limb_num_limbs_of by simp_all
  show ?thesis
  proof (cases "waiting 16 m = []")
    case True
    then have "rfc_acc (rfc_r key) 0 m = limb_num h mod P130" using h(3) by (simp add: rfc_acc.simps)
    then show ?thesis
      using True poly_tag [OF h(2) pad] pad_num [OF assms(2)] by (simp add: poly_finish_def key(1-4) h(1) rfc_tag_def)
  next
    case False
    let ?b = "waiting 16 m @ 1 # replicate (15 - length (waiting 16 m)) 0"
    have "length (waiting 16 m) < 16" by simp
    then have len: "length ?b = 16" by simp
    have num: "le_num ?b = le_num (take 16 (waiting 16 m) @ [1])" by (simp add: le_num_append)
    obtain h' where h': "poly_block 0 (words ?r) (words h) ?b = words h'" "reduced h'"
      "limb_num h' mod P130 = (limb_num h + le_num ?b) * rfc_r key mod P130"
      by (rule poly_block_words [OF len h(2) zero_le_one keyed, unfolded mult_zero_left semiring_1_class.of_nat_0 add_0_right limb_num_limbs_of])
    have "rfc_acc (rfc_r key) 0 m = limb_num h' mod P130"
    proof -
      have "length (waiting 16 m) < 16" by simp
      then have "drop 16 (waiting 16 m) = []" by (intro drop_all less_imp_le)
      then have "rfc_acc r a (waiting 16 m) = (a + le_num (take 16 (waiting 16 m) @ [1])) * r mod P130" for r a
        using False rfc_acc.simps [of r a "waiting 16 m"] rfc_acc.simps [of r _ "[]"] by (simp only: if_False if_True simp_thms)
      then show ?thesis
        unfolding h(3) h'(3) num by (metis mod_add_left_eq mod_mult_left_eq)
    qed
    moreover have "p_h (poly_blocks (c\<lparr>p_final := True\<rparr>) ?b) = words h'"
      using h'(1) by (simp add: p_h_blocks key(1) h(1) poly.absorb_block [OF len, unfolded length_waiting])
    moreover have "length m mod 16 \<noteq> 0" using False by (simp only: length_waiting [symmetric] length_0_conv not_False_eq_True)
    ultimately show ?thesis
      using poly_tag [OF h'(2) pad] pad_num [OF assms(2)] by (simp add: poly_finish_def Let_def key(1-4) rfc_tag_def)
  qed
qed

text \<open>
  C18. The Poly1305 authenticator computes the tag of RFC 8439 section 2.5, whatever the updates the
  message arrives in: the limbs never overflow their words, the carries lose nothing and the
  conditional subtraction reduces completely.
\<close>

theorem poly1305_correct:
  assumes "32 \<le> length key"
  shows "poly_finish (foldl poly_update (poly_init key) ms) = rfc_tag key (concat ms)"
  using poly_finish_fed [OF poly_updates_fed [OF poly_init_fed] assms] by simp

theorem poly1305_correct_witness:
  "poly_finish (foldl poly_update (poly_init (replicate 32 7)) [[1, 2, 3], replicate 20 9])
     = rfc_tag (replicate 32 7) (concat [[1, 2, 3], replicate 20 9])"
  using poly1305_correct [of "replicate 32 7" "[[1, 2, 3], replicate 20 9]"] by simp

end
