(* ===== verification/Aead.thy ===== *)
theory Aead
  imports Poly1305_Tag
begin

text \<open>
  \<open>aead_seal\<close> and \<open>aead_open\<close> of \<open>chacha20poly1305.hpp\<close>. Both compute the tag with the same lines
  (\<open>aead_tag\<close>); opening succeeds exactly on what sealing produces.
\<close>

definition aead_tag :: "byte list \<Rightarrow> byte list \<Rightarrow> byte list \<Rightarrow> byte list" where
  "aead_tag key nonce ct =
     (let p = poly_init (chacha20_block key 0 nonce);
          p = (if ct \<noteq> [] then
                 let p = poly_update p ct; rem = length ct mod 16
                 in if rem \<noteq> 0 then poly_update p (replicate (16 - rem) 0) else p
               else p)
      in poly_finish (poly_update p (cc_store64_le 0 @ cc_store64_le (of_nat (length ct)))))"

definition aead_seal :: "byte list \<Rightarrow> byte list \<Rightarrow> byte list \<Rightarrow> byte list \<times> byte list" where
  "aead_seal key nonce pt =
     (let ct = (if pt \<noteq> [] then chacha20_xor key 1 nonce pt else [])
      in (ct, aead_tag key nonce ct))"

text \<open>The comparison ORs the differences of the sixteen bytes together.\<close>

definition tag_diff :: "byte list \<Rightarrow> byte list \<Rightarrow> byte" where
  "tag_diff expected tag = foldl (\<lambda>d i. or d (xor (expected ! i) (tag ! i))) 0 [0..<16]"

definition aead_open :: "byte list \<Rightarrow> byte list \<Rightarrow> byte list \<Rightarrow> byte list \<Rightarrow> byte list option" where
  "aead_open key nonce ct tag =
     (if tag_diff (aead_tag key nonce ct) tag \<noteq> 0 then None
      else Some (if ct \<noteq> [] then chacha20_xor key 1 nonce ct else []))"

section \<open>The tag\<close>

lemma or_eq_0: "or a b = 0 \<longleftrightarrow> a = 0 \<and> b = 0" for a b :: "'a::len word"
  by (auto simp: bit_eq_iff bit_or_iff)

lemma or_fold_eq_0: "foldl (\<lambda>d i. or d (f i)) a xs = 0 \<longleftrightarrow> a = 0 \<and> (\<forall>i \<in> set xs. f i = 0)" for a :: byte
  by (induction xs arbitrary: a) (auto simp: or_eq_0)

lemma xor_eq_0: "xor a b = 0 \<longleftrightarrow> a = b" for a b :: "'a::len word"
  by (auto simp: bit_eq_iff bit_xor_iff)

lemma tag_diff_eq_0:
  assumes "length a = 16" "length b = 16"
  shows "tag_diff a b = 0 \<longleftrightarrow> a = b"
  using assms by (auto simp: tag_diff_def or_fold_eq_0 xor_eq_0 intro: nth_equalityI simp del: upt_Suc)

definition padded :: "byte list \<Rightarrow> byte list" where
  "padded ct = ct @ replicate ((16 - length ct mod 16) mod 16) 0"

definition aead_spec :: "byte list \<Rightarrow> byte list \<Rightarrow> byte list \<Rightarrow> byte list" where
  "aead_spec key nonce ct =
     rfc_tag (chacha20_block key 0 nonce) (padded ct @ cc_store64_le 0 @ cc_store64_le (of_nat (length ct)))"

lemma aead_tag_eq: "aead_tag key nonce ct = aead_spec key nonce ct"
proof -
  let ?k = "chacha20_block key 0 nonce" and ?l = "cc_store64_le 0 @ cc_store64_le (of_nat (length ct))"
  define ms where "ms = (if ct = [] then [] else if length ct mod 16 = 0 then [ct] else [ct, replicate (16 - length ct mod 16) 0])"
  have "aead_tag key nonce ct = poly_finish (foldl poly_update (poly_init ?k) (ms @ [?l]))"
    by (simp add: aead_tag_def ms_def Let_def)
  also have "\<dots> = rfc_tag ?k (concat (ms @ [?l]))"
    by (rule poly_finish_fed) (use poly_updates_fed [OF poly_init_fed, of ?k "ms @ [?l]"] in simp_all)
  also have "concat (ms @ [?l]) = padded ct @ ?l"
    by (simp add: ms_def padded_def)
  finally show ?thesis by (simp add: aead_spec_def)
qed

lemma length_aead_tag [simp]: "length (aead_tag key nonce ct) = 16"
  by (simp add: aead_tag_eq aead_spec_def rfc_tag_def le_bytes_def)

lemma aead_seal_eq: "aead_seal key nonce pt = (chacha20_xor key 1 nonce pt, aead_tag key nonce (chacha20_xor key 1 nonce pt))"
  by (simp add: aead_seal_def Let_def)

lemma aead_open_eq:
  "length tag = 16 \<Longrightarrow>
   aead_open key nonce ct tag = (if tag = aead_tag key nonce ct then Some (chacha20_xor key 1 nonce ct) else None)"
  by (auto simp: aead_open_def tag_diff_eq_0)

lemma aead_open_iff:
  assumes "length tag = 16"
  shows "aead_open key nonce ct tag = Some pt \<longleftrightarrow> aead_seal key nonce pt = (ct, tag)"
  using assms by (auto simp: aead_open_eq aead_seal_eq)

text \<open>
  C17. The authenticated encryption is that of RFC 8439 section 2.8 without associated data: the
  ciphertext is the plaintext under the keystream from block 1, the tag is the Poly1305 tag under the
  key of block 0 of the zero-padded ciphertext and the two lengths; and opening a ciphertext with a tag
  gives a plaintext exactly when sealing that plaintext gives this ciphertext and tag, so no other tag
  is ever accepted.
\<close>

theorem aead_correct:
  assumes "length tag = 16"
  shows "aead_seal key nonce pt =
        (let ct = map (\<lambda>i. xor (pt ! i) (keystream key 1 nonce i)) [0..<length pt] in (ct, aead_spec key nonce ct))
    \<and> (aead_open key nonce ct tag = Some pt \<longleftrightarrow> aead_seal key nonce pt = (ct, tag))"
  by (simp only: aead_open_iff [OF assms] aead_seal_eq chacha20_xor_eq aead_tag_eq Let_def simp_thms)

theorem aead_correct_witness:
  "(case aead_seal (replicate 32 1) (replicate 12 2) [3, 4, 5] of (ct, tag) \<Rightarrow>
      aead_open (replicate 32 1) (replicate 12 2) ct tag = Some [3, 4, 5])"
proof -
  obtain ct tag where s: "aead_seal (replicate 32 1) (replicate 12 2) [3, 4, 5] = (ct, tag)" by force
  then have "length tag = 16" by (auto simp: aead_seal_eq)
  then have "aead_open (replicate 32 1) (replicate 12 2) ct tag = Some [3, 4, 5]"
    using aead_correct [of tag "replicate 32 1" "replicate 12 2" "[3, 4, 5]" ct] s by blast
  then show ?thesis unfolding s by (simp only: prod.case)
qed

end
