(* ===== verification/Store.thy ===== *)
theory Store
  imports Aead Client_State
begin

text \<open>
  \<open>store.hpp\<close>: the plain and the encrypted file store over a disk of named files. What the file
  system answers during one operation, failures included, is the value \<open>faults\<close>; the operations take
  their branches on it as the code does. Both stores provide the interface \<open>license_store\<close> on a disk
  that does not fail.
\<close>

type_synonym path = string

record disk =
  files :: "path \<Rightarrow> byte list option"

text \<open>
  The file system and the random generator during one operation. \<open>f_kept\<close> is how many of the written
  bytes are in the file once the stream is closed, \<open>None\<close> when all of them are: the stream buffers, and
  a failure to flush on closing is reported nowhere.
\<close>

record faults =
  f_exists :: "path \<Rightarrow> bool"   \<comment> \<open>\<open>fs::exists\<close> does not throw\<close>
  f_reads :: "path \<Rightarrow> bool"    \<comment> \<open>\<open>std::ifstream\<close> opens\<close>
  f_mkdir :: bool              \<comment> \<open>\<open>create_directories\<close> does not throw\<close>
  f_creates :: bool            \<comment> \<open>\<open>std::ofstream\<close> opens\<close>
  f_writes :: bool             \<comment> \<open>the stream is good after \<open>write\<close>\<close>
  f_kept :: "nat option"
  f_renames :: bool            \<comment> \<open>\<open>fs::rename\<close> does not throw\<close>
  f_removes :: "path \<Rightarrow> bool"  \<comment> \<open>\<open>fs::remove\<close> removes\<close>
  f_what :: string             \<comment> \<open>the text of a \<open>filesystem_error\<close>\<close>
  f_random :: "nat \<Rightarrow> 64 word" \<comment> \<open>the generator's draws\<close>

definition calm_disk :: "faults \<Rightarrow> bool" where
  "calm_disk F \<longleftrightarrow> (\<forall>p. f_exists F p \<and> f_reads F p \<and> f_removes F p) \<and> f_mkdir F \<and> f_creates F \<and> f_writes F
     \<and> f_kept F = None \<and> f_renames F"

definition put :: "path \<Rightarrow> byte list option \<Rightarrow> disk \<Rightarrow> disk" where
  "put p b d = d\<lparr>files := (files d)(p := b)\<rparr>"

lemma files_put [simp]: "files (put p b d) = (files d)(p := b)"
  by (simp add: put_def)

definition has_parent_path :: "path \<Rightarrow> bool" where
  "has_parent_path p \<longleftrightarrow> CHR ''/'' \<in> set p"

definition path_join :: "path \<Rightarrow> path \<Rightarrow> path" where
  "path_join a b =
     (if b \<noteq> [] \<and> hd b = CHR ''/'' then b
      else if a = [] \<or> last a = CHR ''/'' then a @ b
      else a @ CHR ''/'' # b)"

definition flushed :: "faults \<Rightarrow> byte list \<Rightarrow> byte list" where
  "flushed F data = (case f_kept F of None \<Rightarrow> data | Some n \<Rightarrow> take n data)"

section \<open>Writing a file\<close>

text \<open>The end of both \<open>save\<close> functions: the temporary file, then the rename.\<close>

definition tmp_path :: "path \<Rightarrow> path" where
  "tmp_path p = p @ ''.tmp''"

definition write_file :: "faults \<Rightarrow> string \<Rightarrow> path \<Rightarrow> byte list \<Rightarrow> disk \<Rightarrow> unit result \<times> disk" where
  "write_file F who p data d =
     (let tmp = tmp_path p in
      if \<not> f_creates F then (err EC_Io (who @ '': cannot write '' @ tmp), d)
      else let d = put tmp (Some (flushed F data)) d in
        if \<not> f_writes F then (err EC_Io (who @ '': write failed for '' @ tmp), d)
        else if \<not> f_renames F then (err EC_Io (f_what F), d)
        else (Inr (), put p (files d tmp) (put tmp None d)))"

section \<open>FileStore\<close>

definition file_load :: "faults \<Rightarrow> path \<Rightarrow> disk \<Rightarrow> string result \<times> disk" where
  "file_load F p d =
     (if \<not> f_exists F p then (err EC_Io (f_what F), d)
      else case files d p of
        None \<Rightarrow> (Inr [], d)
      | Some data \<Rightarrow>
          if \<not> f_reads F p then (err EC_Io (''FileStore: cannot open '' @ p), d)
          else (Inr (string_of_bytes data), d))"

definition file_save :: "faults \<Rightarrow> path \<Rightarrow> string \<Rightarrow> disk \<Rightarrow> unit result \<times> disk" where
  "file_save F p data d =
     (if has_parent_path p \<and> \<not> f_mkdir F then (err EC_Io (f_what F), d)
      else write_file F ''FileStore'' p (bytes_of data) d)"

definition file_clear :: "faults \<Rightarrow> path \<Rightarrow> disk \<Rightarrow> unit result \<times> disk" where
  "file_clear F p d = (Inr (), if f_removes F p then put p None d else d)"

section \<open>EncryptedFileStore\<close>

definition derive_store_key :: "string \<Rightarrow> byte list" where
  "derive_store_key machine_id = sha256_bytes (bytes_of (''keylight-store-v1'' @ machine_id))"

definition store_binding_id :: "(string \<Rightarrow> string option) \<Rightarrow> string" where
  "store_binding_id fs = (case read_hardware_id fs of Some i \<Rightarrow> i | None \<Rightarrow> [])"

record EncryptedFileStore =
  path_of :: path
  legacy_path :: path
  store_key :: "byte list"

definition encrypted_store :: "path \<Rightarrow> string \<Rightarrow> path \<Rightarrow> EncryptedFileStore" where
  "encrypted_store p machine_id legacy = \<lparr>path_of = p, legacy_path = legacy, store_key = derive_store_key machine_id\<rparr>"

definition default_store :: "(string \<Rightarrow> string option) \<Rightarrow> path \<Rightarrow> EncryptedFileStore" where
  "default_store fs p = encrypted_store p (store_binding_id fs) []"

definition migrating :: "(string \<Rightarrow> string option) \<Rightarrow> path \<Rightarrow> path \<Rightarrow> EncryptedFileStore" where
  "migrating fs p legacy = encrypted_store p (store_binding_id fs) legacy"

text \<open>Two draws of 64 bits fill the twelve bytes, low byte first.\<close>

definition draw_nonce :: "(nat \<Rightarrow> 64 word) \<Rightarrow> byte list" where
  "draw_nonce rng =
     concat (map (\<lambda>i. map (\<lambda>j. ucast (drop_bit (8 * j) (rng (i div 8)))) (filter (\<lambda>j. i + j < 12) [0..<8])) [0, 8])"

definition sealed :: "byte list \<Rightarrow> byte list \<Rightarrow> string \<Rightarrow> byte list" where
  "sealed key nonce data = (case aead_seal key nonce (bytes_of data) of (ct, tag) \<Rightarrow> nonce @ ct @ tag)"

definition enc_save :: "faults \<Rightarrow> EncryptedFileStore \<Rightarrow> string \<Rightarrow> disk \<Rightarrow> unit result \<times> disk" where
  "enc_save F S data d =
     (if has_parent_path (path_of S) \<and> \<not> f_mkdir F then (err EC_Io (f_what F), d)
      else write_file F ''EncryptedFileStore'' (path_of S) (sealed (store_key S) (draw_nonce (f_random F)) data) d)"

definition unseal :: "byte list \<Rightarrow> byte list \<Rightarrow> string" where
  "unseal key blob =
     (if length blob < 12 + 16 then []
      else let ct_len = length blob - 12 - 16 in
        (case aead_open key (take 12 blob) (take ct_len (drop 12 blob)) (drop (12 + ct_len) blob) of
           None \<Rightarrow> []
         | Some out \<Rightarrow> string_of_bytes out))"

text \<open>\<open>load\<close> after the migration step, and the whole of it.\<close>

definition enc_read :: "faults \<Rightarrow> EncryptedFileStore \<Rightarrow> disk \<Rightarrow> string" where
  "enc_read F S d =
     (if \<not> f_exists F (path_of S) then []
      else case files d (path_of S) of
        None \<Rightarrow> []
      | Some blob \<Rightarrow> if \<not> f_reads F (path_of S) then [] else unseal (store_key S) blob)"

definition enc_load :: "faults \<Rightarrow> EncryptedFileStore \<Rightarrow> disk \<Rightarrow> string result \<times> disk" where
  "enc_load F S d =
     (if legacy_path S = [] then (Inr (enc_read F S d), d)
      else if \<not> f_exists F (path_of S) then (Inr [], d)
      else if files d (path_of S) \<noteq> None then (Inr (enc_read F S d), d)
      else if \<not> f_exists F (legacy_path S) then (Inr [], d)
      else case files d (legacy_path S) of
        None \<Rightarrow> (Inr (enc_read F S d), d)
      | Some legacy \<Rightarrow>
          if f_reads F (legacy_path S) \<and> legacy \<noteq> [] then
            (case enc_save F S (string_of_bytes legacy) d of (r, d) \<Rightarrow>
               (Inr (string_of_bytes legacy),
                if is_ok r \<and> f_removes F (legacy_path S) then put (legacy_path S) None d else d))
          else (Inr (enc_read F S d), d))"

definition enc_clear :: "faults \<Rightarrow> EncryptedFileStore \<Rightarrow> disk \<Rightarrow> unit result \<times> disk" where
  "enc_clear F S d = (Inr (), if f_removes F (path_of S) then put (path_of S) None d else d)"

section \<open>Paths\<close>

definition store_base :: "string option \<Rightarrow> path \<Rightarrow> path" where
  "store_base home tmpdir = path_join (case home of Some h \<Rightarrow> h | None \<Rightarrow> tmpdir) ''.keylight''"

definition default_store_path :: "string option \<Rightarrow> path \<Rightarrow> Config \<Rightarrow> path" where
  "default_store_path home tmpdir g = path_join (store_base home tmpdir) (tenantId g @ ''-'' @ productId g @ ''.bin'')"

definition legacy_plaintext_path :: "string option \<Rightarrow> path \<Rightarrow> Config \<Rightarrow> path" where
  "legacy_plaintext_path home tmpdir g =
     path_join (store_base home tmpdir) (tenantId g @ ''-'' @ productId g @ ''.lease'')"

end
