(* ===== verification/Store_Laws.thy ===== *)
theory Store_Laws
  imports Store
begin

text \<open>
  What the stores promise the client, as a locale over operations that may fail: a failed save changes
  nothing a load can see, a successful one is what the next load returns, and so on for any sequence.
  \<open>FileStore\<close> and \<open>EncryptedFileStore\<close> both provide it, as long as closing a file flushes it.
\<close>

datatype store_op = Op_load | Op_save string | Op_clear

fun run_ops :: "('f \<Rightarrow> 'd \<Rightarrow> string result \<times> 'd) \<Rightarrow> ('f \<Rightarrow> string \<Rightarrow> 'd \<Rightarrow> unit result \<times> 'd)
    \<Rightarrow> ('f \<Rightarrow> 'd \<Rightarrow> unit result \<times> 'd) \<Rightarrow> ('f \<times> store_op) list \<Rightarrow> 'd \<Rightarrow> 'd" where
  "run_ops load save clear [] d = d"
| "run_ops load save clear ((f, Op_load) # ops) d = run_ops load save clear ops (snd (load f d))"
| "run_ops load save clear ((f, Op_save s) # ops) d = run_ops load save clear ops (snd (save f s d))"
| "run_ops load save clear ((f, Op_clear) # ops) d = run_ops load save clear ops (snd (clear f d))"

text \<open>What should be in the store afterwards: the last write that reported success.\<close>

fun last_write :: "('f \<Rightarrow> 'd \<Rightarrow> string result \<times> 'd) \<Rightarrow> ('f \<Rightarrow> string \<Rightarrow> 'd \<Rightarrow> unit result \<times> 'd)
    \<Rightarrow> ('f \<Rightarrow> 'd \<Rightarrow> unit result \<times> 'd) \<Rightarrow> ('f \<Rightarrow> bool) \<Rightarrow> ('f \<times> store_op) list \<Rightarrow> 'd \<Rightarrow> string \<Rightarrow> string" where
  "last_write load save clear removes [] d x = x"
| "last_write load save clear removes ((f, Op_load) # ops) d x =
     last_write load save clear removes ops (snd (load f d)) x"
| "last_write load save clear removes ((f, Op_save s) # ops) d x =
     last_write load save clear removes ops (snd (save f s d)) (if is_ok (fst (save f s d)) then s else x)"
| "last_write load save clear removes ((f, Op_clear) # ops) d x =
     last_write load save clear removes ops (snd (clear f d)) (if removes f then [] else x)"

locale license_store =
  fixes load :: "'f \<Rightarrow> 'd \<Rightarrow> string result \<times> 'd"
    and save :: "'f \<Rightarrow> string \<Rightarrow> 'd \<Rightarrow> unit result \<times> 'd"
    and clear :: "'f \<Rightarrow> 'd \<Rightarrow> unit result \<times> 'd"
    and removes honest calm :: "'f \<Rightarrow> bool"
    and ready :: "'d \<Rightarrow> bool" and content :: "'d \<Rightarrow> string"
  assumes calm_load: "ready d \<Longrightarrow> calm f \<Longrightarrow> fst (load f d) = Inr (content d)"
    and load_frame: "ready d \<Longrightarrow> honest f \<Longrightarrow> ready (snd (load f d)) \<and> content (snd (load f d)) = content d"
    and save_effect: "ready d \<Longrightarrow> honest f \<Longrightarrow>
        ready (snd (save f s d)) \<and> content (snd (save f s d)) = (if is_ok (fst (save f s d)) then s else content d)"
    and clear_effect: "ready d \<Longrightarrow> honest f \<Longrightarrow>
        ready (snd (clear f d)) \<and> content (snd (clear f d)) = (if removes f then [] else content d)"
begin

lemma run_content:
  "ready d \<Longrightarrow> \<forall>(f, op) \<in> set ops. honest f \<Longrightarrow>
     ready (run_ops load save clear ops d)
     \<and> content (run_ops load save clear ops d) = last_write load save clear removes ops d (content d)"
proof (induction ops arbitrary: d)
  case (Cons x ops)
  obtain f op where x: "x = (f, op)" by force
  with Cons.prems have f: "honest f" and ops: "\<forall>(f, op) \<in> set ops. honest f" by simp_all
  show ?case
    using Cons.IH [OF _ ops] load_frame [OF Cons.prems(1) f] save_effect [OF Cons.prems(1) f] clear_effect [OF Cons.prems(1) f]
    by (cases op) (simp_all add: x)
qed simp

lemma load_last_write:
  assumes "ready d" "\<forall>(f, op) \<in> set ops. honest f" "calm f"
  shows "fst (load f (run_ops load save clear ops d)) = Inr (last_write load save clear removes ops d (content d))"
  using run_content [OF assms(1,2)] calm_load [OF _ assms(3)] by simp

end

section \<open>Writing a file\<close>

lemma tmp_path_neq [simp]: "tmp_path p \<noteq> p" "p \<noteq> tmp_path p"
  by (simp_all add: tmp_path_def)

text \<open>An error changes the temporary file only; success puts what was flushed in place.\<close>

lemma write_file_cases:
  obtains (failed) r d' where "write_file F who p b d = (r, d')" "\<not> is_ok r" "\<And>q. q \<noteq> tmp_path p \<Longrightarrow> files d' q = files d q"
  | (written) d' where "write_file F who p b d = (Inr (), d')" "files d' p = Some (flushed F b)" "files d' (tmp_path p) = None"
      "\<And>q. q \<noteq> p \<Longrightarrow> q \<noteq> tmp_path p \<Longrightarrow> files d' q = files d q"
  by (cases "f_creates F"; cases "f_writes F"; cases "f_renames F")
    (auto simp: write_file_def Let_def intro: failed written)

lemma write_file_calm: "calm_disk F \<Longrightarrow> fst (write_file F who p b d) = Inr ()"
  by (simp add: write_file_def calm_disk_def Let_def)

lemma flushed_all [simp]: "f_kept F = None \<Longrightarrow> flushed F b = b"
  by (simp add: flushed_def)

definition file_content :: "path \<Rightarrow> disk \<Rightarrow> string" where
  "file_content p d = (case files d p of None \<Rightarrow> [] | Some b \<Rightarrow> string_of_bytes b)"

interpretation plain: license_store "\<lambda>F. file_load F p" "\<lambda>F. file_save F p" "\<lambda>F. file_clear F p"
  "\<lambda>F. f_removes F p" "\<lambda>F. f_kept F = None" calm_disk "\<lambda>d. True" "file_content p" for p
proof unfold_locales
  fix F :: faults and s d
  assume "f_kept F = None"
  then show "True \<and> file_content p (snd (file_save F p s d)) = (if is_ok (fst (file_save F p s d)) then s else file_content p d)"
    by (cases rule: write_file_cases [of F "''FileStore''" p "bytes_of s" d]) (simp_all add: file_save_def file_content_def)
qed (auto simp: file_load_def file_clear_def file_content_def calm_disk_def split: option.splits)

section \<open>The encrypted store\<close>

lemma length_draw_nonce [simp]: "length (draw_nonce rng) = 12"
  by (simp add: draw_nonce_def upt_rec)

lemma unseal_sealed: "length nonce = 12 \<Longrightarrow> unseal key (sealed key nonce s) = s"
proof -
  assume n: "length nonce = 12"
  obtain ct tag where s: "aead_seal key nonce (bytes_of s) = (ct, tag)" by force
  then have "length tag = 16" by (auto simp: aead_seal_eq)
  then have "aead_open key nonce ct tag = Some (bytes_of s)" using s by (simp add: aead_open_iff)
  with s n \<open>length tag = 16\<close> show ?thesis by (simp add: sealed_def unseal_def Let_def)
qed

lemma unseal_only:
  assumes "unseal key blob = s" "s \<noteq> []"
  obtains nonce where "length nonce = 12" "blob = sealed key nonce s"
proof
  let ?n = "length blob - 12 - 16"
  let ?nonce = "take 12 blob" and ?ct = "take ?n (drop 12 blob)" and ?tag = "drop (12 + ?n) blob"
  have long: "\<not> length blob < 12 + 16" using assms by (auto simp: unseal_def)
  then show "length ?nonce = 12" by simp
  have tag: "length ?tag = 16" using long by simp
  obtain out where out: "aead_open key ?nonce ?ct ?tag = Some out" "s = string_of_bytes out"
    using assms long by (auto simp: unseal_def Let_def split: option.splits)
  then have "aead_seal key ?nonce (bytes_of s) = (?ct, ?tag)" using aead_open_iff [OF tag] by simp
  moreover have "?tag = drop ?n (drop 12 blob)" by (simp only: drop_drop add.commute)
  then have "blob = ?nonce @ ?ct @ ?tag" by (simp only: append_take_drop_id)
  ultimately show "blob = sealed key ?nonce s" by (simp add: sealed_def)
qed

text \<open>
  The contract holds while no plaintext file waits to be imported; what the store holds is what the
  file at its path opens to.
\<close>

definition enc_ready :: "EncryptedFileStore \<Rightarrow> disk \<Rightarrow> bool" where
  "enc_ready S d \<longleftrightarrow> legacy_path S = [] \<or> legacy_path S \<noteq> path_of S \<and> files d (legacy_path S) = None"

definition enc_content :: "EncryptedFileStore \<Rightarrow> disk \<Rightarrow> string" where
  "enc_content S d = (case files d (path_of S) of None \<Rightarrow> [] | Some b \<Rightarrow> unseal (store_key S) b)"

lemma enc_read_calm: "calm_disk F \<Longrightarrow> enc_read F S d = enc_content S d"
  by (auto simp: enc_read_def enc_content_def calm_disk_def split: option.split)

lemma enc_load_disk: "enc_ready S d \<Longrightarrow> snd (enc_load F S d) = d"
  by (auto simp: enc_load_def enc_ready_def)

lemma enc_load_ready: "enc_ready S d \<Longrightarrow> calm_disk F \<Longrightarrow> fst (enc_load F S d) = Inr (enc_content S d)"
  by (auto simp: enc_load_def enc_ready_def enc_read_calm) (simp_all add: calm_disk_def)

lemma enc_save_cases:
  obtains (failed) r d' where "enc_save F S s d = (r, d')" "\<not> is_ok r" "\<And>q. q \<noteq> tmp_path (path_of S) \<Longrightarrow> files d' q = files d q"
  | (saved) d' where "enc_save F S s d = (Inr (), d')"
      "files d' (path_of S) = Some (flushed F (sealed (store_key S) (draw_nonce (f_random F)) s))"
      "files d' (tmp_path (path_of S)) = None"
      "\<And>q. q \<noteq> path_of S \<Longrightarrow> q \<noteq> tmp_path (path_of S) \<Longrightarrow> files d' q = files d q"
proof (cases "has_parent_path (path_of S) \<and> \<not> f_mkdir F")
  case True
  then show thesis by (intro failed [of "err EC_Io (f_what F)" d]) (simp_all add: enc_save_def)
next
  case False
  then show thesis
    using failed saved
    by (cases rule: write_file_cases [of F "''EncryptedFileStore''" "path_of S"
          "sealed (store_key S) (draw_nonce (f_random F)) s" d]) (auto simp: enc_save_def)
qed

lemma enc_save_calm: "calm_disk F \<Longrightarrow> fst (enc_save F S s d) = Inr ()"
  by (simp add: enc_save_def write_file_calm) (simp add: calm_disk_def)

interpretation enc: license_store "\<lambda>F. enc_load F S" "\<lambda>F. enc_save F S" "\<lambda>F. enc_clear F S"
  "\<lambda>F. f_removes F (path_of S)" "\<lambda>F. f_kept F = None" calm_disk
  "\<lambda>d. enc_ready S d \<and> legacy_path S \<noteq> tmp_path (path_of S)" "enc_content S" for S
proof unfold_locales
  fix F :: faults and s d
  assume ready: "enc_ready S d \<and> legacy_path S \<noteq> tmp_path (path_of S)" and "f_kept F = None"
  then show "(enc_ready S (snd (enc_save F S s d)) \<and> legacy_path S \<noteq> tmp_path (path_of S))
      \<and> enc_content S (snd (enc_save F S s d)) = (if is_ok (fst (enc_save F S s d)) then s else enc_content S d)"
    by (cases rule: enc_save_cases [of F S s d]) (auto simp: enc_ready_def enc_content_def unseal_sealed)
qed (auto simp: enc_load_disk enc_load_ready enc_ready_def enc_clear_def enc_content_def)

section \<open>The properties\<close>

text \<open>
  C13. A store behaves like one cell, provided closing a written file flushes it: after any sequence of
  saves, loads and clears, each with its own failures (directories that cannot be made, files that
  cannot be opened, failed writes, renames and removals), a load on a disk that works again returns the
  data of the last save that reported success, or nothing if a clear that removed the file came later.
  This holds for the plain store, and for the encrypted one while no plaintext file waits to be imported.
\<close>

theorem stores_keep_the_last_write:
  assumes "\<forall>(F, op) \<in> set ops. f_kept F = None" "calm_disk F"
  shows "fst (file_load F p (run_ops (\<lambda>F. file_load F p) (\<lambda>F. file_save F p) (\<lambda>F. file_clear F p) ops d))
        = Inr (last_write (\<lambda>F. file_load F p) (\<lambda>F. file_save F p) (\<lambda>F. file_clear F p) (\<lambda>F. f_removes F p) ops d (file_content p d))
    \<and> (enc_ready S d \<and> legacy_path S \<noteq> tmp_path (path_of S) \<longrightarrow>
        fst (enc_load F S (run_ops (\<lambda>F. enc_load F S) (\<lambda>F. enc_save F S) (\<lambda>F. enc_clear F S) ops d))
        = Inr (last_write (\<lambda>F. enc_load F S) (\<lambda>F. enc_save F S) (\<lambda>F. enc_clear F S) (\<lambda>F. f_removes F (path_of S)) ops d
                 (enc_content S d)))"
  using plain.load_last_write [OF TrueI assms] enc.load_last_write [OF _ assms] by simp

definition no_faults :: faults where
  "no_faults = \<lparr>f_exists = \<lambda>p. True, f_reads = \<lambda>p. True, f_mkdir = True, f_creates = True, f_writes = True,
     f_kept = None, f_renames = True, f_removes = \<lambda>p. True, f_what = [], f_random = \<lambda>i. of_nat i\<rparr>"

lemma calm_no_faults [simp]: "calm_disk no_faults" "f_kept no_faults = None"
  by (simp_all add: calm_disk_def no_faults_def)

definition empty_disk :: disk where "empty_disk = \<lparr>files = \<lambda>p. None\<rparr>"

lemma empty_disk_ready: "enc_ready (encrypted_store p m l) empty_disk \<longleftrightarrow> l = [] \<or> l \<noteq> p"
  by (simp add: enc_ready_def empty_disk_def encrypted_store_def)

text \<open>A save that works, one that cannot rename: the first one is what stays.\<close>

theorem stores_keep_the_last_write_witness:
  "let S = encrypted_store ''/l.bin'' ''box'' [];
       ops = [(no_faults, Op_save ''one''), (no_faults\<lparr>f_renames := False\<rparr>, Op_save ''two'')]
   in fst (enc_load no_faults S (run_ops (\<lambda>F. enc_load F S) (\<lambda>F. enc_save F S) (\<lambda>F. enc_clear F S) ops empty_disk)) = Inr ''one''"
proof -
  let ?S = "encrypted_store ''/l.bin'' ''box'' []" and ?G = "no_faults\<lparr>f_renames := False\<rparr>"
  let ?ops = "[(no_faults, Op_save ''one''), (?G, Op_save ''two'')]"
  have "\<forall>(F, op) \<in> set ?ops. f_kept F = None" by simp
  moreover have "enc_ready ?S empty_disk \<and> legacy_path ?S \<noteq> tmp_path (path_of ?S)"
    by (simp add: empty_disk_ready) (simp add: encrypted_store_def tmp_path_def)
  moreover have "is_ok (fst (enc_save no_faults ?S ''one'' empty_disk))" by (simp add: enc_save_calm)
  moreover have "\<not> is_ok (fst (enc_save ?G ?S ''two'' d))" for d
    by (simp add: enc_save_def write_file_def no_faults_def Let_def)
  ultimately show ?thesis
    using stores_keep_the_last_write [of ?ops no_faults "''/l.bin''" empty_disk ?S] by (simp add: Let_def)
qed

lemma enc_load_read_or_import:
  assumes "fst (enc_load F S d) = Inr s" "s \<noteq> []"
  shows "enc_read F S d = s
    \<or> legacy_path S \<noteq> [] \<and> files d (path_of S) = None
      \<and> (\<exists>legacy. files d (legacy_path S) = Some legacy \<and> string_of_bytes legacy = s)"
  using assms by (auto simp: enc_load_def split: if_splits option.splits prod.splits)

text \<open>
  C14. What \<open>EncryptedFileStore::load\<close> returns was sealed under this machine's key, or is the plaintext
  of an older version: if it returns anything, either the file at the store's path is exactly the nonce,
  ciphertext and tag of that text under the key, or the store was opened with a plaintext path, has no
  file of its own yet, and the text is the content of that plaintext file. So with a file of its own the
  store never reads the plaintext one, and a file from a machine with another key is read only if it
  carries the tag this machine would have made.
\<close>

theorem load_is_authentic:
  assumes "fst (enc_load F S d) = Inr s" "s \<noteq> []"
  shows "((\<exists>nonce. length nonce = 12 \<and> files d (path_of S) = Some (sealed (store_key S) nonce s))
        \<or> legacy_path S \<noteq> [] \<and> files d (path_of S) = None
          \<and> (\<exists>legacy. files d (legacy_path S) = Some legacy \<and> string_of_bytes legacy = s))
    \<and> (\<forall>nonce key t. length nonce = 12 \<and> files d (path_of S) = Some (sealed key nonce t) \<longrightarrow>
          (case aead_seal key nonce (bytes_of t) of (ct, tag) \<Rightarrow> tag = aead_tag (store_key S) nonce ct))"
proof (cases "enc_read F S d = s")
  case False
  then show ?thesis using enc_load_read_or_import [OF assms] by auto
next
  case True
  then obtain blob where blob: "files d (path_of S) = Some blob" "unseal (store_key S) blob = s"
    using assms(2) by (auto simp: enc_read_def split: if_splits option.splits)
  obtain nonce where n: "length nonce = 12" "blob = sealed (store_key S) nonce s"
    by (rule unseal_only [OF blob(2) assms(2)])
  have "case aead_seal key m (bytes_of t) of (ct, tag) \<Rightarrow> tag = aead_tag (store_key S) m ct"
    if "length m = 12" "blob = sealed key m t" for m key t
  proof -
    obtain ct tag where s: "aead_seal (store_key S) nonce (bytes_of s) = (ct, tag)" by force
    obtain ct' tag' where t: "aead_seal key m (bytes_of t) = (ct', tag')" by force
    have "length tag = 16" "length tag' = 16" using s t by (auto simp: aead_seal_eq)
    moreover have "nonce @ ct @ tag = m @ ct' @ tag'" using n that s t by (simp add: sealed_def)
    ultimately have "nonce = m" "ct = ct'" "tag = tag'" using n(1) that(1) by (auto simp: append_eq_append_conv)
    then show ?thesis using s t by (auto simp: aead_seal_eq)
  qed
  then show ?thesis using n blob(1) by auto
qed

theorem load_is_authentic_witness:
  "let S = encrypted_store ''/l.bin'' ''box'' []; d = snd (enc_save no_faults S ''lease'' empty_disk)
   in \<exists>nonce. length nonce = 12 \<and> files d ''/l.bin'' = Some (sealed (derive_store_key ''box'') nonce ''lease'')"
proof -
  define S where "S = encrypted_store ''/l.bin'' ''box'' []"
  define d where "d = snd (enc_save no_faults S ''lease'' empty_disk)"
  have parts: "path_of S = ''/l.bin''" "store_key S = derive_store_key ''box''" "legacy_path S = []"
    by (simp_all add: S_def encrypted_store_def)
  have ready: "enc_ready S d" by (simp add: enc_ready_def parts)
  have "enc_content S d = ''lease''"
    using enc.save_effect [of S empty_disk no_faults "''lease''"] enc_save_calm [of no_faults S "''lease''" empty_disk]
    by (simp add: d_def enc_ready_def parts tmp_path_def)
  then have "fst (enc_load no_faults S d) = Inr ''lease''" using enc_load_ready [OF ready] by simp
  from load_is_authentic [OF this] show ?thesis
    by (simp add: parts flip: S_def) (simp add: d_def)
qed

text \<open>A plaintext file waits to be imported.\<close>

definition to_import :: "EncryptedFileStore \<Rightarrow> disk \<Rightarrow> string \<Rightarrow> bool" where
  "to_import S d s \<longleftrightarrow> s \<noteq> [] \<and> legacy_path S \<noteq> [] \<and> legacy_path S \<noteq> path_of S \<and> legacy_path S \<noteq> tmp_path (path_of S)
     \<and> files d (path_of S) = None \<and> files d (legacy_path S) = Some (bytes_of s)"

lemma bytes_of_Nil [simp]: "bytes_of s = [] \<longleftrightarrow> s = []"
  by (simp add: bytes_of_def)

lemma to_import_load:
  assumes "to_import S d s" "f_exists F (path_of S)" "f_exists F (legacy_path S)" "f_reads F (legacy_path S)"
  shows "enc_load F S d =
     (case enc_save F S s d of (r, d) \<Rightarrow>
        (Inr s, if is_ok r \<and> f_removes F (legacy_path S) then put (legacy_path S) None d else d))"
  using assms by (simp add: enc_load_def to_import_def split: prod.split)

lemma to_import_other:
  assumes "to_import S d s" "\<not> (f_exists F (path_of S) \<and> f_exists F (legacy_path S) \<and> f_reads F (legacy_path S))"
  shows "enc_load F S d = (Inr [], d)"
  using assms by (auto simp: enc_load_def to_import_def enc_read_def)

lemma to_import_step:
  assumes "to_import S d s" "f_kept F = None"
  shows "to_import S (snd (enc_load F S d)) s
    \<or> files (snd (enc_load F S d)) (path_of S) \<noteq> None \<and> enc_content S (snd (enc_load F S d)) = s"
proof (cases "f_exists F (path_of S) \<and> f_exists F (legacy_path S) \<and> f_reads F (legacy_path S)")
  case False
  then show ?thesis using to_import_other [OF assms(1)] assms(1) by simp
next
  case True
  then have load: "enc_load F S d = (case enc_save F S s d of (r, d) \<Rightarrow>
        (Inr s, if is_ok r \<and> f_removes F (legacy_path S) then put (legacy_path S) None d else d))"
    using to_import_load [OF assms(1)] by blast
  show ?thesis
  proof (cases rule: enc_save_cases [of F S s d])
    case (failed r d')
    then show ?thesis using assms(1) by (simp add: load to_import_def)
  next
    case (saved d')
    then have "enc_content S d' = s" using assms(2) by (simp add: enc_content_def unseal_sealed)
    then show ?thesis using saved assms(1) by (auto simp: load enc_content_def to_import_def)
  qed
qed

lemma imported_step: "files d (path_of S) \<noteq> None \<Longrightarrow> snd (enc_load F S d) = d"
  by (auto simp: enc_load_def)

lemma to_import_loads:
  assumes "to_import S d s" "\<forall>F \<in> set Fs. f_kept F = None"
  shows "let e = foldl (\<lambda>d F. snd (enc_load F S d)) d Fs in
    to_import S e s \<or> files e (path_of S) \<noteq> None \<and> enc_content S e = s"
  using assms
proof (induction Fs arbitrary: d)
  case (Cons F Fs)
  have stay: "foldl (\<lambda>d F. snd (enc_load F S d)) e Fs = e" if "files e (path_of S) \<noteq> None" for e
    using that by (induction Fs) (simp_all add: imported_step)
  show ?case
    using to_import_step [OF Cons.prems(1), of F] Cons.IH [of "snd (enc_load F S d)"] Cons.prems(2) stay
    by (auto simp: Let_def)
qed simp

lemma imported_load: "files d (path_of S) \<noteq> None \<Longrightarrow> calm_disk F \<Longrightarrow> fst (enc_load F S d) = Inr (enc_content S d)"
  by (auto simp: enc_load_def enc_read_calm) (simp add: calm_disk_def)

text \<open>
  C15. The import of a plaintext store loses nothing, as long as closing a written file flushes it: after
  any number of loads, each with its own failures (files that cannot be examined, opened, written,
  renamed or removed), a load on a disk that works returns the text and leaves it sealed under the
  machine's key; the load that imports it removes the plaintext file. (Where the sealed file exists
  already because only the removal failed before, no later load removes the plaintext file.)
\<close>

theorem migration_loses_nothing:
  assumes "to_import S d s" "\<forall>F \<in> set Fs. f_kept F = None" "calm_disk G"
  shows "let e = foldl (\<lambda>d F. snd (enc_load F S d)) d Fs; (r, e') = enc_load G S e in
    r = Inr s \<and> files e' (path_of S) \<noteq> None \<and> enc_content S e' = s
    \<and> (files e (path_of S) = None \<longrightarrow> files e' (legacy_path S) = None)"
proof -
  have works: "f_exists G p" "f_reads G p" "f_removes G p" "f_kept G = None" for p
    using assms(3) by (simp_all add: calm_disk_def)
  define e where "e = foldl (\<lambda>d F. snd (enc_load F S d)) d Fs"
  have "to_import S e s \<or> files e (path_of S) \<noteq> None \<and> enc_content S e = s"
    using to_import_loads [OF assms(1,2)] by (simp add: e_def Let_def)
  then have "fst (enc_load G S e) = Inr s \<and> files (snd (enc_load G S e)) (path_of S) \<noteq> None
      \<and> enc_content S (snd (enc_load G S e)) = s
      \<and> (files e (path_of S) = None \<longrightarrow> files (snd (enc_load G S e)) (legacy_path S) = None)"
  proof
    assume wait: "to_import S e s"
    note load = to_import_load [OF wait, of G]
    have gone: "files (snd (enc_load G S e)) (legacy_path S) = None"
      using load works enc_save_calm [OF assms(3), of S s e] by (cases "enc_save G S s e") simp
    moreover have "fst (enc_load G S e) = Inr s" using load works by (simp split: prod.split)
    moreover have "\<not> to_import S (snd (enc_load G S e)) s" using gone by (simp add: to_import_def)
    ultimately show ?thesis using to_import_step [OF wait works(4)] by blast
  next
    assume there: "files e (path_of S) \<noteq> None \<and> enc_content S e = s"
    then show ?thesis using imported_load [OF _ assms(3)] imported_step by auto
  qed
  then show ?thesis by (simp add: e_def Let_def split_beta)
qed

definition old_install :: "EncryptedFileStore \<times> disk" where
  "old_install = (encrypted_store ''/l.bin'' ''box'' ''/l.lease'', put ''/l.lease'' (Some (bytes_of ''lease'')) empty_disk)"

lemma to_import_old_install: "case old_install of (S, d) \<Rightarrow> to_import S d ''lease''"
  by (simp add: old_install_def to_import_def encrypted_store_def empty_disk_def tmp_path_def)

theorem migration_loses_nothing_witness:
  "case old_install of (S, d) \<Rightarrow>
     case enc_load no_faults S (snd (enc_load (no_faults\<lparr>f_writes := False\<rparr>) S d)) of (r, e) \<Rightarrow>
       r = Inr ''lease'' \<and> enc_content S e = ''lease''"
proof -
  obtain S d where S: "old_install = (S, d)" by force
  have "to_import S d ''lease''" using to_import_old_install unfolding S by (simp only: prod.case)
  then have "case enc_load no_faults S (snd (enc_load (no_faults\<lparr>f_writes := False\<rparr>) S d)) of (r, e) \<Rightarrow>
      r = Inr ''lease'' \<and> enc_content S e = ''lease''"
    using migration_loses_nothing [of S d "''lease''" "[no_faults\<lparr>f_writes := False\<rparr>]" no_faults]
    by (simp add: Let_def split_beta)
  then show ?thesis unfolding S by (simp only: prod.case)
qed



text \<open>
  Clearing the encrypted store does not touch the plaintext file: where one is still there, because an
  earlier import could not write or could not remove it, \<open>clear\<close> reports success and the next load
  brings the old state back.
\<close>

theorem clear_leaves_the_legacy_file:
  assumes "files d (legacy_path S) = Some (bytes_of s)" "s \<noteq> []" "legacy_path S \<noteq> []" "legacy_path S \<noteq> path_of S"
    "legacy_path S \<noteq> tmp_path (path_of S)" "calm_disk F" "calm_disk G"
  shows "fst (enc_clear F S d) = Inr () \<and> fst (enc_load G S (snd (enc_clear F S d))) = Inr s"
proof -
  have "to_import S (snd (enc_clear F S d)) s"
    using assms by (auto simp: to_import_def enc_clear_def calm_disk_def)
  moreover have "f_exists G p" "f_reads G p" for p using assms(7) by (simp_all add: calm_disk_def)
  ultimately show ?thesis using to_import_load [of S _ s G] by (simp add: enc_clear_def split: prod.split)
qed

theorem clear_leaves_the_legacy_file_witness:
  "case old_install of (S, d) \<Rightarrow> fst (enc_load no_faults S (snd (enc_clear no_faults S d))) = Inr ''lease''"
proof -
  obtain S d where S: "old_install = (S, d)" by force
  have "to_import S d ''lease''" using to_import_old_install unfolding S by (simp only: prod.case)
  then have "fst (enc_load no_faults S (snd (enc_clear no_faults S d))) = Inr ''lease''"
    using clear_leaves_the_legacy_file [of d S "''lease''" no_faults no_faults] by (simp add: to_import_def)
  then show ?thesis unfolding S by (simp only: prod.case)
qed

text \<open>Two products can share a store file: the separator of the name may occur in its parts.\<close>

theorem default_paths_collide:
  "default_store_path home tmpdir (g\<lparr>tenantId := ''a-b'', productId := ''c''\<rparr>)
     = default_store_path home tmpdir (g\<lparr>tenantId := ''a'', productId := ''b-c''\<rparr>)"
  by (simp add: default_store_path_def)

end
