(* ===== verification/Client_Disk.thy ===== *)
theory Client_Disk
  imports Client_Ops Store_Laws
begin

text \<open>
  The client over a store that works: after every call the stored text says what the client has in
  memory. The relation is an interpretation of \<open>client_ops\<close>, whose steps pair each change of the cache
  with the write that follows it; \<open>EncryptedFileStore\<close> on a disk provides such a store.
\<close>

section \<open>A store that works\<close>

definition durable :: "'w env \<Rightarrow> ('w \<Rightarrow> bool) \<Rightarrow> ('w \<Rightarrow> string) \<Rightarrow> bool" where
  "durable E I text_of \<longleftrightarrow> (\<forall>w. I w \<longrightarrow>
     fst (e_load E w) = Inr (text_of w)
     \<and> (\<forall>w' \<in> {snd (e_load E w)} \<union> range (\<lambda>r. snd (e_request E r w)) \<union> range (\<lambda>n. e_sleep E n w)
          \<union> range (\<lambda>n. snd (e_rand_bytes E n w)) \<union> {snd (e_rand64 E w)}. I w' \<and> text_of w' = text_of w)
     \<and> (\<forall>s. is_ok (fst (e_save E s w)) \<and> I (snd (e_save E s w)) \<and> text_of (snd (e_save E s w)) = s)
     \<and> is_ok (fst (e_clear E w)) \<and> I (snd (e_clear E w)) \<and> text_of (snd (e_clear E w)) = [])"

definition stored_cache :: "string \<Rightarrow> cache" where
  "stored_cache s = (if s = [] then empty_cache else case json_parse s of Inl _ \<Rightarrow> empty_cache | Inr j \<Rightarrow> decode_blob j)"

text \<open>Nothing of a license or a trial is in the cache.\<close>

definition bare :: "cache \<Rightarrow> bool" where
  "bare k \<longleftrightarrow> drop_paid k = k \<and> cached_trial_start k = None"

definition mirrored :: "('w \<Rightarrow> bool) \<Rightarrow> ('w \<Rightarrow> string) \<Rightarrow> 'w client \<Rightarrow> bool" where
  "mirrored I text_of c \<longleftrightarrow> I (world c) \<and>
     (canonical_cache (stored_cache (text_of (world c))) = canonical_cache (cache c)
      \<or> text_of (world c) = [] \<and> bare (cache c))"

definition mirrors :: "'w env \<Rightarrow> ('w \<Rightarrow> bool) \<Rightarrow> ('w \<Rightarrow> string) \<Rightarrow> 'w client \<Rightarrow> 'w client \<Rightarrow> bool" where
  "mirrors E I text_of c c' \<longleftrightarrow>
     (durable E I text_of \<longrightarrow> clock_ok E \<longrightarrow> client_ok c \<and> mirrored I text_of c \<longrightarrow> client_ok c' \<and> mirrored I text_of c')"

lemma stored_build_blob:
  assumes "cache_ok k" shows "stored_cache (build_blob k) = canonical_cache k"
  using parse_build_blob [OF assms] decode_blob_value [OF assms] build_blob_nonempty [of k]
  by (simp add: stored_cache_def)

lemma mirrors_written:
  assumes "stays_ok E c c'" "world c' = snd (e_save E (build_blob (cache c')) (world c))"
  shows "mirrors E I text_of c c'"
  using assms stored_build_blob [of "cache c'"]
  by (auto simp: mirrors_def mirrored_def durable_def stays_ok_def client_ok_def)

lemma mirrors_same:
  assumes "stays_ok E c c'" "cache c' = cache c" "world c' = world c"
  shows "mirrors E I text_of c c'"
  using assms by (auto simp: mirrors_def mirrored_def stays_ok_def)

lemma mirrors_world:
  assumes "stays_ok E c (c\<lparr>world := w\<rparr>)" "durable E I text_of \<Longrightarrow> I (world c) \<Longrightarrow> I w \<and> text_of w = text_of (world c)"
  shows "mirrors E I text_of c (c\<lparr>world := w\<rparr>)"
  using assms by (auto simp: mirrors_def mirrored_def stays_ok_def)

lemma durable_world:
  assumes "durable E I text_of" "I w"
  shows "I (snd (e_request E r w)) \<and> text_of (snd (e_request E r w)) = text_of w"
    "I (e_sleep E n w) \<and> text_of (e_sleep E n w) = text_of w"
    "I (snd (e_rand_bytes E n w)) \<and> text_of (snd (e_rand_bytes E n w)) = text_of w"
    "I (snd (e_rand64 E w)) \<and> text_of (snd (e_rand64 E w)) = text_of w"
    "is_ok (fst (e_save E s w))" "I (snd (e_clear E w))" "text_of (snd (e_clear E w)) = []"
    "is_ok (fst (e_clear E w))"
  using assms by (auto simp: durable_def)

interpretation mirrors: client_ops E "mirrors E I text_of" for E I text_of
proof unfold_locales
  fix c :: "'a client"
  show "mirrors E I text_of c c" by (simp add: mirrors_def)
next
  fix a b c :: "'a client"
  show "mirrors E I text_of a b \<Longrightarrow> mirrors E I text_of b c \<Longrightarrow> mirrors E I text_of a c" by (simp add: mirrors_def)
next
  fix c :: "'a client" and k i
  assume none: "cached_free_tier_instance_id (cache c) = None" and k: "k = (cache c)\<lparr>cached_free_tier_instance_id := Some i\<rparr>"
  have "mirrors E I text_of c (stored E k c)"
    unfolding k by (rule mirrors_written [OF stays_ok.step_stored [OF stays_ok.step_free_tier [OF none]]]) simp
  then show "mirrors E I text_of c (if is_ok (fst (e_save E (build_blob k) (world c))) then stored E k c
      else c\<lparr>world := snd (e_save E (build_blob k) (world c))\<rparr>)"
  proof (cases "is_ok (fst (e_save E (build_blob k) (world c)))")
    case False
    then show ?thesis
      using durable_world(5) [of E I text_of "world c" "build_blob k"] by (auto simp: mirrors_def mirrored_def)
  qed simp
next
  fix c :: "'a client"
  assume none: "cached_trial_start (cache c) = None"
  let ?c = "c\<lparr>cache := drop_paid (cache c), last_validated_online_atomic := 0, world := snd (e_clear E (world c))\<rparr>"
  have "stays_ok E c ?c" by (rule stays_ok.op_wipe [OF none])
  moreover have "bare (drop_paid (cache c))" using none by (simp add: bare_def drop_paid_def)
  ultimately show "mirrors E I text_of c ?c"
    using durable_world(6,7) [of E I text_of "world c"] by (auto simp: mirrors_def mirrored_def stays_ok_def)
next
  fix c :: "'a client" and req n t s sub event f
  show "mirrors E I text_of c (c\<lparr>world := snd (e_request E req (world c))\<rparr>)"
    "mirrors E I text_of c (c\<lparr>world := e_sleep E n (world c)\<rparr>)"
    "mirrors E I text_of c (c\<lparr>world := snd (e_rand_bytes E n (world c))\<rparr>)"
    "mirrors E I text_of c (c\<lparr>world := snd (e_rand64 E (world c))\<rparr>)"
    by (rule mirrors_world [OF stays_ok.step_world]; rule durable_world; assumption)+
  show "mirrors E I text_of c (c\<lparr>last_active_revalidate_at := t\<rparr>)"
    by (rule mirrors_same [OF stays_ok.op_active]) simp_all
  show "mirrors E I text_of c (snd (run_state (notify E) c))"
    by (rule mirrors_same [OF stays_ok.op_notify]) simp_all
  show "mirrors E I text_of c (snd (run_state (set_client_state E s) c))"
    by (rule mirrors_same [OF stays_ok.op_set_state]) simp_all
  show "mirrors E I text_of c (snd (run_state subscribe c))" "mirrors E I text_of c (snd (run_state (onLifecycle f) c))"
    "mirrors E I text_of c (snd (run_state (on event) c))" "mirrors E I text_of c (snd (run_state (unsubscribe sub) c))"
    "mirrors E I text_of c (snd (run_state stop_heartbeat c))"
    by (rule mirrors_same [OF stays_ok.op_listeners(1)] mirrors_same [OF stays_ok.op_listeners(2)]
        mirrors_same [OF stays_ok.op_listeners(3)] mirrors_same [OF stays_ok.op_listeners(4)]
        mirrors_same [OF stays_ok.op_listeners(5)]; simp)+
qed ((rule mirrors_written, rule stays_ok.op_settings stays_ok.op_hardware stays_ok.op_keyless stays_ok.op_trial
    stays_ok.op_persist stays_ok.op_stamp stays_ok.op_clear_lease stays_ok.op_drop_paid); simp)+

section \<open>Starting again\<close>

lemma new_client_mirrored:
  assumes "durable E I text_of" "I w"
  shows "mirrored I text_of (new_client E g w) \<and> cache (new_client E g w) = stored_cache (text_of w)"
proof -
  obtain w' where load: "e_load E w = (Inr (text_of w), w')" "I w'" "text_of w' = text_of w"
    using assms by (cases "e_load E w") (auto simp: durable_def)
  show ?thesis
  proof (cases "text_of w \<noteq> [] \<and> (\<exists>j. json_parse (text_of w) = Inr j)")
    case True
    then obtain j where j: "text_of w \<noteq> []" "json_parse (text_of w) = Inr j" by blast
    then show ?thesis
      using new_client_decodes [OF load(1) j, of g] load(2,3) by (simp add: mirrored_def stored_cache_def)
  next
    case False
    then have "new_client E g w = blank_client g w'" by (intro new_client_unreadable [OF load(1)]) auto
    then show ?thesis
      using False load(2,3)
      by (auto simp: mirrored_def stored_cache_def blank_client_def split: sum.splits)
  qed
qed

section \<open>The encrypted store as the client's\<close>

text \<open>The environment of \<open>E\<close> with the store on a disk beside it.\<close>

definition with_disk :: "('v \<Rightarrow> faults) \<Rightarrow> EncryptedFileStore \<Rightarrow> 'v env \<Rightarrow> ('v \<times> disk) env" where
  "with_disk F S E =
     \<lparr>e_now = (\<lambda>(v, d). e_now E v),
      e_request = (\<lambda>r (v, d). case e_request E r v of (a, v') \<Rightarrow> (a, (v', d))),
      e_load = (\<lambda>(v, d). case enc_load (F v) S d of (a, d') \<Rightarrow> (a, (v, d'))),
      e_save = (\<lambda>s (v, d). case enc_save (F v) S s d of (a, d') \<Rightarrow> (a, (v, d'))),
      e_clear = (\<lambda>(v, d). case enc_clear (F v) S d of (a, d') \<Rightarrow> (a, (v, d'))),
      e_sleep = (\<lambda>n (v, d). (e_sleep E n v, d)),
      e_hwid = (\<lambda>(v, d). e_hwid E v),
      e_rand_bytes = (\<lambda>n (v, d). case e_rand_bytes E n v of (a, v') \<Rightarrow> (a, (v', d))),
      e_rand64 = (\<lambda>(v, d). case e_rand64 E v of (a, v') \<Rightarrow> (a, (v', d))),
      e_spawn = (\<lambda>(v, d). e_spawn E v),
      e_sig = e_sig E,
      e_machine_name = e_machine_name E,
      e_platform = e_platform E,
      e_cores = e_cores E,
      e_memory = e_memory E,
      e_os_raw = e_os_raw E,
      e_arch = e_arch E\<rparr>"

definition usable :: "EncryptedFileStore \<Rightarrow> disk \<Rightarrow> bool" where
  "usable S d \<longleftrightarrow> enc_ready S d \<and> legacy_path S \<noteq> tmp_path (path_of S)"

lemma durable_with_disk:
  assumes "\<And>v. calm_disk (F v)"
  shows "durable (with_disk F S E) (\<lambda>(v, d). usable S d) (\<lambda>(v, d). enc_content S d)"
proof -
  have calm: "f_kept (F v) = None" "f_removes (F v) p" for v p using assms by (simp_all add: calm_disk_def)
  show ?thesis
    unfolding durable_def
    using enc.calm_load [OF _ assms] enc.load_frame [OF _ calm(1)] enc.save_effect [OF _ calm(1)] enc.clear_effect [OF _ calm(1)]
      enc_save_calm [OF assms]
    by (auto simp: with_disk_def usable_def split_beta calm enc_clear_def)
qed

text \<open>One step of an application over the store: a call, or anything that leaves the disk alone.\<close>

inductive disk_step :: "('v \<times> disk) env \<Rightarrow> ('v \<times> disk) client \<Rightarrow> ('v \<times> disk) client \<Rightarrow> bool"
  for E :: "('v \<times> disk) env" where
  disk_call: "api_call E c c' \<Longrightarrow> disk_step E c c'"
| disk_idle: "disk_step E c (c\<lparr>world := (v, snd (world c))\<rparr>)"

lemma disk_history_mirrored:
  assumes "\<And>v. calm_disk (F v)" "clock_ok E" "usable S d"
    "(disk_step (with_disk F S E))\<^sup>*\<^sup>* (new_client (with_disk F S E) g (v, d)) c"
  shows "client_ok c \<and> mirrored (\<lambda>(v, d). usable S d) (\<lambda>(v, d). enc_content S d) c"
proof -
  let ?I = "\<lambda>(v :: 'a, d). usable S d" and ?t = "\<lambda>(v :: 'a, d). enc_content S d"
  note durable = durable_with_disk [where F = F and S = S and E = E, OF assms(1)]
  have one: "mirrors (with_disk F S E) ?I ?t x y" if "disk_step (with_disk F S E) x y" for x y
    using that
    by (cases rule: disk_step.cases) (auto intro: mirrors.api_call_R mirrors_world [OF stays_ok.step_world] split: prod.splits)
  have "mirrors (with_disk F S E) ?I ?t (new_client (with_disk F S E) g (v, d)) c"
    using assms(4) by (induction rule: rtranclp_induct) (blast intro: one mirrors.evolves_refl mirrors.evolves_trans)+
  moreover have "clock_ok (with_disk F S E)" using assms(2) by (auto simp: clock_ok_def with_disk_def)
  moreover have start: "mirrored ?I ?t (new_client (with_disk F S E) g (v, d))"
    using new_client_mirrored [OF durable, of "(v, d)" g] assms(3) by simp
  ultimately show ?thesis using durable new_client_ok [of "with_disk F S E" g "(v, d)"] by (simp add: mirrors_def)
qed

text \<open>
  C3. The process may end after any call: over \<open>EncryptedFileStore\<close> on a disk that works, a client
  started again finds the cache the last one had in memory (an empty string or a zero time reads back
  as absent). The one exception is a cache with neither license nor trial after \<open>deactivate\<close>
  removed the file: then the new client starts empty.
\<close>

theorem restart_anywhere:
  assumes "\<And>v. calm_disk (F v)" "clock_ok E" "usable S d"
    "(disk_step (with_disk F S E))\<^sup>*\<^sup>* (new_client (with_disk F S E) g (v, d)) c"
  shows "let c' = new_client (with_disk F S E) g (world c) in
    canonical_cache (cache c') = canonical_cache (cache c) \<or> bare (cache c) \<and> cache c' = empty_cache"
  using disk_history_mirrored [OF assms]
    new_client_mirrored [OF durable_with_disk [where F = F and S = S and E = E, OF assms(1)], of "world c" g]
  by (auto simp: mirrored_def stored_cache_def Let_def)

lemma usable_plain [simp]: "usable (encrypted_store p m []) d"
  by (simp add: usable_def enc_ready_def) (simp add: encrypted_store_def tmp_path_def)

text \<open>A first start of the scripted client on an empty disk.\<close>

definition app_env :: "(tworld \<times> disk) env" where
  "app_env = with_disk (\<lambda>v. no_faults) (encrypted_store ''/l.bin'' ''box'' []) scripted64"

definition first_start :: "(tworld \<times> disk) client" where
  "first_start = new_client app_env test_config (disk_world 1000 [], empty_disk)"

lemma first_start_blank: "first_start = blank_client test_config (disk_world 1000 [], empty_disk)"
  unfolding first_start_def
  by (rule new_client_unreadable [of _ _ "Inr []"])
    (simp_all add: app_env_def with_disk_def enc_load_def enc_read_def no_faults_def empty_disk_def encrypted_store_def)

lemma first_start_facts:
  "cached_trial_start (cache first_start) = None" "cached_free_tier_instance_id (cache first_start) = None"
  "e_now app_env (world first_start) = 1000" "is_ok (fst (e_save app_env s w))"
proof -
  show "cached_trial_start (cache first_start) = None" "cached_free_tier_instance_id (cache first_start) = None"
    by (simp_all add: first_start_blank blank_client_def empty_cache_def)
  show "e_now app_env (world first_start) = 1000"
    by (simp add: first_start_blank blank_client_def app_env_def with_disk_def scripted64_def disk_world_def i64_def)
  show "is_ok (fst (e_save app_env s w))"
    by (cases w) (simp add: app_env_def with_disk_def enc_save_calm split_beta)
qed

lemma app_calm: "calm_disk ((\<lambda>v :: tworld. no_faults) v)"
  by simp

theorem restart_anywhere_witness:
  "let c = snd (run_state (startTrial app_env) first_start)
   in cached_trial_start (cache (new_client app_env test_config (world c))) = Some 1000"
proof -
  obtain r c where run: "run_state (startTrial app_env) first_start = (r, c)" by force
  have "disk_step app_env first_start c" by (rule disk_call [OF st_trial [OF run]])
  then have "(disk_step app_env)\<^sup>*\<^sup>* first_start c" by (rule r_into_rtranclp)
  note again = restart_anywhere [OF app_calm clock_ok_scripted64 usable_plain
      this [unfolded app_env_def first_start_def], folded app_env_def]
  let ?rest = "do { _ \<leftarrow> freeTierInstanceId app_env; resolve_locally app_env }"
  have "run_state ?rest (stored app_env ((cache first_start)\<lparr>cached_trial_start := Some 1000\<rparr>) first_start) = (r, c)"
    using run first_start_facts(1,3) by (simp add: startTrial_def run_save_cache stored_def)
  then have "kept (stored app_env ((cache first_start)\<lparr>cached_trial_start := Some 1000\<rparr>) first_start) c"
    by (rule kept.keeps_run [rotated]) (intro kept.keeps_bind kept.keeps_free_tier kept.keeps_resolve_locally)
  then have "cached_trial_start (cache c) = Some 1000" by (simp add: kept_def)
  then have "cached_trial_start (cache (new_client app_env test_config (world c))) = Some 1000"
    using again
    by (auto simp: Let_def canonical_cache_def bare_def nonzero_def bind_eq_Some_conv
        dest: arg_cong [of _ _ cached_trial_start] split: if_splits)
  then show ?thesis by (simp add: Let_def run)
qed

text \<open>
  What \<open>deactivate\<close> forgets: with no trial started it removes the whole file, the anonymous install
  identifier with it, although the client keeps the identifier in memory and goes on reporting under it;
  the next client starts with an empty cache and will mint another.
\<close>

theorem deactivate_forgets_the_install:
  assumes "\<And>v. calm_disk (F v)" "clock_ok E" "usable S d"
    "(disk_step (with_disk F S E))\<^sup>*\<^sup>* (new_client (with_disk F S E) g (v, d)) c"
    "cached_trial_start (cache c) = None" "cached_free_tier_instance_id (cache c) = Some i"
  shows "let c' = snd (run_state (deactivate (with_disk F S E)) c) in
    cached_free_tier_instance_id (cache c') = Some i \<and> cache (new_client (with_disk F S E) g (world c')) = empty_cache"
proof -
  let ?E = "with_disk F S E" and ?I = "\<lambda>(v :: 'a, d). usable S d" and ?t = "\<lambda>(v :: 'a, d). enc_content S d"
  note durable = durable_with_disk [where F = F and S = S and E = E, OF assms(1)]
  obtain x c1 where rel: "run_state (release_seat ?E) c = (x, c1)" by force
  have "clock_ok ?E" using assms(2) by (auto simp: clock_ok_def with_disk_def)
  moreover have "mirrors ?E ?I ?t c c1" by (rule mirrors.keeps_run [OF mirrors.keeps_release rel])
  ultimately have "mirrored ?I ?t c1"
    using disk_history_mirrored [OF assms(1-4)] durable unfolding mirrors_def by metis
  then have ready: "?I (world c1)" by (simp only: mirrored_def)
  have clear: "?I (snd (e_clear ?E (world c1)))" "?t (snd (e_clear ?E (world c1))) = []" "is_ok (fst (e_clear ?E (world c1)))"
    by (rule durable_world(6) [OF durable ready] durable_world(7) [OF durable ready] durable_world(8) [OF durable ready])+
  have frame: "cached_trial_start (cache c1) = None" "cached_free_tier_instance_id (cache c1) = Some i"
    using release_frame [OF rel] assms(5,6) by simp_all
  have "world (snd (run_state (deactivate ?E) c)) = snd (e_clear ?E (world c1))"
    "cached_free_tier_instance_id (cache (snd (run_state (deactivate ?E) c))) = Some i"
    using frame clear(3) by (simp_all add: deactivate_def rel drop_paid_def split_beta)
  then show ?thesis
    using new_client_mirrored [OF durable clear(1), of g] clear(2) by (simp add: Let_def stored_cache_def)
qed

theorem deactivate_forgets_the_install_witness:
  "let c = snd (run_state (freeTierInstanceId app_env) first_start); c' = snd (run_state (deactivate app_env) c)
   in cached_free_tier_instance_id (cache c') \<noteq> None \<and> cache (new_client app_env test_config (world c')) = empty_cache"
proof -
  obtain i c where run: "run_state (freeTierInstanceId app_env) first_start = (i, c)" by force
  have "disk_step app_env first_start c" by (rule disk_call [OF st_free_tier [OF run]])
  then have "(disk_step app_env)\<^sup>*\<^sup>* first_start c" by (rule r_into_rtranclp)
  note forgets = deactivate_forgets_the_install [OF app_calm clock_ok_scripted64 usable_plain
      this [unfolded app_env_def first_start_def], folded app_env_def]
  have "cached_free_tier_instance_id (cache c) = Some i" "cached_trial_start (cache c) = None"
    using run first_start_facts by (auto simp: freeTierInstanceId_def run_save_cache)
  with forgets [of i] show ?thesis by (simp add: Let_def run)
qed

end
