(* ===== verification/Sha512.thy ===== *)
theory Sha512
  imports Sha256
begin

text \<open>
  SHA-512 as \<open>include/keylight/ed25519.hpp\<close> computes it for the signature check: the compression
  function, the streaming context whose \<open>update\<close> copies as many bytes as the 128-byte buffer still
  takes, and the padding of \<open>kl_sha512_final\<close>. The contract is the one-shot definition of FIPS 180-4,
  \<open>sha512_spec\<close>; the code only ever counts bits in one 64-bit word, so the two agree for messages of
  less than \<open>2 ^ 61\<close> bytes, and for longer ones the code writes the count modulo \<open>2 ^ 64\<close>.
\<close>

section \<open>The compression function\<close>

text \<open>The round constants and the initial state are those of the source, in decimal.\<close>

definition kSha512K :: "w64 list" where
  "kSha512K = [
   4794697086780616226, 8158064640168781261, 13096744586834688815, 16840607885511220156,
   4131703408338449720, 6480981068601479193, 10538285296894168987, 12329834152419229976,
   15566598209576043074, 1334009975649890238, 2608012711638119052, 6128411473006802146,
   8268148722764581231, 9286055187155687089, 11230858885718282805, 13951009754708518548,
   16472876342353939154, 17275323862435702243, 1135362057144423861, 2597628984639134821,
   3308224258029322869, 5365058923640841347, 6679025012923562964, 8573033837759648693,
   10970295158949994411, 12119686244451234320, 12683024718118986047, 13788192230050041572,
   14330467153632333762, 15395433587784984357, 489312712824947311, 1452737877330783856,
   2861767655752347644, 3322285676063803686, 5560940570517711597, 5996557281743188959,
   7280758554555802590, 8532644243296465576, 9350256976987008742, 10552545826968843579,
   11727347734174303076, 12113106623233404929, 14000437183269869457, 14369950271660146224,
   15101387698204529176, 15463397548674623760, 17586052441742319658, 1182934255886127544,
   1847814050463011016, 2177327727835720531, 2830643537854262169, 3796741975233480872,
   4115178125766777443, 5681478168544905931, 6601373596472566643, 7507060721942968483,
   8399075790359081724, 8693463985226723168, 9568029438360202098, 10144078919501101548,
   10430055236837252648, 11840083180663258601, 13761210420658862357, 14299343276471374635,
   14566680578165727644, 15097957966210449927, 16922976911328602910, 17689382322260857208,
   500013540394364858, 748580250866718886, 1242879168328830382, 1977374033974150939,
   2944078676154940804, 3659926193048069267, 4368137639120453308, 4836135668995329356,
   5532061633213252278, 6448918945643986474, 6902733635092675308, 7801388544844847127]"

definition kl_rotr64 :: "w64 \<Rightarrow> nat \<Rightarrow> w64" where
  "kl_rotr64 x n = drop_bit n x OR push_bit (64 - n) x"

definition load64_be :: "byte list \<Rightarrow> nat \<Rightarrow> w64" where
  "load64_be blk i = foldl (\<lambda>w j. push_bit 8 w OR ucast (blk ! (8 * i + j))) 0 [0..<8]"

definition sha512_expand :: "w64 list \<Rightarrow> nat \<Rightarrow> w64 list" where
  "sha512_expand w i =
     (let s0 = kl_rotr64 (w ! (i - 15)) 1 XOR kl_rotr64 (w ! (i - 15)) 8 XOR drop_bit 7 (w ! (i - 15));
          s1 = kl_rotr64 (w ! (i - 2)) 19 XOR kl_rotr64 (w ! (i - 2)) 61 XOR drop_bit 6 (w ! (i - 2))
      in w @ [w ! (i - 16) + s0 + w ! (i - 7) + s1])"

type_synonym regs64 = "w64 \<times> w64 \<times> w64 \<times> w64 \<times> w64 \<times> w64 \<times> w64 \<times> w64"

definition sha512_round :: "w64 list \<Rightarrow> regs64 \<Rightarrow> nat \<Rightarrow> regs64" where
  "sha512_round w r i =
     (case r of (a, b, c, d, e, f, g, hh) \<Rightarrow>
        let S1 = kl_rotr64 e 14 XOR kl_rotr64 e 18 XOR kl_rotr64 e 41;
            ch = (e AND f) XOR (NOT e AND g);
            t1 = hh + S1 + ch + kSha512K ! i + w ! i;
            S0 = kl_rotr64 a 28 XOR kl_rotr64 a 34 XOR kl_rotr64 a 39;
            maj = (a AND b) XOR (a AND c) XOR (b AND c);
            t2 = S0 + maj
        in (t1 + t2, a, b, c, d + t1, e, f, g))"

definition kl_sha512_block :: "w64 list \<Rightarrow> byte list \<Rightarrow> w64 list" where
  "kl_sha512_block h blk =
     (let w = foldl sha512_expand (map (load64_be blk) [0..<16]) [16..<80] in
      case foldl (sha512_round w) (h ! 0, h ! 1, h ! 2, h ! 3, h ! 4, h ! 5, h ! 6, h ! 7) [0..<80] of
        (a, b, c, d, e, f, g, hh) \<Rightarrow>
          [h ! 0 + a, h ! 1 + b, h ! 2 + c, h ! 3 + d, h ! 4 + e, h ! 5 + f, h ! 6 + g, h ! 7 + hh])"

section \<open>The streaming context\<close>

record sha512_ctx =
  ctx_h :: "w64 list"
  ctx_buf :: "byte list"
  ctx_total :: w64
  ctx_used :: nat

definition sha512_iv :: "w64 list" where
  "sha512_iv = [
   7640891576956012808, 13503953896175478587, 4354685564936845355, 11912009170470909681,
   5840696475078001361, 11170449401992604703, 2270897969802886507, 6620516959819538809]"

text \<open>\<open>kl_sha512_init\<close> leaves the buffer as the stack had it.\<close>

definition kl_sha512_init :: "byte list \<Rightarrow> sha512_ctx" where
  "kl_sha512_init junk = \<lparr>ctx_h = sha512_iv, ctx_buf = junk, ctx_total = 0, ctx_used = 0\<rparr>"

text \<open>
  One turn of the loop of \<open>update\<close>: copy what fits, compress when the buffer is full. With a full
  buffer (\<open>used = 128\<close>, which no operation leaves behind: \<open>sha512_holds\<close> below has \<open>used < 128\<close>)
  the loop would make no progress; the definition stops there.
\<close>

definition sha512_take :: "sha512_ctx \<Rightarrow> byte list \<Rightarrow> sha512_ctx" where
  "sha512_take ctx data =
     (let c1 = ctx\<lparr>ctx_buf := take (ctx_used ctx) (ctx_buf ctx) @ data @
                     drop (ctx_used ctx + length data) (ctx_buf ctx),
                   ctx_used := ctx_used ctx + length data\<rparr> in
      if ctx_used c1 = 128
      then c1\<lparr>ctx_h := kl_sha512_block (ctx_h c1) (ctx_buf c1), ctx_total := ctx_total c1 + 128, ctx_used := 0\<rparr>
      else c1)"

function kl_sha512_update :: "sha512_ctx \<Rightarrow> byte list \<Rightarrow> sha512_ctx" where
  "kl_sha512_update ctx data =
     (if data = [] then ctx
      else
        let space = 128 - ctx_used ctx;
            n = (if length data < space then length data else space)
        in if n = 0 then ctx else kl_sha512_update (sha512_take ctx (take n data)) (drop n data))"
  by pat_completeness auto
termination
  by (relation "measure (\<lambda>(ctx, data). length data)") (auto simp: min_def)

declare kl_sha512_update.simps [simp del]

definition kl_sha512_final :: "sha512_ctx \<Rightarrow> byte list" where
  "kl_sha512_final ctx =
     (let bits = (ctx_total ctx + of_nat (ctx_used ctx)) * 8;
          b1 = (ctx_buf ctx)[ctx_used ctx := 0x80];
          u1 = ctx_used ctx + 1;
          (h2, b2, u2) =
            (if 112 < u1
             then (kl_sha512_block (ctx_h ctx) (zero_fill u1 128 b1), zero_fill u1 128 b1, 0)
             else (ctx_h ctx, b1, u1));
          b3 = zero_fill u2 112 b2;
          b4 = take 112 b3 @ replicate 8 0 @ be64 bits
      in concat (map be64 (kl_sha512_block h2 b4)))"

section \<open>The one-shot definition\<close>

definition be128 :: "nat \<Rightarrow> byte list" where
  "be128 n = be64 (of_nat (n div 2 ^ 64)) @ be64 (of_nat n)"

definition sha512_pad :: "byte list \<Rightarrow> byte list" where
  "sha512_pad m = m @ 0x80 # replicate ((239 - length m mod 128) mod 128) 0 @ be128 (8 * length m)"

definition sha512_spec :: "byte list \<Rightarrow> byte list" where
  "sha512_spec m = concat (map be64 (absorb kl_sha512_block 128 sha512_iv (sha512_pad m)))"

interpretation sha512: padded_hash kl_sha512_block 128 112
  by unfold_locales simp_all

lemma be64_zero: "be64 0 = replicate 8 0"
  by (simp add: be64_def map_replicate_const)

lemma sha512_pad_eq:
  assumes "length m < 2 ^ 61"
  shows "sha512_pad m = padded 0x80 0 128 112 m (replicate 8 0 @ be64 (of_nat (8 * length m)))"
proof -
  have "(8 * length m) div 2 ^ 64 = 0" using assms by (intro div_less) simp
  then have "be128 (8 * length m) = replicate 8 0 @ be64 (of_nat (8 * length m))"
    by (simp add: be128_def be64_zero)
  then show ?thesis by (simp add: sha512_pad_def padded_def)
qed

section \<open>The code computes it\<close>

definition sha512_holds :: "sha512_ctx \<Rightarrow> byte list \<Rightarrow> bool" where
  "sha512_holds ctx m \<longleftrightarrow>
     length (ctx_buf ctx) = 128 \<and> ctx_used ctx = length m mod 128 \<and>
     take (ctx_used ctx) (ctx_buf ctx) = waiting 128 m \<and>
     ctx_total ctx = of_nat (128 * (length m div 128)) \<and>
     ctx_h ctx = absorb kl_sha512_block 128 sha512_iv m"

lemma sha512_holds_init: "length junk = 128 \<Longrightarrow> sha512_holds (kl_sha512_init junk) []"
  by (simp add: sha512_holds_def kl_sha512_init_def waiting_def absorb_def sha512.chunks_short)

lemma sha512_holds_take:
  assumes "sha512_holds ctx m" and fits: "ctx_used ctx + length d \<le> 128"
  shows "sha512_holds (sha512_take ctx d) (m @ d)"
proof -
  have u: "ctx_used ctx = length m mod 128" and len: "length (ctx_buf ctx) = 128"
    and buf: "take (ctx_used ctx) (ctx_buf ctx) = waiting 128 m"
    using assms(1) by (auto simp: sha512_holds_def)
  have m: "length m = 128 * (length m div 128) + ctx_used ctx" by (simp add: u)
  show ?thesis
  proof (cases "ctx_used ctx + length d = 128")
    case True
    then have md: "length m + length d = 128 * (length m div 128) + 128" using m by simp
    have fill: "length (waiting 128 m) + length d = 128" using True u by simp
    have "(length m + length d) div 128 = length m div 128 + 1" "(length m + length d) mod 128 = 0"
      unfolding md by simp_all
    then show ?thesis
      using assms(1) True u buf len sha512.absorb_fill [OF fill]
      by (simp add: sha512_holds_def sha512_take_def Let_def algebra_simps)
  next
    case False
    then have less: "ctx_used ctx + length d < 128" using fits by simp
    then have wait: "length (waiting 128 m) + length d < 128" using u by simp
    have md: "length m + length d = 128 * (length m div 128) + (ctx_used ctx + length d)" using m by simp
    have "(length m + length d) div 128 = length m div 128" "(length m + length d) mod 128 = ctx_used ctx + length d"
      unfolding md using less by simp_all
    then show ?thesis
      using assms(1) False u buf len sha512.absorb_wait [OF wait] less
      by (simp add: sha512_holds_def sha512_take_def Let_def)
  qed
qed

lemma sha512_holds_update: "sha512_holds ctx m \<Longrightarrow> sha512_holds (kl_sha512_update ctx d) (m @ d)"
proof (induction ctx d arbitrary: m rule: kl_sha512_update.induct)
  case (1 ctx d)
  let ?n = "if length d < 128 - ctx_used ctx then length d else 128 - ctx_used ctx"
  have used: "ctx_used ctx < 128" using 1(2) by (auto simp: sha512_holds_def)
  show ?case
  proof (cases "d = []")
    case True
    then show ?thesis using 1(2) by (simp add: kl_sha512_update.simps)
  next
    case False
    then have n: "?n \<noteq> 0" using used by auto
    have fits: "ctx_used ctx + length (take ?n d) \<le> 128" using used by auto
    have "sha512_holds (kl_sha512_update (sha512_take ctx (take ?n d)) (drop ?n d)) ((m @ take ?n d) @ drop ?n d)"
      by (rule 1(1) [OF False refl refl n sha512_holds_take [OF 1(2) fits]])
    moreover have "kl_sha512_update ctx d = kl_sha512_update (sha512_take ctx (take ?n d)) (drop ?n d)"
      using False n by (subst kl_sha512_update.simps) (simp only: Let_def if_False)
    ultimately show ?thesis by simp
  qed
qed

lemma sha512_bit_count: "((of_nat (128 * (n div 128)) :: w64) + of_nat (n mod 128)) * 8 = of_nat (8 * n)"
proof -
  have "(128 * (n div 128) + n mod 128) * 8 = 8 * n" by simp
  then show ?thesis by (metis of_nat_add of_nat_mult of_nat_numeral)
qed

lemma sha512_final_refines:
  assumes "sha512_holds ctx m" "length m < 2 ^ 61"
  shows "kl_sha512_final ctx = sha512_spec m"
proof -
  let ?i = "ctx_used ctx" and ?w = "waiting 128 m"
  let ?b = "(ctx_buf ctx)[?i := 0x80]"
  let ?len = "replicate 8 0 @ be64 (of_nat (8 * length m))"
  have i: "?i = length m mod 128" "?i < 128" and len: "length (ctx_buf ctx) = 128"
    and buf: "take ?i (ctx_buf ctx) = ?w" and st: "ctx_h ctx = absorb kl_sha512_block 128 sha512_iv m"
    and bits: "(ctx_total ctx + of_nat ?i) * 8 = of_nat (8 * length m)"
    using assms sha512_bit_count by (auto simp: sha512_holds_def)
  have d1: "take (Suc ?i) ?b = ?w @ [0x80]" using i len buf by (simp add: take_Suc_conv_app_nth)
  show ?thesis
  proof (cases "?i < 112")
    case True
    have "112 - ?i = Suc (111 - ?i)" using True by simp
    then have "take 112 (zero_fill (?i + 1) 112 ?b) = ?w @ 0x80 # replicate (111 - ?i) 0"
      using i len d1 True by (simp add: zero_fill_def)
    then show ?thesis
      using True st bits sha512.absorb_padded_one [of ?len m sha512_iv "0x80" 0] i(1)
      by (simp add: kl_sha512_final_def sha512_spec_def sha512_pad_eq [OF assms(2)] Let_def)
  next
    case False
    have "zero_fill (?i + 1) 128 ?b = ?w @ 0x80 # replicate (127 - ?i) 0"
      using False i len d1 by (simp add: zero_fill_def)
    then show ?thesis
      using False st bits sha512.absorb_padded_two [of ?len m sha512_iv "0x80" 0] i
      by (simp add: kl_sha512_final_def sha512_spec_def sha512_pad_eq [OF assms(2)] Let_def zero_fill_def)
  qed
qed

text \<open>Two updates, as the signature check makes them.\<close>

lemma sha512_streaming:
  assumes "length junk = 128" "length a + length b < 2 ^ 61"
  shows "kl_sha512_final (kl_sha512_update (kl_sha512_update (kl_sha512_init junk) a) b) = sha512_spec (a @ b)"
  using sha512_holds_update [OF sha512_holds_update [OF sha512_holds_init [OF assms(1)]]] assms(2)
  by (intro sha512_final_refines) simp_all

lemma length_sha512_block [simp]: "length (kl_sha512_block h blk) = 8"
  by (simp add: kl_sha512_block_def Let_def split: prod.splits)

lemma length_sha512_final [simp]: "length (kl_sha512_final ctx) = 64"
  by (simp add: kl_sha512_final_def Let_def length_concat comp_def sum_list_triv split: prod.splits)

end
