(* ===== verification/Gf25519.thy ===== *)
theory Gf25519
  imports Sha512
begin

text \<open>
  The field arithmetic of \<open>include/keylight/ed25519.hpp\<close>, as the machine does it: a field element is
  an array of sixteen signed 64-bit limbs in radix \<open>2 ^ 16\<close>, here a list of 64-bit words on which
  \<open>+\<close>, \<open>-\<close> and \<open>*\<close> wrap and \<open>>>\<close> is the arithmetic shift \<open>signed_drop_bit\<close>. A loop over the limbs is
  a \<open>foldl\<close> over its counter with the array updated in place. Arguments that alias in the code
  (\<open>gf_mul(a, a, t)\<close>) are harmless there, because every routine either writes element by element after
  reading that element or works in a local array; the definitions return the result instead.
\<close>

section \<open>Constants\<close>

type_synonym gf = "w64 list"

definition kGf0 :: gf where
  "kGf0 = replicate 16 0"

definition kGf1 :: gf where
  "kGf1 = 1 # replicate 15 0"

definition kD :: gf where
  "kD = [0x78a3, 0x1359, 0x4dca, 0x75eb, 0xd8ab, 0x4141, 0x0a4d, 0x0070,
         0xe898, 0x7779, 0x4079, 0x8cc7, 0xfe73, 0x2b6f, 0x6cee, 0x5203]"

definition kD2 :: gf where
  "kD2 = [0xf159, 0x26b2, 0x9b94, 0xebd6, 0xb156, 0x8283, 0x149a, 0x00e0,
          0xd130, 0xeef3, 0x80f2, 0x198e, 0xfce7, 0x56df, 0xd9dc, 0x2406]"

definition kI :: gf where
  "kI = [0xa0b0, 0x4a0e, 0x1b27, 0xc4ee, 0xe478, 0xad2f, 0x1806, 0x2f43,
         0xd7a7, 0x3dfb, 0x0099, 0x2b4d, 0xdf0b, 0x4fc1, 0x2480, 0x2b83]"

definition kBX :: gf where
  "kBX = [0xd51a, 0x8f25, 0x2d60, 0xc956, 0xa7b2, 0x9525, 0xc760, 0x692c,
          0xdc5c, 0xfdd6, 0xe231, 0xc0a4, 0x53fe, 0xcd6e, 0x36d3, 0x2169]"

definition kBY :: gf where
  "kBY = [0x6658, 0x6666, 0x6666, 0x6666, 0x6666, 0x6666, 0x6666, 0x6666,
          0x6666, 0x6666, 0x6666, 0x6666, 0x6666, 0x6666, 0x6666, 0x6666]"

section \<open>Carries and conditional swap\<close>

definition car_step :: "gf \<Rightarrow> nat \<Rightarrow> gf" where
  "car_step o0 i =
     (let o1 = o0[i := o0 ! i + 65536];
          c = signed_drop_bit 16 (o1 ! i);
          k = (i + 1) * (if i < 15 then 1 else 0);
          o2 = o1[k := o1 ! k + (c - 1 + 37 * (c - 1) * (if i = 15 then 1 else 0))]
      in o2[i := o2 ! i - c * 65536])"

definition gf_car :: "gf \<Rightarrow> gf" where
  "gf_car o0 = foldl car_step o0 [0..<16]"

definition gf_cswap :: "gf \<Rightarrow> gf \<Rightarrow> byte \<Rightarrow> gf \<times> gf" where
  "gf_cswap p q b =
     (let mask = - (ucast b :: w64) in
      foldl (\<lambda>(p, q) i. let t = mask AND (p ! i XOR q ! i) in (p[i := p ! i XOR t], q[i := q ! i XOR t]))
        (p, q) [0..<16])"

section \<open>Packing and unpacking\<close>

text \<open>One round of \<open>gf_pack\<close>: \<open>m\<close> becomes \<open>t - p\<close>, and replaces \<open>t\<close> unless it is negative.\<close>

definition pack_borrow :: "gf \<Rightarrow> gf \<Rightarrow> nat \<Rightarrow> gf" where
  "pack_borrow t m i =
     (let m1 = m[i := t ! i - 0xffff - (signed_drop_bit 16 (m ! (i - 1)) AND 1)]
      in m1[i - 1 := m1 ! (i - 1) AND 0xffff])"

definition pack_round :: "gf \<times> gf \<Rightarrow> nat \<Rightarrow> gf \<times> gf" where
  "pack_round tm j =
     (case tm of (t, m) \<Rightarrow>
        let m1 = foldl (pack_borrow t) (m[0 := t ! 0 - 0xffed]) [1..<15];
            m2 = m1[15 := t ! 15 - 0x7fff - (signed_drop_bit 16 (m1 ! 14) AND 1)];
            b = signed_drop_bit 16 (m2 ! 15) AND 1;
            m3 = m2[14 := m2 ! 14 AND 0xffff]
        in gf_cswap t m3 (1 - ucast b))"

definition gf_pack :: "gf \<Rightarrow> byte list" where
  "gf_pack n =
     (let t = gf_car (gf_car (gf_car n));
          (t2, m2) = foldl pack_round (t, replicate 16 0) [0..<2]
      in concat (map (\<lambda>i. [ucast (t2 ! i), ucast (signed_drop_bit 8 (t2 ! i))]) [0..<16]))"

definition gf_neq :: "gf \<Rightarrow> gf \<Rightarrow> bool" where
  "gf_neq a b =
     (let c = gf_pack a; d = gf_pack b
      in foldl (\<lambda>r i. r OR (c ! i XOR d ! i)) 0 [0..<32] \<noteq> 0)"

definition gf_par :: "gf \<Rightarrow> byte" where
  "gf_par a = gf_pack a ! 0 AND 1"

definition gf_unpack :: "byte list \<Rightarrow> gf" where
  "gf_unpack n =
     (let r = map (\<lambda>i. ucast (n ! (2 * i)) + push_bit 8 (ucast (n ! (2 * i + 1)))) [0..<16]
      in r[15 := r ! 15 AND 0x7fff])"

section \<open>Ring operations\<close>

definition gf_add :: "gf \<Rightarrow> gf \<Rightarrow> gf" where
  "gf_add a b = map (\<lambda>i. a ! i + b ! i) [0..<16]"

definition gf_sub :: "gf \<Rightarrow> gf \<Rightarrow> gf" where
  "gf_sub a b = map (\<lambda>i. a ! i - b ! i) [0..<16]"

definition mul_rows :: "gf \<Rightarrow> gf \<Rightarrow> w64 list" where
  "mul_rows a b =
     foldl (\<lambda>t i. foldl (\<lambda>t j. t[i + j := t ! (i + j) + a ! i * b ! j]) t [0..<16]) (replicate 31 0) [0..<16]"

definition gf_mul :: "gf \<Rightarrow> gf \<Rightarrow> gf" where
  "gf_mul a b =
     (let t = foldl (\<lambda>t i. t[i := t ! i + 38 * t ! (i + 16)]) (mul_rows a b) [0..<15]
      in gf_car (gf_car (map (\<lambda>i. t ! i) [0..<16])))"

definition gf_sq :: "gf \<Rightarrow> gf" where
  "gf_sq a = gf_mul a a"

text \<open>The loops count \<open>a\<close> down.\<close>

definition gf_pow2523 :: "gf \<Rightarrow> gf" where
  "gf_pow2523 i = foldl (\<lambda>c a. if a \<noteq> 1 then gf_mul (gf_sq c) i else gf_sq c) i (rev [0..<251])"

definition gf_inv :: "gf \<Rightarrow> gf" where
  "gf_inv i = foldl (\<lambda>c a. if a \<noteq> 2 \<and> a \<noteq> 4 then gf_mul (gf_sq c) i else gf_sq c) i (rev [0..<254])"

end
