(* ===== verification/Ed25519.thy ===== *)
theory Ed25519
  imports Gf25519
begin

text \<open>
  Points, scalars and the signature check of \<open>include/keylight/ed25519.hpp\<close>. A point is its four
  extended coordinates \<open>(X, Y, Z, T)\<close>, each a field element; the routines that overwrite their
  arguments return the new values. \<open>pt_add(p, p)\<close> aliases its arguments in the code, which is
  harmless because every read of \<open>p\<close> and \<open>q\<close> precedes the first write to \<open>p\<close>.
\<close>

section \<open>Points\<close>

type_synonym gfpoint = "gf \<times> gf \<times> gf \<times> gf"

fun pt_add :: "gfpoint \<Rightarrow> gfpoint \<Rightarrow> gfpoint" where
  "pt_add (p0, p1, p2, p3) (q0, q1, q2, q3) =
     (let a = gf_mul (gf_sub p1 p0) (gf_sub q1 q0);
          b = gf_mul (gf_add p0 p1) (gf_add q0 q1);
          c = gf_mul (gf_mul p3 q3) kD2;
          d0 = gf_mul p2 q2;
          d = gf_add d0 d0;
          e = gf_sub b a;
          f = gf_sub d c;
          g = gf_add d c;
          h = gf_add b a
      in (gf_mul e f, gf_mul h g, gf_mul g f, gf_mul e h))"

fun pt_cswap :: "gfpoint \<Rightarrow> gfpoint \<Rightarrow> byte \<Rightarrow> gfpoint \<times> gfpoint" where
  "pt_cswap (p0, p1, p2, p3) (q0, q1, q2, q3) b =
     (let (p0', q0') = gf_cswap p0 q0 b; (p1', q1') = gf_cswap p1 q1 b;
          (p2', q2') = gf_cswap p2 q2 b; (p3', q3') = gf_cswap p3 q3 b
      in ((p0', p1', p2', p3'), (q0', q1', q2', q3')))"

definition scalar_bit :: "byte list \<Rightarrow> nat \<Rightarrow> byte" where
  "scalar_bit s i = drop_bit (i mod 8) (s ! (i div 8)) AND 1"

definition ladder_step :: "byte list \<Rightarrow> gfpoint \<times> gfpoint \<Rightarrow> nat \<Rightarrow> gfpoint \<times> gfpoint" where
  "ladder_step s pq i =
     (case pq of (p, q) \<Rightarrow>
        let b = scalar_bit s i;
            (p1, q1) = pt_cswap p q b;
            q2 = pt_add q1 p1;
            p2 = pt_add p1 p1
        in pt_cswap p2 q2 b)"

definition pt_scalarmult :: "gfpoint \<Rightarrow> byte list \<Rightarrow> gfpoint" where
  "pt_scalarmult q s = fst (foldl (ladder_step s) ((kGf0, kGf1, kGf1, kGf0), q) (rev [0..<256]))"

definition pt_scalarbase :: "byte list \<Rightarrow> gfpoint" where
  "pt_scalarbase s = pt_scalarmult (kBX, kBY, kGf1, gf_mul kBX kBY) s"

definition pt_unpackneg :: "byte list \<Rightarrow> gfpoint option" where
  "pt_unpackneg p =
     (let r2 = kGf1;
          r1 = gf_unpack p;
          num0 = gf_sq r1;
          den0 = gf_mul num0 kD;
          num = gf_sub num0 r2;
          den = gf_add r2 den0;
          den2 = gf_sq den;
          den4 = gf_sq den2;
          den6 = gf_mul den4 den2;
          t1 = gf_mul (gf_mul den6 num) den;
          t2 = gf_pow2523 t1;
          t3 = gf_mul (gf_mul (gf_mul t2 num) den) den;
          r0 = gf_mul t3 den;
          chk = gf_mul (gf_sq r0) den;
          r0' = (if gf_neq chk num then gf_mul r0 kI else r0);
          chk' = gf_mul (gf_sq r0') den
      in if gf_neq chk' num then None
         else
           let r0'' = (if gf_par r0' = drop_bit 7 (p ! 31) then gf_sub kGf0 r0' else r0')
           in Some (r0'', r1, r2, gf_mul r0'' r1))"

fun pt_pack :: "gfpoint \<Rightarrow> byte list" where
  "pt_pack (p0, p1, p2, p3) =
     (let zi = gf_inv p2;
          tx = gf_mul p0 zi;
          ty = gf_mul p1 zi;
          r = gf_pack ty
      in r[31 := r ! 31 XOR push_bit 7 (gf_par tx)])"

section \<open>Scalars\<close>

definition modL_L :: "w64 list" where
  "modL_L = [0xed, 0xd3, 0xf5, 0x5c, 0x1a, 0x63, 0x12, 0x58,
             0xd6, 0x9c, 0xf7, 0xa2, 0xde, 0xf9, 0xde, 0x14,
             0x00, 0x00, 0x00, 0x00, 0x00, 0x00, 0x00, 0x00,
             0x00, 0x00, 0x00, 0x00, 0x00, 0x00, 0x00, 0x10]"

definition modL_inner :: "nat \<Rightarrow> w64 list \<times> w64 \<Rightarrow> nat \<Rightarrow> w64 list \<times> w64" where
  "modL_inner i xc j =
     (case xc of (x, carry) \<Rightarrow>
        let x1 = x[j := x ! j + (carry - 16 * x ! i * modL_L ! (j - (i - 32)))];
            carry' = signed_drop_bit 8 (x1 ! j + 128)
        in (x1[j := x1 ! j - carry' * 256], carry'))"

definition modL_outer :: "w64 list \<Rightarrow> nat \<Rightarrow> w64 list" where
  "modL_outer x i =
     (case foldl (modL_inner i) (x, 0) [i - 32..<i - 12] of
        (x1, carry) \<Rightarrow> (x1[i - 12 := x1 ! (i - 12) + carry])[i := 0])"

definition modL_low :: "w64 list \<times> w64 \<Rightarrow> nat \<Rightarrow> w64 list \<times> w64" where
  "modL_low xc j =
     (case xc of (x, carry) \<Rightarrow>
        let x1 = x[j := x ! j + (carry - signed_drop_bit 4 (x ! 31) * modL_L ! j)]
        in (x1[j := x1 ! j AND 255], signed_drop_bit 8 (x1 ! j)))"

definition modL_emit :: "w64 list \<times> byte list \<Rightarrow> nat \<Rightarrow> w64 list \<times> byte list" where
  "modL_emit xr i =
     (case xr of (x, r) \<Rightarrow>
        let x1 = x[i + 1 := x ! (i + 1) + signed_drop_bit 8 (x ! i)]
        in (x1, r @ [ucast (x1 ! i AND 255)]))"

definition kl_modL :: "w64 list \<Rightarrow> byte list" where
  "kl_modL x =
     (let x1 = foldl modL_outer x (rev [32..<64]);
          (x2, carry) = foldl modL_low (x1, 0) [0..<32];
          x3 = foldl (\<lambda>x j. x[j := x ! j - carry * modL_L ! j]) x2 [0..<32]
      in snd (foldl modL_emit (x3, []) [0..<32]))"

definition kl_reduce :: "byte list \<Rightarrow> byte list" where
  "kl_reduce bs = kl_modL (map (\<lambda>i. ucast (bs ! i)) [0..<64])"

definition kl_ct_eq32 :: "byte list \<Rightarrow> byte list \<Rightarrow> w32" where
  "kl_ct_eq32 a b =
     (let diff = foldl (\<lambda>d i. d OR ucast (a ! i XOR b ! i)) 0 [0..<32]
      in drop_bit 31 (diff OR (0 - diff)))"

section \<open>The signature check\<close>

text \<open>
  \<open>junk\<close> is the uninitialised buffer of the hash context. With \<open>msg_len = 0\<close> the code skips the second
  update, which for the empty message changes nothing.
\<close>

definition ed25519_verify_from :: "byte list \<Rightarrow> byte list \<Rightarrow> byte list \<Rightarrow> byte list \<Rightarrow> bool" where
  "ed25519_verify_from junk msg sig pubkey =
     (if sig ! 63 AND 0xe0 \<noteq> 0 then False
      else case pt_unpackneg pubkey of
        None \<Rightarrow> False
      | Some A \<Rightarrow>
          let prefix = map (\<lambda>i. sig ! i) [0..<32] @ map (\<lambda>i. pubkey ! i) [0..<32];
              ctx0 = kl_sha512_update (kl_sha512_init junk) prefix;
              ctx1 = (if msg \<noteq> [] then kl_sha512_update ctx0 msg else ctx0);
              hram = kl_sha512_final ctx1;
              h = kl_reduce hram;
              hA = pt_scalarmult A h;
              SB = pt_scalarbase (drop 32 sig);
              R_computed = pt_pack (pt_add SB hA)
          in kl_ct_eq32 sig R_computed = 0)"

definition ed25519_verify :: "byte list \<Rightarrow> byte list \<Rightarrow> byte list \<Rightarrow> bool" where
  "ed25519_verify msg sig pubkey = ed25519_verify_from (replicate 128 0) msg sig pubkey"

end
