(* ===== verification/Limbs.thy ===== *)
theory Limbs
  imports Sha512 Little_Endian
begin

text \<open>
  Radix \<open>2 ^ 16\<close> and radix \<open>2 ^ 8\<close> numbers with signed limbs, and the passage between signed 64-bit
  words and integers: what the field and scalar arithmetic of \<open>ed25519.hpp\<close> rests on. An array of
  words that holds the integers \<open>os\<close> is \<open>map of_int os\<close>; sums and products of words are then those of
  the integers, and only the shifts need the values to be in range.
\<close>

section \<open>Words that hold integers\<close>

lemma sint_of_int64: "- (2 ^ 63) \<le> x \<Longrightarrow> x < 2 ^ 63 \<Longrightarrow> sint (of_int x :: w64) = x"
  by (simp add: signed_of_int signed_take_bit_int_eq_self)

lemma sint_w64_bounds: "- (2 ^ 63) \<le> sint (w :: w64)" "sint (w :: w64) < 2 ^ 63"
  using sint_greater_eq [of w] sint_lt [of w] by simp_all

lemma sint_eqI: "sint a = sint b \<Longrightarrow> a = b" for a b :: w64
  by (rule signed_word_eqI)

lemma shift_of_int:
  assumes "- (2 ^ 63) \<le> x" "x < 2 ^ 63"
  shows "signed_drop_bit n (of_int x :: w64) = of_int (x div 2 ^ n)"
proof (rule sint_eqI)
  have eq: "sint (signed_drop_bit n (of_int x :: w64)) = x div 2 ^ n"
    using assms by (simp add: sint_signed_drop_bit_eq sint_of_int64 drop_bit_eq_div)
  then have "- (2 ^ 63) \<le> x div 2 ^ n" "x div 2 ^ n < 2 ^ 63"
    using sint_w64_bounds [of "signed_drop_bit n (of_int x)"] by simp_all
  then show "sint (signed_drop_bit n (of_int x :: w64)) = sint (of_int (x div 2 ^ n) :: w64)"
    using eq by (simp add: sint_of_int64)
qed

lemma and_of_int: "(of_int x :: w64) AND of_int (2 ^ n - 1) = of_int (x mod 2 ^ n)"
proof -
  have "(of_int x :: w64) AND of_int (mask n) = of_int (take_bit n x)"
    by (rule bit_word_eqI) (auto simp: bit_simps)
  then show ?thesis by (simp add: take_bit_eq_mod mask_eq_exp_minus_1)
qed

section \<open>Numbers in radix \<open>r\<close>\<close>

fun lval :: "int \<Rightarrow> int list \<Rightarrow> int" where
  "lval r [] = 0"
| "lval r (x # xs) = x + r * lval r xs"

primrec digits :: "int \<Rightarrow> nat \<Rightarrow> int \<Rightarrow> int list" where
  "digits r 0 v = []"
| "digits r (Suc n) v = v mod r # digits r n (v div r)"

lemma lval_append: "lval r (xs @ ys) = lval r xs + r ^ length xs * lval r ys"
  by (induction xs) (simp_all add: algebra_simps)

lemma lval_update: "i < length xs \<Longrightarrow> lval r (xs[i := x]) = lval r xs + (x - xs ! i) * r ^ i"
proof (induction xs arbitrary: i)
  case (Cons y xs)
  show ?case
  proof (cases i)
    case (Suc k)
    then have "lval r (xs[k := x]) = lval r xs + (x - xs ! k) * r ^ k" using Cons by simp
    then show ?thesis using Suc by (simp add: distrib_left)
  qed simp
qed simp

lemma lval_replicate_0 [simp]: "lval r (replicate n 0) = 0"
  by (induction n) simp_all

lemma lval_map_upt:
  "lval r (map f [0..<n]) = (\<Sum>i<n. f i * r ^ i)"
  by (induction n) (simp_all add: lval_append algebra_simps)

lemma lval_sum: "lval r xs = (\<Sum>i<length xs. xs ! i * r ^ i)"
  using lval_map_upt [of r "\<lambda>i. xs ! i" "length xs"] by (simp add: map_nth)

lemma lval_ge:
  assumes "0 < r" "\<forall>x\<in>set xs. a \<le> x"
  shows "a * lval r (replicate (length xs) 1) \<le> lval r xs"
  using assms(2)
proof (induction xs)
  case (Cons x xs)
  then have "r * (a * lval r (replicate (length xs) 1)) \<le> r * lval r xs" using assms(1) by simp
  with Cons show ?case by (simp add: algebra_simps)
qed simp

lemma lval_le:
  assumes "0 < r" "\<forall>x\<in>set xs. x \<le> b"
  shows "lval r xs \<le> b * lval r (replicate (length xs) 1)"
  using assms(2)
proof (induction xs)
  case (Cons x xs)
  then have "r * lval r xs \<le> r * (b * lval r (replicate (length xs) 1))" using assms(1) by simp
  with Cons show ?case by (simp add: algebra_simps)
qed simp

lemma lval_ones: "(r - 1) * lval r (replicate n 1) = r ^ n - 1"
  by (induction n) (simp_all add: algebra_simps)

lemma lval_digit_range:
  assumes "0 < r" "\<forall>x\<in>set xs. 0 \<le> x \<and> x < r"
  shows "0 \<le> lval r xs" "lval r xs < r ^ length xs"
proof -
  show "0 \<le> lval r xs" using lval_ge [of r xs 0] assms by simp
  have "lval r xs \<le> (r - 1) * lval r (replicate (length xs) 1)" using assms by (intro lval_le) auto
  then show "lval r xs < r ^ length xs" by (simp add: lval_ones)
qed

lemma length_digits [simp]: "length (digits r n v) = n"
  by (induction n arbitrary: v) simp_all

lemma digits_lval:
  assumes "0 < r" "\<forall>x\<in>set xs. 0 \<le> x \<and> x < r"
  shows "digits r (length xs) (lval r xs) = xs"
  using assms(2) by (induction xs) (use assms(1) in simp_all)

lemma lval_digits: "0 < r \<Longrightarrow> lval r (digits r n v) = v mod r ^ n"
proof (induction n arbitrary: v)
  case (Suc n)
  then show ?case using zmod_zmult2_eq [of "r ^ n" v r] by (simp add: algebra_simps)
qed simp

lemma set_digits: "0 < r \<Longrightarrow> x \<in> set (digits r n v) \<Longrightarrow> 0 \<le> x \<and> x < r"
  by (induction n arbitrary: v) auto

end
