(* ===== verification/Gf25519_Field.thy ===== *)
theory Gf25519_Field
  imports Gf25519 Limbs
begin

text \<open>
  The limb arithmetic computes in the field of \<open>2 ^ 255 - 19\<close>. \<open>fv\<close> is the residue an array stands for
  and \<open>fits M\<close> bounds its limbs; every operation is shown to compute the residue it should, and the
  bounds on its result, so that no 64-bit value ever leaves its range.
\<close>

definition p25519 :: int where "p25519 = 2 ^ 255 - 19"

definition gnum :: "gf \<Rightarrow> int" where
  "gnum w = lval 65536 (map sint w)"

definition fv :: "gf \<Rightarrow> int" where
  "fv w = gnum w mod p25519"

definition fits :: "int \<Rightarrow> gf \<Rightarrow> bool" where
  "fits M w \<longleftrightarrow> length w = 16 \<and> (\<forall>x\<in>set w. \<bar>sint x\<bar> \<le> M)"

lemma fits_ints:
  assumes "fits M w"
  obtains os where "w = map of_int os" "os = map sint w" "length os = 16" "\<forall>x\<in>set os. \<bar>x\<bar> \<le> M" "gnum w = lval 65536 os"
  using assms by (intro that [of "map sint w"]) (simp_all add: fits_def gnum_def comp_def)

lemma sint_ints:
  assumes "\<forall>x\<in>set os. \<bar>x\<bar> \<le> M" "M < 2 ^ 63"
  shows "map sint (map of_int os :: gf) = os"
proof -
  have "sint (of_int x :: w64) = x" if "x \<in> set os" for x
    using bspec [OF assms(1) that] assms(2) by (intro sint_of_int64) linarith+
  then show ?thesis by (simp add: map_idI)
qed

lemma ints_fits:
  assumes "length os = 16" "\<forall>x\<in>set os. \<bar>x\<bar> \<le> M" "M < 2 ^ 63"
  shows "fits M (map of_int os)" "gnum (map of_int os) = lval 65536 os"
proof -
  have eq: "map sint (map of_int os :: gf) = os" using assms by (intro sint_ints) auto
  then show "gnum (map of_int os) = lval 65536 os" by (simp only: gnum_def)
  have "\<bar>sint x\<bar> \<le> M" if "x \<in> set (map of_int os :: gf)" for x
  proof -
    have "sint x \<in> set (map sint (map of_int os :: gf))" using that by (simp only: set_map imageI)
    then show ?thesis using assms(2) by (simp only: eq)
  qed
  then show "fits M (map of_int os)" using assms(1) by (simp add: fits_def)
qed

lemma fits_mono: "fits M w \<Longrightarrow> M \<le> N \<Longrightarrow> fits N w"
  by (force simp: fits_def)

section \<open>Carries\<close>

definition car_int :: "int list \<Rightarrow> nat \<Rightarrow> int list" where
  "car_int os i =
     (let k = os ! i div 65536; o1 = os[i := os ! i mod 65536]
      in if i < 15 then o1[i + 1 := o1 ! (i + 1) + k] else o1[0 := o1 ! 0 + 38 * k])"

lemma car_step_int:
  assumes "length os = 16" "i < 16" "\<bar>os ! i\<bar> \<le> 2 ^ 62"
  shows "car_step (map of_int os) i = map of_int (car_int os i)"
proof -
  let ?x = "os ! i" and ?k = "os ! i div 65536"
  have mi: "map of_int os ! i = (of_int ?x :: w64)" using assms by simp
  have "signed_drop_bit 16 (of_int (?x + 65536) :: w64) = of_int ((?x + 65536) div 2 ^ 16)"
    using assms(3) by (intro shift_of_int) auto
  moreover have "(?x + 65536) div 2 ^ 16 = ?k + 1" by simp
  ultimately have c: "signed_drop_bit 16 (of_int ?x + 65536 :: w64) = of_int ?k + 1" by simp
  have rest: "of_int ?x + 65536 - (of_int ?k + 1) * 65536 = (of_int (?x mod 65536) :: w64)"
  proof -
    have "(of_int ?x :: w64) = of_int (65536 * ?k + ?x mod 65536)" by (simp only: mult_div_mod_eq)
    then show ?thesis by (simp only: of_int_add of_int_mult of_int_numeral) (simp add: algebra_simps)
  qed
  show ?thesis
  proof (cases "i < 15")
    case True
    then show ?thesis
      using assms(1,2) mi c rest
      by (simp add: car_step_def car_int_def Let_def map_update list_update_swap)
  next
    case False
    then have i: "i = 15" using assms(2) by simp
    have "of_int ?k + 1 - 1 + 37 * (of_int ?k + 1 - 1) * 1 = (of_int (38 * ?k) :: w64)"
      by (simp add: algebra_simps)
    then show ?thesis
      using assms(1,2) mi c rest i
      by (simp add: car_step_def car_int_def Let_def map_update list_update_swap)
  qed
qed

lemma car_prefix:
  assumes "length os = 16" "\<forall>x\<in>set os. \<bar>x\<bar> \<le> 2 ^ 60" "n \<le> 15"
  defines "on \<equiv> foldl car_int os [0..<n]"
  shows "foldl car_step (map of_int os) [0..<n] = map of_int on \<and> length on = 16
    \<and> lval 65536 on = lval 65536 os \<and> (\<forall>j<n. 0 \<le> on ! j \<and> on ! j < 65536)
    \<and> \<bar>on ! n\<bar> \<le> 2 ^ 61 \<and> (\<forall>j. n < j \<longrightarrow> j < 16 \<longrightarrow> on ! j = os ! j)"
  using assms(3) unfolding on_def
proof (induction n)
  case 0
  have "\<bar>os ! 0\<bar> \<le> 2 ^ 60" using assms(1,2) by simp
  then show ?case using assms(1) by simp
next
  case (Suc n)
  define a where "a = foldl car_int os [0..<n]"
  let ?k = "a ! n div 65536"
  have IH: "foldl car_step (map of_int os) [0..<n] = map of_int a" "length a = 16"
    "lval 65536 a = lval 65536 os" "\<forall>j<n. 0 \<le> a ! j \<and> a ! j < 65536"
    "\<bar>a ! n\<bar> \<le> 2 ^ 61" "\<forall>j. n < j \<longrightarrow> j < 16 \<longrightarrow> a ! j = os ! j"
    using Suc unfolding a_def by simp_all
  have n: "n < 15" using Suc.prems by simp
  have b: "foldl car_int os [0..<Suc n] = car_int a n" by (simp add: a_def)
  have eq: "car_int a n = a[n := a ! n mod 65536, Suc n := a ! Suc n + ?k]"
    using n IH(2) by (simp add: car_int_def Let_def)
  have "car_step (map of_int a) n = map of_int (car_int a n)"
    using n IH(2,5) by (intro car_step_int) auto
  moreover have "lval 65536 (car_int a n) = lval 65536 os"
  proof -
    have "(a ! n mod 65536 - a ! n) * 65536 ^ n + ?k * 65536 ^ Suc n = 0"
      by (simp add: minus_mult_div_eq_mod [symmetric] algebra_simps)
    then show ?thesis using n IH(2,3) unfolding eq by (simp add: lval_update)
  qed
  moreover have "\<bar>car_int a n ! Suc n\<bar> \<le> 2 ^ 61"
  proof -
    have "\<bar>a ! Suc n\<bar> \<le> 2 ^ 60" using IH(2,6) n assms(1,2) by simp
    then show ?thesis using n IH(2,5) unfolding eq by simp
  qed
  ultimately show ?case using IH n unfolding b by (auto simp: eq nth_list_update less_Suc_eq)
qed

text \<open>What \<open>gf_car\<close> leaves: the sixteen digits of the value, and the overflow folded into the lowest.\<close>

definition carried :: "int \<Rightarrow> int list" where
  "carried V = (let ds = digits 65536 16 (V mod 2 ^ 256) in ds[0 := ds ! 0 + 38 * (V div 2 ^ 256)])"

definition fold256 :: "int \<Rightarrow> int" where
  "fold256 V = V mod 2 ^ 256 + 38 * (V div 2 ^ 256)"

lemma gf_car_int:
  assumes "length os = 16" "\<forall>x\<in>set os. \<bar>x\<bar> \<le> 2 ^ 60"
  shows "gf_car (map of_int os) = map of_int (carried (lval 65536 os))"
proof -
  define a where "a = foldl car_int os [0..<15]"
  have a: "foldl car_step (map of_int os) [0..<15] = map of_int a" "length a = 16"
    "lval 65536 a = lval 65536 os" "\<forall>j<15. 0 \<le> a ! j \<and> a ! j < 65536" "\<bar>a ! 15\<bar> \<le> 2 ^ 61"
    using car_prefix [OF assms, of 15] unfolding a_def by auto
  let ?k = "a ! 15 div 65536" and ?ds = "a[15 := a ! 15 mod 65536]"
  have "[0..<16] = [0..<15] @ [15]" by (simp add: upt_rec)
  then have "gf_car (map of_int os) = car_step (map of_int a) 15" using a(1) by (simp add: gf_car_def)
  also have "\<dots> = map of_int (car_int a 15)" using a(2,5) by (intro car_step_int) auto
  also have "car_int a 15 = ?ds[0 := ?ds ! 0 + 38 * ?k]" by (simp add: car_int_def Let_def)
  finally have car: "gf_car (map of_int os) = map of_int (?ds[0 := ?ds ! 0 + 38 * ?k])" .
  have dig: "\<forall>x\<in>set ?ds. 0 \<le> x \<and> x < 65536"
    using a(2,4) by (auto simp: in_set_conv_nth nth_list_update)
  have "lval 65536 ?ds = lval 65536 os + (a ! 15 mod 65536 - a ! 15) * 65536 ^ 15"
    using a(2,3) by (simp add: lval_update)
  also have "\<dots> = lval 65536 os - ?k * 2 ^ 256"
    by (simp add: minus_mult_div_eq_mod [symmetric] algebra_simps)
  finally have V: "lval 65536 os = lval 65536 ?ds + ?k * 2 ^ 256" by simp
  have "0 \<le> lval 65536 ?ds" "lval 65536 ?ds < 65536 ^ length ?ds"
    using lval_digit_range [of 65536 ?ds] dig by simp_all
  then have range: "0 \<le> lval 65536 ?ds" "lval 65536 ?ds < 2 ^ 256" using a(2) by simp_all
  have k: "lval 65536 os div 2 ^ 256 = ?k" and low: "lval 65536 os mod 2 ^ 256 = lval 65536 ?ds"
    unfolding V using range by (simp_all add: div_add1_eq)
  have "digits 65536 16 (lval 65536 ?ds) = ?ds"
    using digits_lval [of 65536 ?ds] dig a(2) by simp
  then show ?thesis unfolding car carried_def Let_def k low by simp
qed

lemma length_carried [simp]: "length (carried V) = 16"
  by (simp add: carried_def Let_def)

lemma lval_carried: "lval 65536 (carried V) = fold256 V"
proof -
  have "lval 65536 (digits 65536 16 (V mod 2 ^ 256)) = V mod 2 ^ 256"
    by (simp add: lval_digits)
  then show ?thesis by (simp add: carried_def Let_def lval_update fold256_def)
qed

lemma fold256_mod: "fold256 V mod p25519 = V mod p25519"
proof -
  have "V = fold256 V + p25519 * (2 * (V div 2 ^ 256))"
    using mult_div_mod_eq [of "2 ^ 256" V] by (simp add: fold256_def p25519_def)
  then show ?thesis by (metis mod_mult_self2)
qed

lemma carried_bound:
  assumes "\<bar>V div 2 ^ 256\<bar> \<le> k" "x \<in> set (carried V)"
  shows "\<bar>x\<bar> \<le> 65535 + 38 * k"
proof -
  let ?ds = "digits 65536 16 (V mod 2 ^ 256)"
  have dig: "0 \<le> d \<and> d < 65536" if "d \<in> set ?ds" for d using set_digits [OF _ that] by simp
  have "x \<in> insert (?ds ! 0 + 38 * (V div 2 ^ 256)) (set ?ds)"
    using assms(2) set_update_subset_insert [of ?ds 0] by (auto simp: carried_def Let_def)
  then show ?thesis using assms(1) dig [of x] dig [of "?ds ! 0"] by auto
qed

lemma lval_limbs_bound:
  assumes "length os = 16" "\<forall>x\<in>set os. \<bar>x\<bar> \<le> M" "0 \<le> M"
  shows "\<bar>lval 65536 os\<bar> \<le> M * 2 ^ 241"
proof -
  define ones where "ones = lval 65536 (replicate 16 1)"
  have "65535 * ones = 65536 ^ 16 - 1" using lval_ones [of 65536 16] by (simp add: ones_def)
  then have ones: "0 \<le> ones" "ones \<le> 2 ^ 241" by simp_all
  have "\<forall>x\<in>set os. - M \<le> x" "\<forall>x\<in>set os. x \<le> M" using assms(2) by (simp_all add: abs_le_iff minus_le_iff)
  then have "-M * ones \<le> lval 65536 os" "lval 65536 os \<le> M * ones"
    using lval_ge [of 65536 os "-M"] lval_le [of 65536 os M] assms(1) by (simp_all add: ones_def)
  moreover have "M * ones \<le> M * 2 ^ 241" using ones assms(3) by (intro mult_left_mono) auto
  ultimately show ?thesis by (simp add: abs_le_iff)
qed

lemma fold256_small:
  assumes "\<bar>V\<bar> \<le> 2 ^ 305"
  shows "\<bar>V div 2 ^ 256\<bar> \<le> 2 ^ 50" "\<bar>fold256 V div 2 ^ 256\<bar> \<le> 1"
proof -
  have k: "- (2 ^ 49) \<le> V div 2 ^ 256" "V div 2 ^ 256 \<le> 2 ^ 49"
  proof -
    have "(- (2 ^ 305)) div 2 ^ 256 \<le> V div 2 ^ 256" "V div 2 ^ 256 \<le> 2 ^ 305 div 2 ^ 256"
      using assms by (auto intro!: zdiv_mono1)
    then show "- (2 ^ 49) \<le> V div 2 ^ 256" "V div 2 ^ 256 \<le> 2 ^ 49" by simp_all
  qed
  then show "\<bar>V div 2 ^ 256\<bar> \<le> 2 ^ 50" by simp
  have "- (2 ^ 256) \<le> fold256 V" "fold256 V < 2 * 2 ^ 256"
    using k pos_mod_bound [of "2 ^ 256" V] pos_mod_sign [of "2 ^ 256" V] by (simp_all add: fold256_def)
  then have "(- (2 ^ 256)) div 2 ^ 256 \<le> fold256 V div 2 ^ 256" "fold256 V div 2 ^ 256 < 2"
    by (auto intro!: zdiv_mono1 simp: div_less_iff_less_mult)
  then show "\<bar>fold256 V div 2 ^ 256\<bar> \<le> 1" by simp
qed

text \<open>Two carries bring sixteen limbs of up to \<open>2 ^ 60\<close> down to 16 bits and a little.\<close>

lemma two_carries:
  assumes "length os = 16" "\<forall>x\<in>set os. \<bar>x\<bar> \<le> 2 ^ 60"
  shows "gf_car (gf_car (map of_int os)) = map of_int (carried (fold256 (lval 65536 os)))"
    and "\<forall>x\<in>set (carried (fold256 (lval 65536 os))). \<bar>x\<bar> \<le> 65573"
proof -
  let ?V = "lval 65536 os"
  have "\<bar>?V\<bar> \<le> 2 ^ 60 * 2 ^ 241" using assms by (intro lval_limbs_bound) auto
  then have V: "\<bar>?V\<bar> \<le> 2 ^ 305" by simp
  have "\<forall>x\<in>set (carried ?V). \<bar>x\<bar> \<le> 2 ^ 60"
    using carried_bound [OF fold256_small(1) [OF V]] by force
  then have "gf_car (map of_int (carried ?V)) = map of_int (carried (lval 65536 (carried ?V)))"
    by (intro gf_car_int) simp_all
  then show "gf_car (gf_car (map of_int os)) = map of_int (carried (fold256 ?V))"
    using gf_car_int [OF assms] by (simp add: lval_carried)
  show "\<forall>x\<in>set (carried (fold256 ?V)). \<bar>x\<bar> \<le> 65573"
    using carried_bound [OF fold256_small(2) [OF V]] by force
qed

section \<open>Multiplication\<close>

lemma foldl_hom:
  assumes "P x" "\<And>i x. i \<in> set ks \<Longrightarrow> P x \<Longrightarrow> P (g x i) \<and> f (h x) i = h (g x i)"
  shows "foldl f (h x) ks = h (foldl g x ks) \<and> P (foldl g x ks)"
  using assms by (induction ks arbitrary: x) simp_all

definition row_int :: "int list \<Rightarrow> int list \<Rightarrow> int list \<Rightarrow> nat \<Rightarrow> nat \<Rightarrow> int list" where
  "row_int a b t i n = foldl (\<lambda>t j. t[i + j := t ! (i + j) + a ! i * b ! j]) t [0..<n]"

definition rows_int :: "int list \<Rightarrow> int list \<Rightarrow> nat \<Rightarrow> int list" where
  "rows_int a b n = foldl (\<lambda>t i. row_int a b t i 16) (replicate 31 0) [0..<n]"

lemma length_row_int [simp]: "length (row_int a b t i n) = length t"
  unfolding row_int_def by (induction n) simp_all

lemma length_rows_int [simp]: "length (rows_int a b n) = 31"
  unfolding rows_int_def by (induction n) simp_all

lemma mul_rows_int:
  assumes "length a = 16" "length b = 16"
  shows "mul_rows (map of_int a) (map of_int b) = map of_int (rows_int a b 16)"
proof -
  have row: "foldl (\<lambda>t j. t[i + j := t ! (i + j) + map of_int a ! i * map of_int b ! j]) (map of_int t) [0..<16]
      = (map of_int (row_int a b t i 16) :: gf)" if "i < 16" "length t = 31" for i and t :: "int list"
    using foldl_hom [where P = "\<lambda>t. length t = 31" and h = "map of_int :: int list \<Rightarrow> gf" and
        ks = "[0..<16]" and x = t and g = "\<lambda>t j. t[i + j := t ! (i + j) + a ! i * b ! j]" and
        f = "\<lambda>t j. t[i + j := t ! (i + j) + map of_int a ! i * map of_int b ! j]"] that assms
    by (simp add: row_int_def map_update)
  have "replicate 31 0 = (map of_int (replicate 31 0) :: gf)" by simp
  then show ?thesis
    using foldl_hom [where P = "\<lambda>t. length t = 31" and h = "map of_int :: int list \<Rightarrow> gf" and
        ks = "[0..<16]" and x = "replicate 31 0" and g = "\<lambda>t i. row_int a b t i 16" and
        f = "\<lambda>t i. foldl (\<lambda>t j. t[i + j := t ! (i + j) + map of_int a ! i * map of_int b ! j]) t [0..<16]"]
    by (simp add: mul_rows_def rows_int_def row)
qed

lemma row_int_value:
  assumes "length t = 31" "length b = 16" "i < 16" "n \<le> 16"
  shows "lval 65536 (row_int a b t i n) = lval 65536 t + a ! i * 65536 ^ i * (\<Sum>j<n. b ! j * 65536 ^ j)"
  using assms(4)
proof (induction n)
  case (Suc n)
  have "row_int a b t i (Suc n) = (row_int a b t i n)[i + n := row_int a b t i n ! (i + n) + a ! i * b ! n]"
    by (simp add: row_int_def)
  then show ?case using Suc assms(1,3) by (simp add: lval_update power_add algebra_simps)
qed (simp add: row_int_def)

lemma row_int_bound:
  assumes "\<forall>x\<in>set t. \<bar>x\<bar> \<le> T" "length t = 31" "i < 16" "n \<le> 16" "\<And>j. j < 16 \<Longrightarrow> \<bar>a ! i * b ! j\<bar> \<le> B"
  shows "\<forall>x\<in>set (row_int a b t i n). \<bar>x\<bar> \<le> T + int n * B"
  using assms(4)
proof (induction n)
  case 0
  then show ?case using assms(1) by (simp add: row_int_def)
next
  case (Suc n)
  let ?r = "row_int a b t i n"
  have B: "\<bar>a ! i * b ! n\<bar> \<le> B" using assms(5) [of n] Suc.prems by simp
  have r: "\<forall>x\<in>set ?r. \<bar>x\<bar> \<le> T + int n * B" using Suc by simp
  have "row_int a b t i (Suc n) = ?r[i + n := ?r ! (i + n) + a ! i * b ! n]"
    by (simp add: row_int_def)
  moreover have "\<bar>?r ! (i + n)\<bar> \<le> T + int n * B"
    using r assms(2,3) Suc.prems by simp
  moreover have "x = ?r ! (i + n) + a ! i * b ! n \<or> x \<in> set ?r" if "x \<in> set (?r[i + n := ?r ! (i + n) + a ! i * b ! n])" for x
    using that set_update_subset_insert by fastforce
  ultimately show ?case using B r by (force simp: distrib_right)
qed

lemma rows_int_value:
  assumes "length a = 16" "length b = 16"
  shows "lval 65536 (rows_int a b 16) = lval 65536 a * lval 65536 b"
proof -
  have "lval 65536 (rows_int a b n) = (\<Sum>i<n. a ! i * 65536 ^ i) * (\<Sum>j<16. b ! j * 65536 ^ j)" if "n \<le> 16" for n
    using that
  proof (induction n)
    case (Suc n)
    have "rows_int a b (Suc n) = row_int a b (rows_int a b n) n 16" by (simp add: rows_int_def)
    then show ?case
      using Suc row_int_value [of "rows_int a b n" b n 16 a] assms(2) by (simp add: distrib_right)
  qed (simp add: rows_int_def)
  from this [of 16] show ?thesis using assms by (simp add: lval_sum)
qed

lemma rows_int_bound:
  assumes "length a = 16" "length b = 16" "\<forall>x\<in>set a. \<bar>x\<bar> \<le> M" "\<forall>x\<in>set b. \<bar>x\<bar> \<le> M" "n \<le> 16"
  shows "\<forall>x\<in>set (rows_int a b n). \<bar>x\<bar> \<le> int n * (16 * (M * M))"
  using assms(5)
proof (induction n)
  case 0
  then show ?case by (simp add: rows_int_def)
next
  case (Suc n)
  have "\<bar>a ! n * b ! j\<bar> \<le> M * M" if "j < 16" for j
  proof -
    have "a ! n \<in> set a" "b ! j \<in> set b" using assms(1,2) Suc.prems that by simp_all
    then show ?thesis using assms(3,4) unfolding abs_mult by (intro mult_mono) force+
  qed
  then have "\<forall>x\<in>set (row_int a b (rows_int a b n) n 16). \<bar>x\<bar> \<le> int n * (16 * (M * M)) + int 16 * (M * M)"
    using Suc by (intro row_int_bound) simp_all
  moreover have "rows_int a b (Suc n) = row_int a b (rows_int a b n) n 16" by (simp add: rows_int_def)
  ultimately show ?case by (simp add: algebra_simps)
qed

text \<open>The upper fifteen limbs of the product come back multiplied by \<open>38 = 2 ^ 256 mod p\<close>.\<close>

lemma fold_upper:
  fixes t :: "'a::comm_ring_1 list"
  assumes "length t = 31" "n \<le> 15"
  shows "foldl (\<lambda>t i. t[i := t ! i + 38 * t ! (i + 16)]) t [0..<n] =
    map (\<lambda>i. t ! i + (if i < n then 38 * t ! (i + 16) else 0)) [0..<31]"
  using assms(2)
proof (induction n)
  case 0
  then show ?case using assms(1) map_nth [of t] by simp
next
  case (Suc n)
  then show ?case by (auto intro!: nth_equalityI simp: nth_list_update)
qed

lemma lval_fold_upper:
  assumes "length t = 31"
  shows "lval 65536 (map (\<lambda>i. t ! i + (if i < 15 then 38 * t ! (i + 16) else 0)) [0..<16]) mod p25519
    = lval 65536 t mod p25519"
proof -
  define hi where "hi = (\<Sum>i<15. t ! (i + 16) * 65536 ^ i)"
  define lo where "lo = (\<Sum>i<16. t ! i * 65536 ^ i)"
  have "lval 65536 (map (\<lambda>i. t ! i + (if i < 15 then 38 * t ! (i + 16) else 0)) [0..<16]) = lo + 38 * hi"
    by (simp add: lval_map_upt lo_def hi_def eval_nat_numeral algebra_simps)
  moreover have "lval 65536 t = lo + 2 ^ 256 * hi"
    using assms by (simp add: lval_sum lo_def hi_def eval_nat_numeral algebra_simps)
  moreover have "lo + 2 ^ 256 * hi = (lo + 38 * hi) + p25519 * (2 * hi)"
    by (simp add: p25519_def algebra_simps)
  ultimately show ?thesis by (metis mod_mult_self2)
qed

lemma gf_mul_ok:
  assumes "fits (2 ^ 22) a" "fits (2 ^ 22) b"
  shows "fits 65573 (gf_mul a b)" and "fv (gf_mul a b) = fv a * fv b mod p25519"
proof -
  obtain x where x: "a = map of_int x" "length x = 16" "\<forall>v\<in>set x. \<bar>v\<bar> \<le> 2 ^ 22" "gnum a = lval 65536 x"
    using assms(1) by (rule fits_ints)
  obtain y where y: "b = map of_int y" "length y = 16" "\<forall>v\<in>set y. \<bar>v\<bar> \<le> 2 ^ 22" "gnum b = lval 65536 y"
    using assms(2) by (rule fits_ints)
  define t where "t = rows_int x y 16"
  define s where "s = map (\<lambda>i. t ! i + (if i < 15 then 38 * t ! (i + 16) else 0)) [0..<16]"
  have t: "length t = 31" "\<forall>v\<in>set t. \<bar>v\<bar> \<le> 2 ^ 52"
    using rows_int_bound [OF x(2) y(2) x(3) y(3), of 16] by (simp_all add: t_def)
  have low: "map (\<lambda>i. foldl (\<lambda>t i. t[i := t ! i + 38 * t ! (i + 16)]) (map of_int t) [0..<15] ! i) [0..<16]
      = (map of_int s :: gf)"
    using t(1) by (simp add: fold_upper s_def)
  have w: "gf_mul a b = gf_car (gf_car (map of_int s))"
    unfolding gf_mul_def Let_def x(1) y(1) mul_rows_int [OF x(2) y(2)] t_def [symmetric] low by (rule refl)
  have tk: "\<bar>t ! k\<bar> \<le> 2 ^ 52" if "k < 31" for k using t that by simp
  have s: "length s = 16" "\<forall>v\<in>set s. \<bar>v\<bar> \<le> 2 ^ 60"
  proof -
    have "\<bar>t ! i + (if i < 15 then 38 * t ! (i + 16) else 0)\<bar> \<le> 2 ^ 60" if "i < 16" for i
      using tk [of i] tk [of "i + 16"] that by (auto simp: abs_le_iff)
    then show "\<forall>v\<in>set s. \<bar>v\<bar> \<le> 2 ^ 60" by (auto simp: s_def)
  qed (simp add: s_def)
  note car = two_carries [OF s]
  have out: "gf_mul a b = map of_int (carried (fold256 (lval 65536 s)))" using w car(1) by simp
  show "fits 65573 (gf_mul a b)" unfolding out using car(2) by (intro ints_fits) simp_all
  have "gnum (gf_mul a b) = lval 65536 (carried (fold256 (lval 65536 s)))"
    unfolding out by (rule ints_fits(2) [OF _ car(2)]) simp_all
  then have "fv (gf_mul a b) = lval 65536 s mod p25519"
    by (simp add: fv_def lval_carried fold256_mod)
  also have "\<dots> = lval 65536 t mod p25519" using lval_fold_upper [OF t(1)] by (simp only: s_def)
  also have "\<dots> = gnum a * gnum b mod p25519"
    by (simp add: t_def rows_int_value [OF x(2) y(2)] x(4) y(4))
  finally show "fv (gf_mul a b) = fv a * fv b mod p25519" by (simp add: fv_def mod_mult_eq)
qed

section \<open>Addition and subtraction\<close>

lemma sint_arith:
  fixes a b :: w64
  assumes "\<bar>sint a\<bar> \<le> M" "\<bar>sint b\<bar> \<le> N" "M + N < 2 ^ 63"
  shows "sint (a + b) = sint a + sint b" "sint (a - b) = sint a - sint b"
proof -
  have "sint (of_int (sint a + sint b) :: w64) = sint a + sint b" using assms by (intro sint_of_int64) linarith+
  then show "sint (a + b) = sint a + sint b" by simp
  have "sint (of_int (sint a - sint b) :: w64) = sint a - sint b" using assms by (intro sint_of_int64) linarith+
  then show "sint (a - b) = sint a - sint b" by simp
qed

lemma fits_nth: "fits M a \<Longrightarrow> i < 16 \<Longrightarrow> \<bar>sint (a ! i)\<bar> \<le> M"
  by (simp add: fits_def)

lemma gnum_sum: "fits M a \<Longrightarrow> gnum a = (\<Sum>i<16. sint (a ! i) * 65536 ^ i)"
  by (simp add: gnum_def lval_sum fits_def)

lemma gf_add_ok:
  assumes "fits M a" "fits N b" "M + N < 2 ^ 63"
  shows "fits (M + N) (gf_add a b)" and "fv (gf_add a b) = (fv a + fv b) mod p25519"
proof -
  have s: "sint (a ! i + b ! i) = sint (a ! i) + sint (b ! i)" if "i < 16" for i
    using sint_arith(1) [OF fits_nth [OF assms(1) that] fits_nth [OF assms(2) that] assms(3)] .
  have "\<bar>sint (a ! i) + sint (b ! i)\<bar> \<le> M + N" if "i < 16" for i
    using fits_nth [OF assms(1) that] fits_nth [OF assms(2) that] by linarith
  then show "fits (M + N) (gf_add a b)" using s by (auto simp: fits_def gf_add_def)
  have "gnum (gf_add a b) = (\<Sum>i<16. (sint (a ! i) + sint (b ! i)) * 65536 ^ i)"
    using s by (simp add: gnum_def gf_add_def comp_def lval_map_upt)
  then have "gnum (gf_add a b) = gnum a + gnum b"
    using assms by (simp add: gnum_sum distrib_right sum.distrib)
  then show "fv (gf_add a b) = (fv a + fv b) mod p25519" by (simp add: fv_def mod_add_eq)
qed

lemma gf_sub_ok:
  assumes "fits M a" "fits N b" "M + N < 2 ^ 63"
  shows "fits (M + N) (gf_sub a b)" and "fv (gf_sub a b) = (fv a - fv b) mod p25519"
proof -
  have s: "sint (a ! i - b ! i) = sint (a ! i) - sint (b ! i)" if "i < 16" for i
    using sint_arith(2) [OF fits_nth [OF assms(1) that] fits_nth [OF assms(2) that] assms(3)] .
  have "\<bar>sint (a ! i) - sint (b ! i)\<bar> \<le> M + N" if "i < 16" for i
    using fits_nth [OF assms(1) that] fits_nth [OF assms(2) that] by linarith
  then show "fits (M + N) (gf_sub a b)" using s by (auto simp: fits_def gf_sub_def)
  have "gnum (gf_sub a b) = (\<Sum>i<16. (sint (a ! i) - sint (b ! i)) * 65536 ^ i)"
    using s by (simp add: gnum_def gf_sub_def comp_def lval_map_upt)
  then have "gnum (gf_sub a b) = gnum a - gnum b"
    using assms by (simp add: gnum_sum left_diff_distrib sum_subtractf)
  then show "fv (gf_sub a b) = (fv a - fv b) mod p25519" by (simp add: fv_def mod_diff_eq)
qed

section \<open>Powers\<close>

abbreviation (input) small :: "gf \<Rightarrow> bool" where "small \<equiv> fits 65573"

lemma small_mul: "small a \<Longrightarrow> small b \<Longrightarrow> small (gf_mul a b)"
  by (rule gf_mul_ok(1) [OF fits_mono fits_mono, of 65573 _ 65573]) simp_all

lemma fv_small_mul: "small a \<Longrightarrow> small b \<Longrightarrow> fv (gf_mul a b) = fv a * fv b mod p25519"
  by (rule gf_mul_ok(2) [OF fits_mono fits_mono, of 65573 _ 65573]) simp_all

lemma fv_power_fold:
  assumes "small i"
  shows "small (foldl (\<lambda>c a. if Q a then gf_mul (gf_sq c) i else gf_sq c) i ks) \<and>
    fv (foldl (\<lambda>c a. if Q a then gf_mul (gf_sq c) i else gf_sq c) i ks) =
      fv i ^ (foldl (\<lambda>e a. if Q a then Suc (2 * e) else 2 * e) 1 ks) mod p25519"
proof (induction ks rule: rev_induct)
  case Nil
  then show ?case using assms by (simp add: fv_def)
next
  case (snoc k ks)
  let ?c = "foldl (\<lambda>c a. if Q a then gf_mul (gf_sq c) i else gf_sq c) i ks"
  let ?e = "foldl (\<lambda>e a. if Q a then Suc (2 * e) else 2 * e) 1 ks"
  have sq: "small (gf_sq ?c)" "fv (gf_sq ?c) = fv i ^ (2 * ?e) mod p25519"
    using snoc by (simp_all add: gf_sq_def small_mul fv_small_mul mod_mult_eq mult_2 power_add)
  then show ?case
    using assms by (simp add: small_mul fv_small_mul mod_mult_left_eq mod_mult_right_eq mult.commute)
qed

lemma exponent_ones:
  assumes "\<And>a. k \<le> a \<Longrightarrow> Q a"
  shows "foldl (\<lambda>e a. if Q a then Suc (2 * e) else 2 * e) e (rev [k..<k + n]) = Suc e * 2 ^ n - 1"
proof (induction n arbitrary: e)
  case (Suc n)
  have "Suc (2 * e) + 1 = 2 * Suc e" by simp
  then show ?case using Suc [of "Suc (2 * e)"] assms [of "k + n"] by simp
qed simp

lemma gf_inv_ok:
  assumes "small i"
  shows "small (gf_inv i)" "fv (gf_inv i) = fv i ^ (2 ^ 255 - 21) mod p25519"
proof -
  have "foldl (\<lambda>e a. if a \<noteq> 2 \<and> a \<noteq> 4 then Suc (2 * e) else 2 * e) 1 (rev [0..<254]) = 2 ^ 255 - 21"
  proof -
    have "rev [0..<254] = rev [5..<5 + 249] @ [4, 3, 2, 1, 0]"
      using upt_add_eq_append [of 0 5 249] by (simp add: upt_rec)
    then show ?thesis using exponent_ones [of 5 "\<lambda>a. a \<noteq> 2 \<and> a \<noteq> 4" 1 249] by simp
  qed
  then show "small (gf_inv i)" "fv (gf_inv i) = fv i ^ (2 ^ 255 - 21) mod p25519"
    using fv_power_fold [OF assms, of "\<lambda>a. a \<noteq> 2 \<and> a \<noteq> 4" "rev [0..<254]"]
    by (simp_all only: gf_inv_def)
qed

lemma gf_pow2523_ok:
  assumes "small i"
  shows "small (gf_pow2523 i)" "fv (gf_pow2523 i) = fv i ^ (2 ^ 252 - 3) mod p25519"
proof -
  have "foldl (\<lambda>e a. if a \<noteq> 1 then Suc (2 * e) else 2 * e) 1 (rev [0..<251]) = 2 ^ 252 - 3"
  proof -
    have "rev [0..<251] = rev [2..<2 + 249] @ [1, 0]"
      using upt_add_eq_append [of 0 2 249] by (simp add: upt_rec)
    then show ?thesis using exponent_ones [of 2 "\<lambda>a. a \<noteq> 1" 1 249] by simp
  qed
  then show "small (gf_pow2523 i)" "fv (gf_pow2523 i) = fv i ^ (2 ^ 252 - 3) mod p25519"
    using fv_power_fold [OF assms, of "\<lambda>a. a \<noteq> 1" "rev [0..<251]"]
    by (simp_all only: gf_pow2523_def)
qed

end
