(* ===== verification/Gf25519_Pack.thy ===== *)
theory Gf25519_Pack
  imports Gf25519_Field
begin

text \<open>
  Encoding of field elements: \<open>gf_pack\<close> writes the canonical 32 bytes of the residue, so \<open>gf_neq\<close>
  compares residues and \<open>gf_par\<close> reads the parity of the residue; \<open>gf_unpack\<close> reads a number and drops
  its top bit.
\<close>

section \<open>Conditional swap\<close>

lemma gf_cswap_prefix:
  assumes "length p = 16" "length q = 16" "n \<le> 16"
  defines "step \<equiv> \<lambda>m. (\<lambda>(p, q) i. let t = m AND (p ! i XOR q ! i) in (p[i := p ! i XOR t], q[i := q ! i XOR t]))"
  shows "foldl (step (0 :: w64)) (p, q) [0..<n] = (p, q)"
    and "foldl (step (- 1 :: w64)) (p, q) [0..<n] = (take n q @ drop n p, take n p @ drop n q)"
proof -
  show "foldl (step (0 :: w64)) (p, q) [0..<n] = (p, q)"
    by (induction n) (simp_all add: step_def)
  show "foldl (step (- 1 :: w64)) (p, q) [0..<n] = (take n q @ drop n p, take n p @ drop n q)"
    using assms(3)
  proof (induction n)
    case (Suc n)
    have swap: "a XOR (a XOR b) = b" "b XOR (a XOR b) = a" for a b :: w64
      by (simp_all add: xor.left_commute)
    have "(take n q @ drop n p)[n := q ! n] = take (Suc n) q @ drop (Suc n) p"
      "(take n p @ drop n q)[n := p ! n] = take (Suc n) p @ drop (Suc n) q"
      using assms(1,2) Suc.prems
      by (simp_all add: take_Suc_conv_app_nth list_update_append Cons_nth_drop_Suc [symmetric])
    then show ?case using Suc assms(1,2) by (simp add: step_def nth_append swap)
  qed simp
qed

lemma gf_cswap_ok:
  assumes "length p = 16" "length q = 16"
  shows "gf_cswap p q 0 = (p, q)" "gf_cswap p q 1 = (q, p)"
  using gf_cswap_prefix [OF assms, of 16] assms by (simp_all add: gf_cswap_def)

section \<open>Subtracting the modulus\<close>

definition p_limb :: "nat \<Rightarrow> int" where
  "p_limb j = (if j = 0 then 0xffed else if j < 15 then 0xffff else 0x7fff)"

lemma p_limbs: "(\<Sum>j<16. p_limb j * 65536 ^ j) = p25519"
  by (simp add: p_limb_def p25519_def eval_nat_numeral)

definition borrow_int :: "int list \<Rightarrow> int list \<Rightarrow> nat \<Rightarrow> int list" where
  "borrow_int ts m i =
     m[i := ts ! i - p_limb i + m ! (i - 1) div 65536, i - 1 := m ! (i - 1) mod 65536]"

lemma borrow_div: "-65536 \<le> x \<Longrightarrow> x < 65536 \<Longrightarrow> x div 65536 = (if x < 0 then -1 else 0)" for x :: int
  by (auto intro: div_pos_pos_trivial)

lemma div_mod_cases:
  obtains q r where "(x :: int) div 65536 = q" "x mod 65536 = r" "x = 65536 * q + r"
    "r div 65536 = 0" "r mod 65536 = r"
  using that [of "x div 65536" "x mod 65536"] by simp

lemma borrow_bit:
  assumes "-65536 \<le> x" "x < 65536"
  shows "signed_drop_bit 16 (of_int x :: w64) AND 1 = of_int (- (x div 65536))"
    and "(of_int x :: w64) AND 0xffff = of_int (x mod 65536)"
proof -
  have d: "x div 65536 = 0 \<or> x div 65536 = -1" using borrow_div [OF assms] by simp
  have "signed_drop_bit 16 (of_int x :: w64) = of_int (x div 2 ^ 16)"
    using assms by (intro shift_of_int) auto
  then show "signed_drop_bit 16 (of_int x :: w64) AND 1 = of_int (- (x div 65536))"
    using d by auto
  show "(of_int x :: w64) AND 0xffff = of_int (x mod 65536)"
    using and_of_int [of x 16] by simp
qed

lemma borrow_prefix:
  assumes ts: "length ts = 16" "\<forall>x\<in>set ts. 0 \<le> x \<and> x < 65536" and ms: "length ms = 16"
    and n: "1 \<le> n" "n \<le> 15"
  defines "m \<equiv> foldl (borrow_int ts) (ms[0 := ts ! 0 - 0xffed]) [1..<n]"
  shows "foldl (pack_borrow (map of_int ts)) (map of_int (ms[0 := ts ! 0 - 0xffed])) [1..<n] = map of_int m
    \<and> length m = 16 \<and> (\<forall>j<n - 1. 0 \<le> m ! j \<and> m ! j < 65536) \<and> -65536 \<le> m ! (n - 1) \<and> m ! (n - 1) < 65536
    \<and> (\<Sum>j<n. m ! j * 65536 ^ j) = (\<Sum>j<n. (ts ! j - p_limb j) * 65536 ^ j)"
  using n unfolding m_def
proof (induction n rule: nat_induct_at_least)
  case base
  have "0 \<le> ts ! 0 \<and> ts ! 0 < 65536" using ts by simp
  then show ?case using ms by (simp add: p_limb_def)
next
  case (Suc n)
  define a where "a = foldl (borrow_int ts) (ms[0 := ts ! 0 - 0xffed]) [1..<n]"
  let ?y = "a ! (n - 1)"
  have IH: "foldl (pack_borrow (map of_int ts)) (map of_int (ms[0 := ts ! 0 - 0xffed])) [1..<n] = map of_int a"
    "length a = 16" "\<forall>j<n - 1. 0 \<le> a ! j \<and> a ! j < 65536" "-65536 \<le> ?y" "?y < 65536"
    "(\<Sum>j<n. a ! j * 65536 ^ j) = (\<Sum>j<n. (ts ! j - p_limb j) * 65536 ^ j)"
    using Suc unfolding a_def by simp_all
  have n: "n < 15" "n \<noteq> 0" using Suc by simp_all
  have upt: "[1..<Suc n] = [1..<n] @ [n]" using Suc by simp
  have b: "foldl (borrow_int ts) (ms[0 := ts ! 0 - 0xffed]) [1..<Suc n] = borrow_int ts a n"
    unfolding upt by (simp add: a_def)
  have pl: "p_limb n = 0xffff" using n by (simp add: p_limb_def)
  have d: "?y div 65536 = 0 \<or> ?y div 65536 = -1" using borrow_div [OF IH(4,5)] by simp
  have tn: "0 \<le> ts ! n \<and> ts ! n < 65536" using ts n by simp
  have "pack_borrow (map of_int ts) (map of_int a) n = map of_int (borrow_int ts a n)"
    using n IH(2) ts(1) borrow_bit [OF IH(4,5)]
    by (simp add: pack_borrow_def borrow_int_def Let_def map_update pl)
  moreover have "(\<Sum>j<Suc n. borrow_int ts a n ! j * 65536 ^ j) = (\<Sum>j<Suc n. (ts ! j - p_limb j) * 65536 ^ j)"
  proof -
    obtain k where k: "n = Suc k" using n by (cases n) auto
    obtain q r where qr: "a ! k div 65536 = q" "a ! k mod 65536 = r" "a ! k = 65536 * q + r"
        "r div 65536 = 0" "r mod 65536 = r"
      by (rule div_mod_cases)
    show ?thesis using IH(2,6) n unfolding k borrow_int_def
      by (simp add: qr algebra_simps)
  qed
  moreover have "length (borrow_int ts a n) = 16" using IH(2) by (simp add: borrow_int_def)
  moreover have "\<forall>j<Suc n - 1. 0 \<le> borrow_int ts a n ! j \<and> borrow_int ts a n ! j < 65536"
  proof (intro allI impI)
    fix j assume "j < Suc n - 1"
    then consider "j = n - 1" | "j < n - 1" using n by linarith
    then show "0 \<le> borrow_int ts a n ! j \<and> borrow_int ts a n ! j < 65536"
      using IH(2,3) n by cases (simp_all add: borrow_int_def)
  qed
  moreover have "borrow_int ts a n ! (Suc n - 1) = ts ! n - 0xffff + ?y div 65536"
    using IH(2) n by (simp add: borrow_int_def pl)
  then have "-65536 \<le> borrow_int ts a n ! (Suc n - 1) \<and> borrow_int ts a n ! (Suc n - 1) < 65536"
    using d tn by auto
  moreover have "foldl (pack_borrow (map of_int ts)) (map of_int (ms[0 := ts ! 0 - 0xffed])) [1..<Suc n]
      = pack_borrow (map of_int ts) (map of_int a) n"
    unfolding upt foldl_append IH(1) by simp
  ultimately show ?case unfolding b by simp
qed

lemma lval_sum_16: "length os = 16 \<Longrightarrow> lval 65536 os = (\<Sum>j<16. os ! j * 65536 ^ j)"
  by (simp only: lval_sum)

lemma sum_last: "(\<Sum>j<n. f j) = (\<Sum>j<n - 1. f j) + f (n - 1)" if "0 < n" for f :: "nat \<Rightarrow> int"
  using that by (cases n) simp_all

lemmas sum_14 = sum_last [of 15, simplified] and sum_15 = sum_last [of 16, simplified]

lemma pack_round_int:
  assumes ts: "length ts = 16" "\<forall>x\<in>set ts. 0 \<le> x \<and> x < 65536" and ms: "length ms = 16"
  obtains ts' ms' where "pack_round (map of_int ts, map of_int ms) k = (map of_int ts', map of_int ms')"
    "length ts' = 16" "length ms' = 16" "\<forall>x\<in>set ts'. 0 \<le> x \<and> x < 65536"
    "lval 65536 ts' = (if p25519 \<le> lval 65536 ts then lval 65536 ts - p25519 else lval 65536 ts)"
proof -
  define a where "a = foldl (borrow_int ts) (ms[0 := ts ! 0 - 0xffed]) [1..<15]"
  have a: "foldl (pack_borrow (map of_int ts)) (map of_int (ms[0 := ts ! 0 - 0xffed])) [1..<15] = map of_int a"
    "length a = 16" "\<forall>j<14. 0 \<le> a ! j \<and> a ! j < 65536" "-65536 \<le> a ! 14" "a ! 14 < 65536"
    "(\<Sum>j<15. a ! j * 65536 ^ j) = (\<Sum>j<15. (ts ! j - p_limb j) * 65536 ^ j)"
    using borrow_prefix [OF ts ms, of 15] unfolding a_def by simp_all
  define y where "y = ts ! 15 - 0x7fff + a ! 14 div 65536"
  define m where "m = a[15 := y, 14 := a ! 14 mod 65536]"
  have m: "length m = 16" "\<forall>j<15. 0 \<le> m ! j \<and> m ! j < 65536" "m ! 15 = y"
    using a(2,3) by (auto simp: m_def nth_list_update less_Suc_eq)
  have t15: "0 \<le> ts ! 15 \<and> ts ! 15 < 65536" using ts by simp
  have y: "-65536 \<le> y" "y < 65536" using t15 borrow_div [OF a(4,5)] by (auto simp: y_def)
  have val: "(\<Sum>j<15. m ! j * 65536 ^ j) + y * 65536 ^ 15 = lval 65536 ts - p25519"
  proof -
    obtain q r where qr: "a ! 14 div 65536 = q" "a ! 14 mod 65536 = r" "a ! 14 = 65536 * q + r"
      "r div 65536 = 0" "r mod 65536 = r"
      by (rule div_mod_cases)
    have "(\<Sum>j<14. m ! j * 65536 ^ j) = (\<Sum>j<14. a ! j * 65536 ^ j)"
      using a(2) by (simp add: m_def)
    then have "(\<Sum>j<15. m ! j * 65536 ^ j) + y * 65536 ^ 15
        = (\<Sum>j<15. a ! j * 65536 ^ j) + (ts ! 15 - p_limb 15) * 65536 ^ 15"
      unfolding sum_14 using a(2) by (simp add: m_def y_def p_limb_def qr)
    moreover have "lval 65536 ts - p25519 = (\<Sum>j<15. (ts ! j - p_limb j) * 65536 ^ j) + (ts ! 15 - p_limb 15) * 65536 ^ 15"
      unfolding lval_sum_16 [OF ts(1)] p_limbs [symmetric] sum_15 left_diff_distrib sum_subtractf by simp
    ultimately show ?thesis using a(6) by simp
  qed
  define low where "low = (\<Sum>j<15. m ! j * 65536 ^ j)"
  have low: "0 \<le> low" "low < 65536 ^ 15"
  proof -
    have eq: "low = lval 65536 (take 15 m)" using m(1) by (simp add: low_def lval_sum)
    have "\<forall>x\<in>set (take 15 m). 0 \<le> x \<and> x < 65536" using m by (auto simp: in_set_conv_nth)
    then show "0 \<le> low" "low < 65536 ^ 15"
      using lval_digit_range [of 65536 "take 15 m"] m(1) unfolding eq by simp_all
  qed
  have sign: "p25519 \<le> lval 65536 ts \<longleftrightarrow> 0 \<le> y"
  proof
    assume "p25519 \<le> lval 65536 ts"
    then show "0 \<le> y" using val low unfolding low_def [symmetric] by simp
  next
    assume "0 \<le> y"
    then show "p25519 \<le> lval 65536 ts" using val low unfolding low_def [symmetric] by (simp add: algebra_simps)
  qed
  have upd: "(map of_int a)[15 := of_int y, 14 := of_int (a ! 14 mod 65536)] = (map of_int m :: gf)"
    by (simp add: m_def map_update)
  have round: "pack_round (map of_int ts, map of_int ms) k =
      gf_cswap (map of_int ts) (map of_int m) (1 - ucast (of_int (- (y div 65536)) :: w64))"
  proof -
    have "(map of_int ms)[0 := map of_int ts ! 0 - 0xffed] = (map of_int (ms[0 := ts ! 0 - 0xffed]) :: gf)"
      using ts(1) by (simp add: map_update)
    moreover have "map of_int ts ! 15 - 0x7fff - of_int (- (a ! 14 div 65536)) = (of_int y :: w64)"
      using ts(1) by (simp add: y_def)
    ultimately show ?thesis
      using a(1,2) borrow_bit [OF a(4,5)] borrow_bit [OF y] upd
      by (simp add: pack_round_def Let_def)
  qed
  show ?thesis
  proof (cases "0 \<le> y")
    case True
    have "y div 65536 = 0" using borrow_div [OF y] True by simp
    then have "pack_round (map of_int ts, map of_int ms) k = (map of_int m, map of_int ts)"
      unfolding round using ts(1) m(1) by (simp add: gf_cswap_ok)
    moreover have "lval 65536 m = lval 65536 ts - p25519"
      using val m(3) unfolding lval_sum_16 [OF m(1)] sum_15 by simp
    moreover have "0 \<le> x \<and> x < 65536" if "x \<in> set m" for x
    proof -
      from that obtain j where j: "j < 16" "x = m ! j" unfolding in_set_conv_nth m(1) by auto
      then consider "j < 15" | "j = 15" by linarith
      then show ?thesis using m(2,3) y True j(2) by cases simp_all
    qed
    ultimately show ?thesis using that [of m ts] ts m(1) sign True by simp
  next
    case False
    have "y div 65536 = -1" using borrow_div [OF y] False by simp
    then have "pack_round (map of_int ts, map of_int ms) k = (map of_int ts, map of_int m)"
      unfolding round using ts(1) m(1) by (simp add: gf_cswap_ok)
    then show ?thesis using that [of ts m] ts m(1) sign False by simp
  qed
qed

section \<open>Packing\<close>

lemma digits_0: "0 < n \<Longrightarrow> digits r n v ! 0 = v mod r"
  by (cases n) simp_all

lemma carried_digits:
  assumes "-38 \<le> V" "V \<le> 2 ^ 256 + 37"
  shows "\<forall>x\<in>set (carried V). 0 \<le> x \<and> x < 65536"
proof -
  let ?ds = "digits 65536 16 (V mod 2 ^ 256)"
  have dig: "\<forall>x\<in>set ?ds. 0 \<le> x \<and> x < 65536" using set_digits [of 65536 _ 16 "V mod 2 ^ 256"] by simp
  have d0: "?ds ! 0 = V mod 2 ^ 256 mod 65536" by (simp only: digits_0 zero_less_numeral)
  have "(-38) div 2 ^ 256 \<le> V div 2 ^ 256" "V div 2 ^ 256 \<le> (2 ^ 256 + 37) div 2 ^ 256"
    using assms by (auto intro!: zdiv_mono1)
  then have "-1 \<le> V div 2 ^ 256" "V div 2 ^ 256 \<le> 1" by simp_all
  then have "V div 2 ^ 256 = 0 \<or> V div 2 ^ 256 = 1 \<or> V div 2 ^ 256 = -1" by linarith
  then have "0 \<le> ?ds ! 0 + 38 * (V div 2 ^ 256) \<and> ?ds ! 0 + 38 * (V div 2 ^ 256) < 65536"
  proof (elim disjE)
    assume k: "V div 2 ^ 256 = 1"
    then have "V mod 2 ^ 256 = V - 2 ^ 256" using minus_mult_div_eq_mod [of V "2 ^ 256"] by simp
    moreover have "0 \<le> V mod 2 ^ 256" by simp
    ultimately show ?thesis using assms unfolding d0 k by simp
  next
    assume k: "V div 2 ^ 256 = -1"
    then have v: "V mod 2 ^ 256 = V + 2 ^ 256" using minus_mult_div_eq_mod [of V "2 ^ 256"] by simp
    have "V < 0"
    proof (rule ccontr)
      assume "\<not> V < 0"
      then have "0 \<le> V div 2 ^ 256" by (simp add: pos_imp_zdiv_nonneg_iff)
      then show False by (simp only: k)
    qed
    have "V + 2 ^ 256 = (V + 65536) + 65536 * (2 ^ 240 - 1)" by simp
    then have "(V + 2 ^ 256) mod 65536 = (V + 65536) mod 65536" by (simp only: mod_mult_self2)
    also have "\<dots> = V + 65536" using assms(1) \<open>V < 0\<close> by (intro mod_pos_pos_trivial) simp_all
    finally have "?ds ! 0 = V + 65536" using d0 v by (simp only:)
    then show ?thesis using assms(1) \<open>V < 0\<close> unfolding k by linarith
  next
    assume k: "V div 2 ^ 256 = 0"
    then show ?thesis unfolding d0 k by simp
  qed
  moreover have "x = ?ds ! 0 + 38 * (V div 2 ^ 256) \<or> x \<in> set ?ds" if "x \<in> set (carried V)" for x
    using that set_update_subset_insert [of ?ds 0] unfolding carried_def Let_def by blast
  ultimately show ?thesis using dig by blast
qed

lemma three_carries:
  assumes "fits (2 ^ 22) a"
  obtains ts where "gf_car (gf_car (gf_car a)) = map of_int ts" "length ts = 16"
    "\<forall>x\<in>set ts. 0 \<le> x \<and> x < 65536" "lval 65536 ts mod p25519 = fv a"
proof -
  obtain x where x: "a = map of_int x" "length x = 16" "\<forall>v\<in>set x. \<bar>v\<bar> \<le> 2 ^ 60" "gnum a = lval 65536 x"
    using fits_mono [OF assms, of "2 ^ 60"] by (auto elim: fits_ints)
  have "\<bar>lval 65536 x\<bar> \<le> 2 ^ 60 * 2 ^ 241" by (rule lval_limbs_bound [OF x(2,3)]) simp
  then have V: "\<bar>lval 65536 x\<bar> \<le> 2 ^ 305" by simp
  let ?V1 = "fold256 (lval 65536 x)"
  note two = two_carries [OF x(2,3)]
  have "gf_car (map of_int (carried ?V1)) = map of_int (carried (fold256 ?V1))"
    using gf_car_int [of "carried ?V1"] two(2) by (force simp: lval_carried)
  then have car: "gf_car (gf_car (gf_car a)) = map of_int (carried (fold256 ?V1))"
    using two(1) by (simp add: x(1))
  have "\<bar>?V1 div 2 ^ 256\<bar> \<le> 1" by (rule fold256_small(2) [OF V])
  moreover have "0 \<le> ?V1 mod 2 ^ 256" "?V1 mod 2 ^ 256 < 2 ^ 256" by simp_all
  ultimately have "-38 \<le> fold256 ?V1" "fold256 ?V1 \<le> 2 ^ 256 + 37"
    unfolding fold256_def [of ?V1] by linarith+
  then have dig: "\<forall>x\<in>set (carried (fold256 ?V1)). 0 \<le> x \<and> x < 65536" by (rule carried_digits)
  have "lval 65536 (carried (fold256 ?V1)) mod p25519 = fv a"
    by (simp add: lval_carried fold256_mod fv_def x(4))
  with car dig show ?thesis by (intro that) simp_all
qed

lemma le_num_digits:
  assumes "\<forall>x\<in>set ds. 0 \<le> x \<and> x < 65536"
  shows "le_num (concat (map (\<lambda>d. [of_int d, of_int (d div 256)]) ds)) = nat (lval 65536 ds)"
  using assms
proof (induction ds)
  case (Cons d ds)
  have pos: "0 \<le> lval 65536 ds" using lval_digit_range(1) [of 65536 ds] Cons.prems by simp
  have d: "0 \<le> d" "d < 65536" using Cons.prems by simp_all
  have "unat (of_int d :: byte) = nat (d mod 256)" "unat (of_int (d div 256) :: byte) = nat (d div 256)"
    using d by (simp_all add: unat_eq_nat_uint take_bit_eq_mod unsigned_of_int)
  moreover have "nat (d mod 256) + 256 * nat (d div 256) = nat d"
    using d by (simp add: nat_mod_distrib nat_div_distrib)
  ultimately show ?case
    using Cons d pos by (simp add: nat_add_distrib nat_mult_distrib)
qed simp

lemma byte_of_limb:
  assumes "0 \<le> d" "d < 65536"
  shows "(ucast (of_int d :: w64) :: byte) = of_int d"
    and "(ucast (signed_drop_bit 8 (of_int d :: w64)) :: byte) = of_int (d div 256)"
proof -
  have b: "(ucast (of_int x :: w64) :: byte) = of_int x" for x
    by (rule bit_word_eqI) (auto simp: bit_simps)
  then show "(ucast (of_int d :: w64) :: byte) = of_int d" by simp
  have "signed_drop_bit 8 (of_int d :: w64) = of_int (d div 2 ^ 8)"
    using assms by (intro shift_of_int) auto
  then show "(ucast (signed_drop_bit 8 (of_int d :: w64)) :: byte) = of_int (d div 256)"
    by (simp add: b)
qed

lemma gf_pack_ok:
  assumes "fits (2 ^ 22) a"
  shows "length (gf_pack a) = 32" "int (le_num (gf_pack a)) = fv a"
proof -
  obtain ts where ts: "gf_car (gf_car (gf_car a)) = map of_int ts" "length ts = 16"
    "\<forall>x\<in>set ts. 0 \<le> x \<and> x < 65536" "lval 65536 ts mod p25519 = fv a"
    by (rule three_carries [OF assms])
  obtain t1 m1 where one: "pack_round (map of_int ts, map of_int (replicate 16 0)) 0 = (map of_int t1, map of_int m1)"
    "length t1 = 16" "length m1 = 16" "\<forall>x\<in>set t1. 0 \<le> x \<and> x < 65536"
    "lval 65536 t1 = (if p25519 \<le> lval 65536 ts then lval 65536 ts - p25519 else lval 65536 ts)"
    by (rule pack_round_int [OF ts(2,3), of "replicate 16 0" 0]) auto
  obtain t2 m2 where two: "pack_round (map of_int t1, map of_int m1) 1 = (map of_int t2, map of_int m2)"
    "length t2 = 16" "length m2 = 16" "\<forall>x\<in>set t2. 0 \<le> x \<and> x < 65536"
    "lval 65536 t2 = (if p25519 \<le> lval 65536 t1 then lval 65536 t1 - p25519 else lval 65536 t1)"
    by (rule pack_round_int [OF one(2,4,3)]) auto
  have range: "0 \<le> lval 65536 ts" "lval 65536 ts < 2 ^ 256"
    using lval_digit_range [of 65536 ts] ts(2,3) by simp_all
  have value_t2: "lval 65536 t2 = fv a"
  proof -
    have "0 \<le> lval 65536 t2" "lval 65536 t2 < p25519"
      using range unfolding two(5) one(5) by (auto simp: p25519_def split: if_splits)
    moreover have "\<exists>k. lval 65536 ts = lval 65536 t2 + k * p25519"
      unfolding two(5) one(5) by (cases "p25519 \<le> lval 65536 ts"; cases "2 * p25519 \<le> lval 65536 ts")
        (auto intro: exI [of _ 0] exI [of _ 1] exI [of _ 2])
    ultimately show ?thesis using ts(4) by (metis mod_mult_self1 mod_pos_pos_trivial)
  qed
  have "foldl pack_round (map of_int ts, replicate 16 0) [0..<2] = (map of_int t2, map of_int m2)"
    using one(1) two(1) by (simp add: upt_rec)
  then have "gf_pack a = concat (map (\<lambda>i. [ucast (map of_int t2 ! i :: w64), ucast (signed_drop_bit 8 (map of_int t2 ! i :: w64))]) [0..<16])"
    by (simp add: gf_pack_def Let_def ts(1))
  also have "\<dots> = concat (map (\<lambda>i. [of_int (t2 ! i), of_int (t2 ! i div 256)]) [0..<16])"
    using two(2,4) by (intro arg_cong [of _ _ concat] map_cong) (auto simp: byte_of_limb)
  also have "\<dots> = concat (map (\<lambda>d. [of_int d, of_int (d div 256)]) t2)"
  proof -
    have "map (\<lambda>d. [of_int d :: byte, of_int (d div 256)]) (map ((!) t2) [0..<16]) = map (\<lambda>d. [of_int d, of_int (d div 256)]) t2"
      using map_nth [of t2] two(2) by simp
    then show ?thesis by (simp add: comp_def)
  qed
  finally have pack: "gf_pack a = concat (map (\<lambda>d. [of_int d, of_int (d div 256)]) t2)" .
  then show "length (gf_pack a) = 32" using two(2) by (simp add: length_concat comp_def sum_list_triv)
  show "int (le_num (gf_pack a)) = fv a"
    unfolding pack le_num_digits [OF two(4)] value_t2 by (simp add: fv_def p25519_def)
qed

section \<open>Comparison, parity and unpacking\<close>

lemma fold_or_zero:
  fixes f :: "nat \<Rightarrow> 'a::len word"
  shows "foldl (\<lambda>r i. r OR f i) 0 ks = 0 \<longleftrightarrow> (\<forall>i\<in>set ks. f i = 0)"
proof (induction ks rule: rev_induct)
  case (snoc k ks)
  then show ?case by (auto simp: or_eq_0_iff)
qed simp

lemma xor_zero_iff: "a XOR b = 0 \<longleftrightarrow> a = b" for a b :: "'a::len word"
  by (metis xor.assoc xor.left_neutral xor.right_neutral xor_self_eq)

lemma gf_neq_ok:
  assumes "fits (2 ^ 22) a" "fits (2 ^ 22) b"
  shows "gf_neq a b \<longleftrightarrow> fv a \<noteq> fv b"
proof -
  note a = gf_pack_ok [OF assms(1)] and b = gf_pack_ok [OF assms(2)]
  have "gf_neq a b \<longleftrightarrow> \<not> (\<forall>i<32. gf_pack a ! i XOR gf_pack b ! i = 0)"
    by (auto simp: gf_neq_def Let_def fold_or_zero)
  also have "\<dots> \<longleftrightarrow> gf_pack a \<noteq> gf_pack b"
    using a(1) b(1) by (auto simp: list_eq_iff_nth_eq xor_zero_iff)
  also have "\<dots> \<longleftrightarrow> fv a \<noteq> fv b"
    using a b le_num_inject [of "gf_pack a" "gf_pack b"] by auto
  finally show ?thesis .
qed

lemma byte_parity: "b AND 1 = (if odd (unat b) then 1 else 0)" for b :: byte
proof -
  have "odd (unat b) \<longleftrightarrow> odd b" unfolding bit_0 [symmetric] by (simp add: bit_unsigned_iff del: bit_0)
  then show ?thesis by (simp add: and_one_eq mod2_eq_if)
qed

lemma le_num_parity: "0 < length bs \<Longrightarrow> odd (le_num bs) \<longleftrightarrow> bs ! 0 AND 1 = 1"
  by (cases bs) (simp_all add: byte_parity)

lemma gf_par_ok:
  assumes "fits (2 ^ 22) a"
  shows "gf_par a = (if odd (fv a) then 1 else 0)"
proof -
  have "odd (fv a) \<longleftrightarrow> odd (le_num (gf_pack a))"
    using gf_pack_ok(2) [OF assms] by (metis even_of_nat)
  also have "\<dots> \<longleftrightarrow> gf_pack a ! 0 AND 1 = 1" using gf_pack_ok(1) [OF assms] by (intro le_num_parity) simp
  finally show ?thesis by (simp add: gf_par_def byte_parity)
qed

lemma lval_byte_pairs:
  assumes "length n = 2 * k"
  shows "lval 65536 (map (\<lambda>i. uint (n ! (2 * i)) + 256 * uint (n ! (2 * i + 1))) [0..<k]) = int (le_num n)"
  using assms
proof (induction k arbitrary: n)
  case (Suc k)
  then obtain a b r where n: "n = a # b # r" "length r = 2 * k"
    by (cases n; cases "tl n") auto
  have "[0..<Suc k] = 0 # map Suc [0..<k]" by (simp add: upt_conv_Cons map_Suc_upt del: upt_Suc)
  then show ?case using Suc.IH [OF n(2)] by (simp add: n comp_def)
qed simp

lemma gf_unpack_ok:
  assumes "length n = 32"
  shows "small (gf_unpack n)" "gnum (gf_unpack n) = int (le_num n) mod 2 ^ 255"
proof -
  define os where "os = map (\<lambda>i. uint (n ! (2 * i)) + 256 * uint (n ! (2 * i + 1))) [0..<16]"
  have os: "length os = 16" by (simp add: os_def)
  have ub: "0 \<le> uint b \<and> uint b < 256" for b :: byte using uint_lt2p [of b] by simp
  have bound: "0 \<le> os ! i \<and> os ! i < 65536" if "i < 16" for i
    using ub [of "n ! (2 * i)"] ub [of "n ! (2 * i + 1)"] that by (simp add: os_def)
  have V: "lval 65536 os = int (le_num n)" unfolding os_def by (rule lval_byte_pairs) (simp add: assms)
  have word: "map (\<lambda>i. ucast (n ! (2 * i)) + push_bit 8 (ucast (n ! (2 * i + 1)))) [0..<16] = (map of_int os :: gf)"
    by (simp add: os_def comp_def push_bit_eq_mult)
  define o2 where "o2 = os[15 := os ! 15 mod 32768]"
  have unpack: "gf_unpack n = map of_int o2"
    using os and_of_int [of "os ! 15" 15] unfolding gf_unpack_def Let_def word
    by (simp add: o2_def map_update)
  have o2: "length o2 = 16" "\<forall>x\<in>set o2. 0 \<le> x \<and> x < 65536"
  proof -
    have "os ! 15 mod 32768 < 32768" by (rule pos_mod_bound) simp
    then have "os ! 15 mod 32768 < 65536" by (rule less_trans) simp
    then show "\<forall>x\<in>set o2. 0 \<le> x \<and> x < 65536"
      using os bound by (auto simp: o2_def in_set_conv_nth nth_list_update)
  qed (simp add: os o2_def)
  have bound2: "\<forall>x\<in>set o2. \<bar>x\<bar> \<le> 65573" using o2(2) by force
  show "small (gf_unpack n)" unfolding unpack by (rule ints_fits(1) [OF o2(1) bound2]) simp
  have g: "gnum (gf_unpack n) = lval 65536 o2" unfolding unpack by (rule ints_fits(2) [OF o2(1) bound2]) simp
  have "lval 65536 o2 = lval 65536 os + (os ! 15 mod 32768 - os ! 15) * 65536 ^ 15"
    using os by (simp add: o2_def lval_update)
  also have "os ! 15 mod 32768 - os ! 15 = - (32768 * (os ! 15 div 32768))"
    by (simp add: minus_mult_div_eq_mod [symmetric])
  finally have eq: "lval 65536 os = lval 65536 o2 + 2 ^ 255 * (os ! 15 div 32768)" by simp
  have "o2 = take 15 o2 @ [os ! 15 mod 32768]"
    using take_Suc_conv_app_nth [of 15 o2] o2(1) os by (simp add: o2_def)
  then have "lval 65536 o2 = lval 65536 (take 15 o2 @ [os ! 15 mod 32768])" by (rule arg_cong)
  then have split: "lval 65536 o2 = lval 65536 (take 15 o2) + 65536 ^ 15 * (os ! 15 mod 32768)"
    using o2(1) by (simp add: lval_append)
  have "0 \<le> lval 65536 (take 15 o2)" "lval 65536 (take 15 o2) < 65536 ^ 15"
    using lval_digit_range [of 65536 "take 15 o2"] o2 by (auto dest: in_set_takeD)
  moreover have "0 \<le> os ! 15 mod 32768" "os ! 15 mod 32768 \<le> 32767" by simp_all
  moreover have "0 \<le> a + 65536 ^ 15 * b \<and> a + 65536 ^ 15 * b < 2 ^ 255"
    if "0 \<le> a" "a < 65536 ^ 15" "0 \<le> b" "b \<le> 32767" for a b :: int
    using that by simp
  ultimately have "0 \<le> lval 65536 o2" "lval 65536 o2 < 2 ^ 255" unfolding split by blast+
  then have "int (le_num n) mod 2 ^ 255 = lval 65536 o2"
    unfolding V [symmetric] eq by (simp only: mod_mult_self2 mod_pos_pos_trivial)
  then show "gnum (gf_unpack n) = int (le_num n) mod 2 ^ 255" by (simp only: g)
qed

section \<open>Constants\<close>

lemma constants_small: "small kGf0" "small kGf1" "small kD" "small kD2" "small kI" "small kBX" "small kBY"
  by (simp_all add: fits_def kGf0_def kGf1_def kD_def kD2_def kI_def kBX_def kBY_def)

text \<open>
  C11. The field arithmetic of the signature check is exact arithmetic modulo \<open>2 ^ 255 - 19\<close>: while limbs
  stay within 22 bits no 64-bit operation overflows, a product comes back with limbs of 16 bits and a
  little, sums and differences grow by one bit, and packing gives the canonical 32 bytes.
\<close>
theorem gf_arithmetic_exact:
  assumes "fits (2 ^ 22) a" "fits (2 ^ 22) b"
  shows "fits 65573 (gf_mul a b) \<and> fv (gf_mul a b) = fv a * fv b mod p25519
    \<and> fits (2 ^ 23) (gf_add a b) \<and> fv (gf_add a b) = (fv a + fv b) mod p25519
    \<and> fits (2 ^ 23) (gf_sub a b) \<and> fv (gf_sub a b) = (fv a - fv b) mod p25519
    \<and> gf_pack a = le_bytes 32 (nat (fv a)) \<and> (gf_neq a b \<longleftrightarrow> fv a \<noteq> fv b)"
proof -
  note p = gf_pack_ok [OF assms(1)]
  have "le_num (gf_pack a) = nat (fv a)" using p(2) by simp
  moreover have "le_num (gf_pack a) < 256 ^ 32" using le_num_less [of "gf_pack a"] p(1) by simp
  ultimately have "le_num (gf_pack a) = le_num (le_bytes 32 (nat (fv a)))" by (simp add: le_num_le_bytes)
  then have "gf_pack a = le_bytes 32 (nat (fv a))" using p(1) by (intro le_num_inject) (simp_all add: le_bytes_def)
  then show ?thesis
    using gf_mul_ok [OF assms] gf_add_ok [OF assms] gf_sub_ok [OF assms] gf_neq_ok [OF assms] by simp
qed

theorem gf_arithmetic_exact_witness:
  "fv (gf_mul kI kI) = p25519 - 1 \<and> gf_neq (gf_mul kI kI) kGf1 \<and> gf_pack kGf1 = 1 # replicate 31 0"
proof -
  have f: "fits (2 ^ 22) kI" "fits (2 ^ 22) kGf1" by (rule fits_mono [OF constants_small(5)] fits_mono [OF constants_small(2)], simp)+
  have "gnum kI = 19681161376707505956807079304988542015446066515923890162744021073123829784752"
    by (simp add: gnum_def kI_def)
  then have "fv kI * fv kI mod p25519 = p25519 - 1" by (simp add: fv_def p25519_def)
  then have m: "fv (gf_mul kI kI) = p25519 - 1" using gf_arithmetic_exact [OF f(1) f(1)] by simp
  have "gnum kGf1 = 1" by (simp add: gnum_def kGf1_def map_replicate)
  then have one: "fv kGf1 = 1" by (simp add: fv_def p25519_def)
  have "fits (2 ^ 22) (gf_mul kI kI)" by (rule fits_mono [of 65573]) (simp_all add: gf_arithmetic_exact [OF f(1) f(1)])
  then have "gf_neq (gf_mul kI kI) kGf1"
    using gf_arithmetic_exact [OF _ f(2), of "gf_mul kI kI"] m one by (simp add: p25519_def)
  moreover have "gf_pack kGf1 = le_bytes 32 1" using gf_arithmetic_exact [OF f(2) f(2)] one by simp
  moreover have "le_bytes 32 1 = 1 # replicate 31 0"
    by (rule le_num_inject) (simp_all add: le_num_le_bytes, simp add: le_bytes_def)
  ultimately show ?thesis using m by simp
qed

end
