(* ===== verification/Ed25519_Points.thy ===== *)
theory Ed25519_Points
  imports Ed25519 Gf25519_Pack
begin

text \<open>
  What the point routines of \<open>ed25519.hpp\<close> compute: the extended-coordinate formulas of RFC 8032 over
  the integers modulo \<open>2 ^ 255 - 19\<close>. Addition, the ladder, decoding with negation and encoding are
  stated over residues, without limbs, carries or conditional swaps, and the routines are shown to
  compute them; every limb of every intermediate value stays small.
\<close>

section \<open>The curve over residues\<close>

type_synonym epoint = "int \<times> int \<times> int \<times> int"

definition ed_d :: int where
  "ed_d = 37095705934669439343138083508754565189542113879843219016388785533085940283555"

definition ed_i :: int where
  "ed_i = 19681161376707505956807079304988542015446066515923890162744021073123829784752"

definition ed_bx :: int where
  "ed_bx = 15112221349535400772501151409588531511454012693041857206046113283949847762202"

definition ed_by :: int where
  "ed_by = 46316835694926478169428394003475163141307993866256225615783033603165251855960"

definition ed_zero :: epoint where
  "ed_zero = (0, 1, 1, 0)"

definition ed_base :: epoint where
  "ed_base = (ed_bx, ed_by, 1, ed_bx * ed_by mod p25519)"

definition ed_add :: "epoint \<Rightarrow> epoint \<Rightarrow> epoint" where
  "ed_add p q =
     (case p of (x1, y1, z1, t1) \<Rightarrow> case q of (x2, y2, z2, t2) \<Rightarrow>
      let a = (y1 - x1) * (y2 - x2) mod p25519;
          b = (x1 + y1) * (x2 + y2) mod p25519;
          c = t1 * t2 * (2 * ed_d) mod p25519;
          d = 2 * z1 * z2 mod p25519;
          e = b - a; f = d - c; g = d + c; h = b + a
      in (e * f mod p25519, h * g mod p25519, g * f mod p25519, e * h mod p25519))"

text \<open>The multiples \<open>n\<close> and \<open>n + 1\<close> of a point, from the lowest \<open>k\<close> bits of \<open>n\<close>.\<close>

fun ed_pair :: "nat \<Rightarrow> nat \<Rightarrow> epoint \<Rightarrow> epoint \<times> epoint" where
  "ed_pair 0 n q = (ed_zero, q)"
| "ed_pair (Suc k) n q =
     (case ed_pair k (n div 2) q of (p, r) \<Rightarrow>
        if even n then (ed_add p p, ed_add p r) else (ed_add p r, ed_add r r))"

definition ed_mul :: "nat \<Rightarrow> epoint \<Rightarrow> epoint" where
  "ed_mul n q = fst (ed_pair 256 n q)"

text \<open>
  RFC 8032, 5.1.3, with the sign of \<open>x\<close> chosen so that the result is the negated point. Unlike the
  RFC, the code does not reject \<open>y \<ge> p\<close>, nor \<open>x = 0\<close> with the sign bit set.
\<close>

definition ed_root :: "int \<Rightarrow> int \<Rightarrow> int option" where
  "ed_root u v =
     (let x = u * v ^ 3 * (u * v ^ 7) ^ (2 ^ 252 - 3) mod p25519; w = v * x ^ 2 mod p25519 in
      if w = u mod p25519 then Some x
      else if w = (- u) mod p25519 then Some (x * ed_i mod p25519)
      else None)"

definition ed_decode_neg :: "byte list \<Rightarrow> epoint option" where
  "ed_decode_neg bs =
     (let n = le_num bs; y = int n mod 2 ^ 255 mod p25519 in
      case ed_root (y ^ 2 - 1) (ed_d * y ^ 2 + 1) of
        None \<Rightarrow> None
      | Some x \<Rightarrow>
          let x' = (if odd x \<longleftrightarrow> bit n 255 then (- x) mod p25519 else x)
          in Some (x', y, 1, x' * y mod p25519))"

fun ed_encode :: "epoint \<Rightarrow> byte list" where
  "ed_encode (x, y, z, t) =
     (let zi = z ^ (2 ^ 255 - 21) mod p25519
      in le_bytes 32 (nat (y * zi mod p25519 + 2 ^ 255 * (x * zi mod p25519 mod 2))))"

lemma ed_add_commute: "ed_add p q = ed_add q p"
  by (cases p; cases q) (simp add: ed_add_def Let_def mult.commute mult.left_commute add.commute)

section \<open>Constants\<close>

lemma fv_constants:
  "fv kGf0 = 0" "fv kGf1 = 1" "fv kD = ed_d" "fv kD2 = 2 * ed_d mod p25519" "fv kI = ed_i"
  "fv kBX = ed_bx" "fv kBY = ed_by"
proof -
  show "fv kGf0 = 0" by (simp add: fv_def gnum_def kGf0_def map_replicate)
  show "fv kGf1 = 1" by (simp add: fv_def gnum_def kGf1_def map_replicate p25519_def)
qed (simp_all add: fv_def gnum_def kD_def kD2_def kI_def kBX_def kBY_def p25519_def
    ed_d_def ed_i_def ed_bx_def ed_by_def)

lemma ed_i_square: "ed_i * ed_i mod p25519 = (-1) mod p25519"
  by (simp add: ed_i_def p25519_def)

lemma ed_d_fraction: "(121666 * ed_d + 121665) mod p25519 = 0"
  by (simp add: ed_d_def p25519_def)

lemma p25519_pos: "0 < p25519"
  by (simp add: p25519_def)

lemma fv_mod [simp]: "fv a mod p25519 = fv a"
  by (simp add: fv_def)

lemma fv_range: "0 \<le> fv a" "fv a < p25519"
  using p25519_pos by (simp_all add: fv_def)

section \<open>Addition\<close>

fun pt_small :: "gfpoint \<Rightarrow> bool" where
  "pt_small (x, y, z, t) \<longleftrightarrow> small x \<and> small y \<and> small z \<and> small t"

fun pv :: "gfpoint \<Rightarrow> epoint" where
  "pv (x, y, z, t) = (fv x, fv y, fv z, fv t)"

lemma small_sum:
  assumes "small a" "small b"
  shows "fits 131146 (gf_add a b)" "fits 131146 (gf_sub a b)"
    "fv (gf_add a b) = (fv a + fv b) mod p25519" "fv (gf_sub a b) = (fv a - fv b) mod p25519"
  using gf_add_ok [OF assms] gf_sub_ok [OF assms] by simp_all

lemma mul_wide:
  assumes "fits M a" "fits N b" "M \<le> 2 ^ 22" "N \<le> 2 ^ 22"
  shows "small (gf_mul a b)" "fv (gf_mul a b) = fv a * fv b mod p25519"
  using gf_mul_ok [OF fits_mono [OF assms(1,3)] fits_mono [OF assms(2,4)]] .

lemma pt_add_ok:
  assumes "pt_small p" "pt_small q"
  shows "pt_small (pt_add p q)" "pv (pt_add p q) = ed_add (pv p) (pv q)"
proof -
  obtain p0 p1 p2 p3 where p: "p = (p0, p1, p2, p3)" by (cases p)
  obtain q0 q1 q2 q3 where q: "q = (q0, q1, q2, q3)" by (cases q)
  have s: "small p0" "small p1" "small p2" "small p3" "small q0" "small q1" "small q2" "small q3"
    using assms by (simp_all add: p q)
  define a where "a = gf_mul (gf_sub p1 p0) (gf_sub q1 q0)"
  define b where "b = gf_mul (gf_add p0 p1) (gf_add q0 q1)"
  define c where "c = gf_mul (gf_mul p3 q3) kD2"
  define d0 where "d0 = gf_mul p2 q2"
  define d where "d = gf_add d0 d0"
  have a: "small a" "fv a = (fv p1 - fv p0) * (fv q1 - fv q0) mod p25519"
    unfolding a_def using s mul_wide [OF small_sum(2) small_sum(2), of p1 p0 q1 q0]
    by (simp_all add: small_sum mod_mult_eq)
  have b: "small b" "fv b = (fv p0 + fv p1) * (fv q0 + fv q1) mod p25519"
    unfolding b_def using s mul_wide [OF small_sum(1) small_sum(1), of p0 p1 q0 q1]
    by (simp_all add: small_sum mod_mult_eq)
  have c: "small c" "fv c = fv p3 * fv q3 * (2 * ed_d) mod p25519"
    unfolding c_def using s constants_small
    by (simp_all add: small_mul fv_small_mul fv_constants mod_mult_eq)
  have d0: "small d0" "fv d0 = fv p2 * fv q2 mod p25519"
    unfolding d0_def using s by (simp_all add: small_mul fv_small_mul)
  have d: "fits 131146 d" "fv d = 2 * fv p2 * fv q2 mod p25519"
    unfolding d_def using small_sum [OF d0(1) d0(1)] d0(2) by (simp_all add: mod_mult_right_eq mult.assoc)
  have e: "fits 131146 (gf_sub b a)" "fv (gf_sub b a) = (fv b - fv a) mod p25519"
    and h: "fits 131146 (gf_add b a)" "fv (gf_add b a) = (fv b + fv a) mod p25519"
    using small_sum [OF b(1) a(1)] by simp_all
  have f: "fits 196719 (gf_sub d c)" "fv (gf_sub d c) = (fv d - fv c) mod p25519"
    using gf_sub_ok [OF d(1) c(1)] by simp_all
  have g: "fits 196719 (gf_add d c)" "fv (gf_add d c) = (fv d + fv c) mod p25519"
    using gf_add_ok [OF d(1) c(1)] by simp_all
  have eq: "pt_add p q = (gf_mul (gf_sub b a) (gf_sub d c), gf_mul (gf_add b a) (gf_add d c),
      gf_mul (gf_add d c) (gf_sub d c), gf_mul (gf_sub b a) (gf_add b a))"
    by (simp add: p q Let_def a_def b_def c_def d_def d0_def)
  note m = mul_wide [OF e(1) f(1)] mul_wide [OF h(1) g(1)] mul_wide [OF g(1) f(1)] mul_wide [OF e(1) h(1)]
  show "pt_small (pt_add p q)" unfolding eq using m by simp
  show "pv (pt_add p q) = ed_add (pv p) (pv q)"
    unfolding eq using m
    by (simp add: p q ed_add_def Let_def e(2) f(2) g(2) h(2) mod_mult_eq a(2) [symmetric] b(2) [symmetric]
        c(2) [symmetric] d(2) [symmetric])
qed

section \<open>The ladder\<close>

lemma pt_cswap_ok:
  assumes "pt_small p" "pt_small q"
  shows "pt_cswap p q 0 = (p, q)" "pt_cswap p q 1 = (q, p)"
  using assms by (cases p; cases q; simp add: gf_cswap_ok fits_def)+

lemma scalar_bit_ok:
  assumes "i < 8 * length s"
  shows "scalar_bit s i = (if bit (le_num s) i then 1 else 0)"
proof -
  have "b AND 1 = (if bit b 0 then 1 else 0)" for b :: byte by (simp add: and_one_eq mod2_eq_if bit_0)
  then show ?thesis using assms by (simp add: scalar_bit_def bit_le_num bit_drop_bit_eq)
qed

lemma ladder_step_ok:
  assumes "pt_small p" "pt_small q" "i < 8 * length s"
  shows "\<exists>p' q'. ladder_step s (p, q) i = (p', q') \<and> pt_small p' \<and> pt_small q' \<and>
    (pv p', pv q') = (if bit (le_num s) i then (ed_add (pv p) (pv q), ed_add (pv q) (pv q))
                      else (ed_add (pv p) (pv p), ed_add (pv p) (pv q)))"
proof (cases "bit (le_num s) i")
  case True
  then have "scalar_bit s i = 1" using scalar_bit_ok [OF assms(3)] by simp
  then have "ladder_step s (p, q) i = (pt_add p q, pt_add q q)"
    using assms(1,2) by (simp add: ladder_step_def Let_def pt_cswap_ok pt_add_ok(1))
  then show ?thesis using True assms(1,2) by (simp add: pt_add_ok)
next
  case False
  then have "scalar_bit s i = 0" using scalar_bit_ok [OF assms(3)] by simp
  then have "ladder_step s (p, q) i = (pt_add p p, pt_add q p)"
    using assms(1,2) by (simp add: ladder_step_def Let_def pt_cswap_ok pt_add_ok(1))
  then show ?thesis using False assms(1,2) by (simp add: pt_add_ok ed_add_commute [of "pv q"])
qed

lemma ladder_prefix:
  assumes "pt_small q" "length s = 32" "k \<le> 256"
  shows "\<exists>p' q'. foldl (ladder_step s) ((kGf0, kGf1, kGf1, kGf0), q) (rev [256 - k..<256]) = (p', q')
    \<and> pt_small p' \<and> pt_small q' \<and> (pv p', pv q') = ed_pair k (le_num s div 2 ^ (256 - k)) (pv q)"
  using assms(3)
proof (induction k)
  case 0
  then show ?case using assms(1) constants_small by (simp add: fv_constants ed_zero_def)
next
  case (Suc k)
  let ?i = "255 - k"
  obtain p' q' where IH: "foldl (ladder_step s) ((kGf0, kGf1, kGf1, kGf0), q) (rev [256 - k..<256]) = (p', q')"
    "pt_small p'" "pt_small q'" "(pv p', pv q') = ed_pair k (le_num s div 2 ^ (256 - k)) (pv q)"
    using Suc by auto
  have i: "256 - Suc k = ?i" "256 - k = Suc ?i" "?i < 256" using Suc.prems by simp_all
  then have "[?i..<256] = ?i # [256 - k..<256]" by (simp add: upt_conv_Cons)
  then have fold: "foldl (ladder_step s) ((kGf0, kGf1, kGf1, kGf0), q) (rev [256 - Suc k..<256])
      = ladder_step s (p', q') ?i"
    using IH(1) i(1) by simp
  have dv: "le_num s div 2 ^ ?i div 2 = le_num s div 2 ^ (256 - k)"
    unfolding i(2) power_Suc2 div_mult2_eq by (rule refl)
  have ev: "even (le_num s div 2 ^ ?i) \<longleftrightarrow> \<not> bit (le_num s) ?i" by (simp add: bit_iff_odd)
  have pos: "?i < 8 * length s" using assms(2) by simp
  obtain p2 q2 where step: "ladder_step s (p', q') ?i = (p2, q2)" "pt_small p2" "pt_small q2"
    "(pv p2, pv q2) = (if bit (le_num s) ?i then (ed_add (pv p') (pv q'), ed_add (pv q') (pv q'))
                      else (ed_add (pv p') (pv p'), ed_add (pv p') (pv q')))"
    using ladder_step_ok [OF IH(2,3) pos] by blast
  have "ed_pair (Suc k) (le_num s div 2 ^ (256 - Suc k)) (pv q) = (pv p2, pv q2)"
    unfolding step(4) i(1) ed_pair.simps dv IH(4) [symmetric] by (simp add: ev)
  then show ?case unfolding fold using step(1-3) by simp
qed

lemma pt_scalarmult_ok:
  assumes "pt_small q" "length s = 32"
  shows "pt_small (pt_scalarmult q s)" "pv (pt_scalarmult q s) = ed_mul (le_num s) (pv q)"
  using ladder_prefix [OF assms, of 256] by (auto simp: pt_scalarmult_def ed_mul_def dest: arg_cong [of _ _ fst])

lemma pt_scalarbase_ok:
  assumes "length s = 32"
  shows "pt_small (pt_scalarbase s)" "pv (pt_scalarbase s) = ed_mul (le_num s) ed_base"
  unfolding pt_scalarbase_def using assms constants_small
  by (simp_all add: pt_scalarmult_ok small_mul fv_small_mul fv_constants ed_base_def)

section \<open>Decoding\<close>

lemma mul_residue:
  assumes "fits M a" "fits N b" "M \<le> 2 ^ 22" "N \<le> 2 ^ 22" "fv a = x mod p25519" "fv b = y mod p25519"
  shows "small (gf_mul a b)" "fv (gf_mul a b) = x * y mod p25519"
  using mul_wide [OF assms(1-4)] by (simp_all add: assms(5,6) mod_mult_eq)

lemma small_residue:
  assumes "small a" "small b" "fv a = x mod p25519" "fv b = y mod p25519"
  shows "small (gf_mul a b)" "fv (gf_mul a b) = x * y mod p25519"
  using mul_residue [OF assms(1,2) _ _ assms(3,4)] by simp_all

lemma minus_one_square:
  "v * (x * ed_i mod p25519) ^ 2 mod p25519 = (- (v * x ^ 2)) mod p25519"
proof -
  have "v * (x * ed_i mod p25519) ^ 2 mod p25519 = v * (x * ed_i) ^ 2 mod p25519"
    by (metis mod_mult_right_eq power_mod)
  also have "v * (x * ed_i) ^ 2 = v * x ^ 2 * (ed_i * ed_i)" by (simp add: power2_eq_square)
  also have "\<dots> mod p25519 = v * x ^ 2 * (ed_i * ed_i mod p25519) mod p25519"
    by (rule mod_mult_right_eq [symmetric])
  also have "\<dots> = (v * x ^ 2 * (-1)) mod p25519" unfolding ed_i_square by (rule mod_mult_right_eq)
  finally show ?thesis by simp
qed

lemma pt_unpackneg_ok:
  assumes "length bs = 32"
  shows "case pt_unpackneg bs of
      None \<Rightarrow> ed_decode_neg bs = None
    | Some q \<Rightarrow> pt_small q \<and> ed_decode_neg bs = Some (pv q)"
proof -
  define y where "y = int (le_num bs) mod 2 ^ 255 mod p25519"
  define u v where "u = y ^ 2 - 1" and "v = ed_d * y ^ 2 + 1"
  define r1 where "r1 = gf_unpack bs"
  have r1: "small r1" "fv r1 = y mod p25519"
    using gf_unpack_ok [OF assms] by (simp_all add: r1_def fv_def y_def)
  define num0 where "num0 = gf_sq r1"
  have num0: "small num0" "fv num0 = y ^ 2 mod p25519"
    using small_residue [OF r1(1) r1(1) r1(2) r1(2)] by (simp_all add: num0_def gf_sq_def power2_eq_square)
  define den0 where "den0 = gf_mul num0 kD"
  have den0: "small den0" "fv den0 = y ^ 2 * ed_d mod p25519"
    using small_residue [OF num0(1) constants_small(3) num0(2), of ed_d]
    by (simp_all add: den0_def fv_constants) (simp_all add: ed_d_def p25519_def)
  define num where "num = gf_sub num0 kGf1"
  have num: "fits 131146 num" "fv num = u mod p25519"
    using small_sum [OF num0(1) constants_small(2)]
    by (simp_all add: num_def u_def num0(2) fv_constants mod_diff_left_eq)
  define den where "den = gf_add kGf1 den0"
  have den: "fits 131146 den" "fv den = v mod p25519"
    using small_sum [OF constants_small(2) den0(1)]
    by (simp_all add: den_def v_def den0(2) fv_constants mod_add_right_eq add.commute mult.commute)
  have den2: "small (gf_sq den)" "fv (gf_sq den) = v ^ 2 mod p25519"
    using mul_residue [OF den(1) den(1) _ _ den(2) den(2)] by (simp_all add: gf_sq_def power2_eq_square)
  have den4: "small (gf_sq (gf_sq den))" "fv (gf_sq (gf_sq den)) = v ^ 4 mod p25519"
    using small_residue [OF den2(1) den2(1) den2(2) den2(2)] by (simp_all add: gf_sq_def power_add [symmetric])
  define den6 where "den6 = gf_mul (gf_sq (gf_sq den)) (gf_sq den)"
  have den6: "small den6" "fv den6 = v ^ 6 mod p25519"
    using small_residue [OF den4(1) den2(1) den4(2) den2(2)] by (simp_all add: den6_def power_add [symmetric])
  define t0 where "t0 = gf_mul den6 num"
  have t0: "small t0" "fv t0 = v ^ 6 * u mod p25519"
    using mul_residue [OF den6(1) num(1) _ _ den6(2) num(2)] by (simp_all add: t0_def)
  define t1 where "t1 = gf_mul t0 den"
  have "small t1" "fv t1 = v ^ 6 * u * v mod p25519"
    using mul_residue [OF t0(1) den(1) _ _ t0(2) den(2)] by (simp_all add: t1_def)
  then have t1: "small t1" "fv t1 = u * v ^ 7 mod p25519" by (simp_all add: eval_nat_numeral ac_simps)
  define w where "w = (u * v ^ 7) ^ (2 ^ 252 - 3)"
  define t2 where "t2 = gf_pow2523 t1"
  have t2: "small t2" "fv t2 = w mod p25519"
    using gf_pow2523_ok [OF t1(1)] by (simp_all add: t2_def w_def t1(2) power_mod)
  define t3 where "t3 = gf_mul t2 num"
  have t3: "small t3" "fv t3 = w * u mod p25519"
    using mul_residue [OF t2(1) num(1) _ _ t2(2) num(2)] by (simp_all add: t3_def)
  define t4 where "t4 = gf_mul t3 den"
  have t4: "small t4" "fv t4 = w * u * v mod p25519"
    using mul_residue [OF t3(1) den(1) _ _ t3(2) den(2)] by (simp_all add: t4_def)
  define t5 where "t5 = gf_mul t4 den"
  have t5: "small t5" "fv t5 = w * u * v * v mod p25519"
    using mul_residue [OF t4(1) den(1) _ _ t4(2) den(2)] by (simp_all add: t5_def)
  define r0 where "r0 = gf_mul t5 den"
  define x where "x = u * v ^ 3 * w mod p25519"
  have "small r0" "fv r0 = w * u * v * v * v mod p25519"
    using mul_residue [OF t5(1) den(1) _ _ t5(2) den(2)] by (simp_all add: r0_def)
  then have r0: "small r0" "fv r0 = x" by (simp_all add: x_def eval_nat_numeral ac_simps)
  have check: "small (gf_mul (gf_sq c) den)" "fv (gf_mul (gf_sq c) den) = v * fv c ^ 2 mod p25519"
    if "small c" for c
  proof -
    have c: "small (gf_sq c)" "fv (gf_sq c) = fv c ^ 2 mod p25519"
      using small_residue [OF that that, of "fv c" "fv c"] by (simp_all add: gf_sq_def power2_eq_square)
    show "small (gf_mul (gf_sq c) den)" "fv (gf_mul (gf_sq c) den) = v * fv c ^ 2 mod p25519"
      using mul_residue [OF c(1) den(1) _ _ c(2) den(2)] by (simp_all add: mult.commute)
  qed
  have neq: "gf_neq (gf_mul (gf_sq c) den) num \<longleftrightarrow> v * fv c ^ 2 mod p25519 \<noteq> u mod p25519" if "small c" for c
    using gf_neq_ok [OF fits_mono [OF check(1) [OF that]] fits_mono [OF num(1)]] check(2) [OF that] num(2) by simp
  define r where "r = (if gf_neq (gf_mul (gf_sq r0) den) num then gf_mul r0 kI else r0)"
  have r: "small r" using r0(1) constants_small by (simp add: r_def small_mul)
  have fvI: "fv (gf_mul r0 kI) = x * ed_i mod p25519"
    using r0 constants_small by (simp add: fv_small_mul fv_constants)
  have neg: "v * x ^ 2 mod p25519 = (- u) mod p25519 \<longleftrightarrow> (- (v * x ^ 2)) mod p25519 = u mod p25519"
    unfolding mod_eq_dvd_iff using dvd_minus_iff [of p25519 "v * x ^ 2 + u"] by simp
  have root: "ed_root u v = (if gf_neq (gf_mul (gf_sq r) den) num then None else Some (fv r))"
    unfolding ed_root_def Let_def w_def [symmetric] x_def [symmetric]
    using neq [OF r0(1)] neq [OF r] r0(2) fvI neg
    by (simp add: r_def minus_one_square)
  define r' where "r' = (if gf_par r = drop_bit 7 (bs ! 31) then gf_sub kGf0 r else r)"
  have top: "drop_bit 7 (bs ! 31) = (if bit (le_num bs) 255 then 1 else 0)"
  proof -
    have "drop_bit 7 (bs ! 31) = (if bit (bs ! 31) 7 then 1 else 0)"
    proof (rule bit_word_eqI)
      fix n assume "n < LENGTH(8)"
      have "\<not> bit (bs ! 31) (7 + n)" if "n \<noteq> 0" using that by (auto dest: bit_imp_le_length)
      then show "bit (drop_bit 7 (bs ! 31)) n = bit (if bit (bs ! 31) 7 then 1 else 0) n"
        by (cases "n = 0") (simp_all add: bit_drop_bit_eq bit_1_iff)
    qed
    then show ?thesis using assms by (simp add: bit_le_num)
  qed
  have par: "gf_par r = drop_bit 7 (bs ! 31) \<longleftrightarrow> (odd (fv r) \<longleftrightarrow> bit (le_num bs) 255)"
    unfolding top using gf_par_ok [OF fits_mono [OF r]] by simp
  have r': "small r'" "fv r' = (if odd (fv r) \<longleftrightarrow> bit (le_num bs) 255 then (- fv r) mod p25519 else fv r)"
  proof -
    have zero: "fits 0 kGf0" by (simp add: fits_def kGf0_def)
    show "small r'" using gf_sub_ok(1) [OF zero r] r by (simp add: r'_def)
    show "fv r' = (if odd (fv r) \<longleftrightarrow> bit (le_num bs) 255 then (- fv r) mod p25519 else fv r)"
      using gf_sub_ok(2) [OF zero r] par by (simp add: r'_def fv_constants)
  qed
  have code: "pt_unpackneg bs = (if gf_neq (gf_mul (gf_sq r) den) num then None
      else Some (r', r1, kGf1, gf_mul r' r1))"
    unfolding pt_unpackneg_def Let_def
    by (simp only: r1_def [symmetric] num0_def [symmetric] den0_def [symmetric] num_def [symmetric]
        den_def [symmetric] den6_def [symmetric] t0_def [symmetric] t1_def [symmetric] t2_def [symmetric]
        t3_def [symmetric] t4_def [symmetric] t5_def [symmetric] r0_def [symmetric] r_def [symmetric] r'_def [symmetric])
  have "ed_decode_neg bs = (if gf_neq (gf_mul (gf_sq r) den) num then None
      else Some (fv r', y, 1, fv r' * y mod p25519))"
    unfolding ed_decode_neg_def Let_def y_def [symmetric] u_def [symmetric] v_def [symmetric] root r'(2) by simp
  moreover have "y mod p25519 = y" by (simp add: y_def)
  ultimately show ?thesis
    unfolding code using r' r1 constants_small by (simp add: small_mul fv_small_mul fv_constants)
qed

section \<open>Encoding\<close>

lemma le_num_bound_32: "length r = 32 \<Longrightarrow> le_num r < 2 ^ 256"
  using le_num_less [of r] by simp

lemma set_top_bit:
  assumes "length r = 32" "le_num r < 2 ^ 255" "b = 0 \<or> b = 1"
  shows "length (r[31 := r ! 31 XOR push_bit 7 b]) = 32"
    and "le_num (r[31 := r ! 31 XOR push_bit 7 b]) = le_num r + 2 ^ 255 * unat b"
proof -
  have split: "r = take 31 r @ [r ! 31]" using take_Suc_conv_app_nth [of 31 r] assms(1) by simp
  have upd: "r[31 := c] = take 31 r @ [c]" for c
    by (subst split) (simp add: list_update_append assms(1))
  have len: "length (take 31 r) = 31" using assms(1) by simp
  have num: "le_num (take 31 r @ [c]) = le_num (take 31 r) + 256 ^ 31 * unat c" for c
    unfolding le_num_append len by simp
  have "le_num r = le_num (take 31 r) + 256 ^ 31 * unat (r ! 31)" using num [of "r ! 31"] split by simp
  then have "256 ^ 31 * unat (r ! 31) < 2 ^ 255" using assms(2) by linarith
  then have top: "unat (r ! 31) < 128" by simp
  have "unat (r ! 31 XOR push_bit 7 b) = unat (r ! 31) + 128 * unat b"
  proof (cases "b = 1")
    case True
    have b0: "bit b k \<longleftrightarrow> k = 0" for k using True by (simp add: bit_1_iff)
    have "bit (unat (r ! 31)) 7 = odd (unat (r ! 31) div 2 ^ 7)" by (rule bit_iff_odd)
    then have "\<not> bit (r ! 31) 7" using top by (simp add: bit_unsigned_iff)
    then have "(r ! 31) AND push_bit 7 b = 0"
      by (intro bit_word_eqI) (auto simp: bit_and_iff bit_push_bit_iff b0 le_less)
    then have "r ! 31 XOR push_bit 7 b = r ! 31 + push_bit 7 b"
      by (rule disjunctive_add_eq_xor [symmetric])
    then have "unat (r ! 31 XOR push_bit 7 b) = unat (r ! 31 + 128)" using True by simp
    also have "\<dots> = unat (r ! 31) + 128" using top by (subst unat_plus_simple [THEN iffD1]) (simp_all add: no_olen_add_nat)
    finally show ?thesis using True by simp
  qed (use assms(3) in simp)
  then show "le_num (r[31 := r ! 31 XOR push_bit 7 b]) = le_num r + 2 ^ 255 * unat b"
    unfolding upd num using num [of "r ! 31"] split by simp
qed (simp add: assms(1))

lemma pt_pack_ok:
  assumes "pt_small q"
  shows "pt_pack q = ed_encode (pv q)"
proof -
  obtain x y z t where q: "q = (x, y, z, t)" by (cases q)
  have s: "small x" "small y" "small z" using assms by (simp_all add: q)
  note inv = gf_inv_ok [OF s(3)]
  have tx: "small (gf_mul x (gf_inv z))" "fv (gf_mul x (gf_inv z)) = fv x * (fv z ^ (2 ^ 255 - 21) mod p25519) mod p25519"
    and ty: "small (gf_mul y (gf_inv z))" "fv (gf_mul y (gf_inv z)) = fv y * (fv z ^ (2 ^ 255 - 21) mod p25519) mod p25519"
    using s inv by (simp_all add: small_mul fv_small_mul)
  define r where "r = gf_pack (gf_mul y (gf_inv z))"
  have r: "length r = 32" "int (le_num r) = fv (gf_mul y (gf_inv z))"
    using gf_pack_ok [OF fits_mono [OF ty(1)]] by (simp_all add: r_def)
  have "int (le_num r) < 2 ^ 255" unfolding r(2) by (rule less_trans [OF fv_range(2)]) (simp add: p25519_def)
  then have less: "le_num r < 2 ^ 255" by simp
  let ?b = "gf_par (gf_mul x (gf_inv z))"
  have b: "?b = (if odd (fv (gf_mul x (gf_inv z))) then 1 else 0)"
    using gf_par_ok [OF fits_mono [OF tx(1)]] by simp
  then have b01: "?b = 0 \<or> ?b = 1" by simp
  let ?N = "fv (gf_mul y (gf_inv z)) + 2 ^ 255 * (fv (gf_mul x (gf_inv z)) mod 2)"
  have ub: "int (unat ?b) = fv (gf_mul x (gf_inv z)) mod 2" using b by (simp add: odd_iff_mod_2_eq_one)
  have code: "pt_pack q = r[31 := r ! 31 XOR push_bit 7 ?b]" by (simp add: q Let_def r_def)
  have len: "length (pt_pack q) = 32" unfolding code by (rule set_top_bit(1) [OF r(1) less b01])
  have "int (le_num (pt_pack q)) = ?N"
    unfolding code set_top_bit(2) [OF r(1) less b01] using r(2) ub by simp
  then have "le_num (pt_pack q) = nat ?N" by simp
  moreover have "le_num (pt_pack q) < 2 ^ 256" using le_num_bound_32 [OF len] .
  ultimately have "le_num (pt_pack q) = le_num (le_bytes 32 (nat ?N))" by (simp add: le_num_le_bytes)
  then have "pt_pack q = le_bytes 32 (nat ?N)" using len by (intro le_num_inject) (simp_all add: le_bytes_def)
  then show ?thesis by (simp add: q Let_def tx(2) ty(2))
qed

end
