(* ===== verification/Ed25519_Curve.thy ===== *)
theory Ed25519_Curve
  imports Ed25519_Points
begin

text \<open>
  Every point the signature check handles lies on the curve: a key that decodes gives a point of
  \<open>- x ^ 2 + y ^ 2 = 1 + d x ^ 2 y ^ 2\<close>, the base point is one, and the addition formulas stay on the
  curve, whatever the representatives.
\<close>

definition on_curve :: "epoint \<Rightarrow> bool" where
  "on_curve p = (case p of (x, y, z, t) \<Rightarrow>
     (y ^ 2 - x ^ 2) mod p25519 = (z ^ 2 + ed_d * t ^ 2) mod p25519 \<and> (x * y) mod p25519 = (z * t) mod p25519)"

section \<open>Congruences\<close>

abbreviation (input) cong_p :: "int \<Rightarrow> int \<Rightarrow> bool" where
  "cong_p a b \<equiv> a mod p25519 = b mod p25519"

lemmas cong_intros = mod_add_cong mod_diff_cong mod_mult_cong

lemma cong_power: "cong_p a b \<Longrightarrow> cong_p (a ^ n) (b ^ n)"
  by (metis power_mod)

lemma cong_mod: "cong_p (a mod p25519) a"
  by simp

section \<open>The addition formulas stay on the curve\<close>

lemma curve_identity:
  fixes x1 y1 z1 t1 x2 y2 z2 t2 d :: int
  assumes n1: "cong_p (y1 ^ 2 - x1 ^ 2) (z1 ^ 2 + d * t1 ^ 2)" and m1: "cong_p (x1 * y1) (z1 * t1)"
    and n2: "cong_p (y2 ^ 2 - x2 ^ 2) (z2 ^ 2 + d * t2 ^ 2)" and m2: "cong_p (x2 * y2) (z2 * t2)"
  defines "e \<equiv> x1 * y2 + y1 * x2" and "h \<equiv> y1 * y2 + x1 * x2"
    and "f \<equiv> z1 * z2 - d * t1 * t2" and "g \<equiv> z1 * z2 + d * t1 * t2"
  shows "cong_p (h ^ 2 * g ^ 2 - e ^ 2 * f ^ 2) (g ^ 2 * f ^ 2 + d * (e ^ 2 * h ^ 2))"
proof -
  define s1 s2 where "s1 = x1 ^ 2 + y1 ^ 2" and "s2 = x2 ^ 2 + y2 ^ 2"
  define r1 r2 where "r1 = z1 ^ 2 + d * t1 ^ 2" and "r2 = z2 ^ 2 + d * t2 ^ 2"
  have diff: "cong_p (h ^ 2 - e ^ 2) (r1 * r2)"
  proof -
    have "h ^ 2 - e ^ 2 = (y1 ^ 2 - x1 ^ 2) * (y2 ^ 2 - x2 ^ 2)" unfolding h_def e_def by algebra
    then show ?thesis using mod_mult_cong [OF n1 n2] by (simp only: r1_def r2_def)
  qed
  have sum: "cong_p (h ^ 2 + e ^ 2) (s1 * s2 + 4 * (z1 * t1 * (z2 * t2)))"
  proof -
    have "h ^ 2 + e ^ 2 = s1 * s2 + 4 * (x1 * y1 * (x2 * y2))" unfolding h_def e_def s1_def s2_def by algebra
    then show ?thesis using mod_add_cong [OF refl mod_mult_cong [OF refl mod_mult_cong [OF m1 m2]]] by (simp only:)
  qed
  have prod: "cong_p (e * h) (z1 * t1 * s2 + z2 * t2 * s1)"
  proof -
    have "e * h = x1 * y1 * s2 + x2 * y2 * s1" unfolding h_def e_def s1_def s2_def by algebra
    then show ?thesis using mod_add_cong [OF mod_mult_cong [OF m1 refl] mod_mult_cong [OF m2 refl]] by (simp only:)
  qed
  have sq: "cong_p (s1 ^ 2) (r1 ^ 2 + 4 * (z1 * t1) ^ 2)" "cong_p (s2 ^ 2) (r2 ^ 2 + 4 * (z2 * t2) ^ 2)"
  proof -
    have "s1 ^ 2 = (y1 ^ 2 - x1 ^ 2) ^ 2 + 4 * (x1 * y1) ^ 2" unfolding s1_def by algebra
    then show "cong_p (s1 ^ 2) (r1 ^ 2 + 4 * (z1 * t1) ^ 2)"
      using mod_add_cong [OF cong_power [OF n1] mod_mult_cong [OF refl cong_power [OF m1]]] by (simp only: r1_def)
    have "s2 ^ 2 = (y2 ^ 2 - x2 ^ 2) ^ 2 + 4 * (x2 * y2) ^ 2" unfolding s2_def by algebra
    then show "cong_p (s2 ^ 2) (r2 ^ 2 + 4 * (z2 * t2) ^ 2)"
      using mod_add_cong [OF cong_power [OF n2] mod_mult_cong [OF refl cong_power [OF m2]]] by (simp only: r2_def)
  qed
  define lhs where "lhs = r1 * r2 * ((z1 * z2) ^ 2 + d ^ 2 * (t1 * t2) ^ 2)
      + 2 * d * (z1 * z2 * (t1 * t2)) * (s1 * s2 + 4 * (z1 * t1 * (z2 * t2)))"
  define rhs where "rhs = g ^ 2 * f ^ 2 + d * ((z1 * t1) ^ 2 * (r2 ^ 2 + 4 * (z2 * t2) ^ 2)
      + (z2 * t2) ^ 2 * (r1 ^ 2 + 4 * (z1 * t1) ^ 2) + 2 * (z1 * t1) * (z2 * t2) * (s1 * s2))"
  have "lhs = rhs" unfolding lhs_def rhs_def f_def g_def r1_def r2_def by algebra
  moreover have "cong_p (h ^ 2 * g ^ 2 - e ^ 2 * f ^ 2) lhs"
  proof -
    have "h ^ 2 * g ^ 2 - e ^ 2 * f ^ 2 = (h ^ 2 - e ^ 2) * ((z1 * z2) ^ 2 + d ^ 2 * (t1 * t2) ^ 2)
        + 2 * d * (z1 * z2 * (t1 * t2)) * (h ^ 2 + e ^ 2)"
      unfolding f_def g_def by algebra
    then show ?thesis unfolding lhs_def
      using mod_add_cong [OF mod_mult_cong [OF diff refl] mod_mult_cong [OF refl sum]] by (simp only:)
  qed
  moreover have "cong_p (g ^ 2 * f ^ 2 + d * (e ^ 2 * h ^ 2)) rhs"
  proof -
    have "cong_p ((e * h) ^ 2) ((z1 * t1 * s2 + z2 * t2 * s1) ^ 2)" by (rule cong_power [OF prod])
    also have "(z1 * t1 * s2 + z2 * t2 * s1) ^ 2
        = (z1 * t1) ^ 2 * s2 ^ 2 + (z2 * t2) ^ 2 * s1 ^ 2 + 2 * (z1 * t1) * (z2 * t2) * (s1 * s2)" by algebra
    also have "cong_p \<dots> ((z1 * t1) ^ 2 * (r2 ^ 2 + 4 * (z2 * t2) ^ 2)
        + (z2 * t2) ^ 2 * (r1 ^ 2 + 4 * (z1 * t1) ^ 2) + 2 * (z1 * t1) * (z2 * t2) * (s1 * s2))"
      by (rule mod_add_cong [OF mod_add_cong [OF mod_mult_cong [OF refl sq(2)] mod_mult_cong [OF refl sq(1)]] refl])
    finally have "cong_p ((e * h) ^ 2) ((z1 * t1) ^ 2 * (r2 ^ 2 + 4 * (z2 * t2) ^ 2)
        + (z2 * t2) ^ 2 * (r1 ^ 2 + 4 * (z1 * t1) ^ 2) + 2 * (z1 * t1) * (z2 * t2) * (s1 * s2))" .
    then show ?thesis unfolding rhs_def power_mult_distrib [symmetric]
      using mod_add_cong [OF refl mod_mult_cong [OF refl]] by (simp only: power_mult_distrib)
  qed
  ultimately show ?thesis by simp
qed

lemma ed_add_on_curve:
  assumes "on_curve p" "on_curve q"
  shows "on_curve (ed_add p q)"
proof -
  obtain x1 y1 z1 t1 where p: "p = (x1, y1, z1, t1)" by (cases p)
  obtain x2 y2 z2 t2 where q: "q = (x2, y2, z2, t2)" by (cases q)
  have c: "cong_p (y1 ^ 2 - x1 ^ 2) (z1 ^ 2 + ed_d * t1 ^ 2)" "cong_p (x1 * y1) (z1 * t1)"
    "cong_p (y2 ^ 2 - x2 ^ 2) (z2 ^ 2 + ed_d * t2 ^ 2)" "cong_p (x2 * y2) (z2 * t2)"
    using assms by (simp_all add: on_curve_def p q)
  define e h f g where "e = x1 * y2 + y1 * x2" and "h = y1 * y2 + x1 * x2"
    and "f = z1 * z2 - ed_d * t1 * t2" and "g = z1 * z2 + ed_d * t1 * t2"
  have id: "cong_p (h ^ 2 * g ^ 2 - e ^ 2 * f ^ 2) (g ^ 2 * f ^ 2 + ed_d * (e ^ 2 * h ^ 2))"
    unfolding e_def h_def f_def g_def by (rule curve_identity [OF c])
  define E H F G where
    "E = (x1 + y1) * (x2 + y2) mod p25519 - (y1 - x1) * (y2 - x2) mod p25519" and
    "H = (x1 + y1) * (x2 + y2) mod p25519 + (y1 - x1) * (y2 - x2) mod p25519" and
    "F = 2 * z1 * z2 mod p25519 - t1 * t2 * (2 * ed_d) mod p25519" and
    "G = 2 * z1 * z2 mod p25519 + t1 * t2 * (2 * ed_d) mod p25519"
  have E: "cong_p E (2 * e)"
  proof -
    have "cong_p E ((x1 + y1) * (x2 + y2) - (y1 - x1) * (y2 - x2))" unfolding E_def by (rule mod_diff_eq)
    also have "(x1 + y1) * (x2 + y2) - (y1 - x1) * (y2 - x2) = 2 * e" unfolding e_def by algebra
    finally show ?thesis .
  qed
  have H: "cong_p H (2 * h)"
  proof -
    have "cong_p H ((x1 + y1) * (x2 + y2) + (y1 - x1) * (y2 - x2))" unfolding H_def by (rule mod_add_eq)
    also have "(x1 + y1) * (x2 + y2) + (y1 - x1) * (y2 - x2) = 2 * h" unfolding h_def by algebra
    finally show ?thesis .
  qed
  have F: "cong_p F (2 * f)"
  proof -
    have "cong_p F (2 * z1 * z2 - t1 * t2 * (2 * ed_d))" unfolding F_def by (rule mod_diff_eq)
    also have "2 * z1 * z2 - t1 * t2 * (2 * ed_d) = 2 * f" unfolding f_def by algebra
    finally show ?thesis .
  qed
  have G: "cong_p G (2 * g)"
  proof -
    have "cong_p G (2 * z1 * z2 + t1 * t2 * (2 * ed_d))" unfolding G_def by (rule mod_add_eq)
    also have "2 * z1 * z2 + t1 * t2 * (2 * ed_d) = 2 * g" unfolding g_def by algebra
    finally show ?thesis .
  qed
  have sum: "ed_add p q = (E * F mod p25519, H * G mod p25519, G * F mod p25519, E * H mod p25519)"
    by (simp add: ed_add_def p q Let_def E_def F_def G_def H_def)
  have pw: "cong_p ((u * v mod p25519) ^ 2) (16 * (a ^ 2 * b ^ 2))" if "cong_p u (2 * a)" "cong_p v (2 * b)" for u v a b
  proof -
    have "cong_p ((u * v mod p25519) ^ 2) ((u * v) ^ 2)" by (rule power_mod)
    also have "\<dots> = (2 * a * (2 * b)) ^ 2 mod p25519" by (rule cong_power [OF mod_mult_cong [OF that]])
    also have "(2 * a * (2 * b)) ^ 2 = 16 * (a ^ 2 * b ^ 2)" by algebra
    finally show ?thesis .
  qed
  have "cong_p ((H * G mod p25519) ^ 2 - (E * F mod p25519) ^ 2) (16 * (h ^ 2 * g ^ 2) - 16 * (e ^ 2 * f ^ 2))"
    by (rule mod_diff_cong [OF pw [OF H G] pw [OF E F]])
  also have "16 * (h ^ 2 * g ^ 2) - 16 * (e ^ 2 * f ^ 2) = 16 * (h ^ 2 * g ^ 2 - e ^ 2 * f ^ 2)" by algebra
  also have "cong_p \<dots> (16 * (g ^ 2 * f ^ 2 + ed_d * (e ^ 2 * h ^ 2)))" by (rule mod_mult_cong [OF refl id])
  also have "16 * (g ^ 2 * f ^ 2 + ed_d * (e ^ 2 * h ^ 2)) = 16 * (g ^ 2 * f ^ 2) + ed_d * (16 * (e ^ 2 * h ^ 2))" by algebra
  also have "cong_p \<dots> ((G * F mod p25519) ^ 2 + ed_d * (E * H mod p25519) ^ 2)"
    by (rule mod_add_cong [OF pw [OF G F, symmetric] mod_mult_cong [OF refl pw [OF E H, symmetric]]])
  finally have one: "cong_p ((H * G mod p25519) ^ 2 - (E * F mod p25519) ^ 2)
      ((G * F mod p25519) ^ 2 + ed_d * (E * H mod p25519) ^ 2)" .
  have "cong_p (E * F mod p25519 * (H * G mod p25519)) (E * F * (H * G))" by (rule mod_mult_eq)
  also have "E * F * (H * G) = G * F * (E * H)" by algebra
  also have "cong_p \<dots> (G * F mod p25519 * (E * H mod p25519))" by (rule mod_mult_eq [symmetric])
  finally show ?thesis using one by (simp add: on_curve_def sum)
qed

lemma zero_on_curve: "on_curve ed_zero"
  by (simp add: on_curve_def ed_zero_def)

lemma base_on_curve: "on_curve ed_base"
proof -
  define t :: int where "t = 46827403850823179245072216630277197565144205554125654976674165829533817101731"
  have "ed_bx * ed_by = t + p25519 * 12089777079628320618000921127670825209163210154433485764836890627159878209761"
    by (simp add: ed_bx_def ed_by_def p25519_def t_def)
  then have tm: "ed_bx * ed_by mod p25519 = t mod p25519" by (simp only: mod_mult_self2)
  then have t: "ed_bx * ed_by mod p25519 = t" by (simp add: t_def p25519_def)
  have "ed_by ^ 2 - ed_bx ^ 2 = (1 ^ 2 + ed_d * t ^ 2) + p25519 * (-1404995416558591703935402335071871497660573215803886088007472604973677187509378205875315662149191623813929323558907999434574481479439670300926143553417440)"
    by (simp add: ed_bx_def ed_by_def ed_d_def p25519_def t_def)
  then have "cong_p (ed_by ^ 2 - ed_bx ^ 2) (1 ^ 2 + ed_d * t ^ 2)" by (simp only: mod_mult_self2)
  moreover have "cong_p (ed_bx * ed_by) (1 * t)" using tm by (simp only: mult_1)
  ultimately show ?thesis by (simp only: on_curve_def ed_base_def prod.case t)
qed

lemma ed_pair_on_curve:
  assumes "on_curve q"
  shows "on_curve (fst (ed_pair k n q)) \<and> on_curve (snd (ed_pair k n q))"
proof (induction k arbitrary: n)
  case (Suc k)
  obtain p r where pr: "ed_pair k (n div 2) q = (p, r)" by (cases "ed_pair k (n div 2) q")
  then have "on_curve p" "on_curve r" using Suc [of "n div 2"] by simp_all
  then show ?case by (simp add: pr ed_add_on_curve)
qed (simp add: assms zero_on_curve)

lemma ed_mul_on_curve: "on_curve q \<Longrightarrow> on_curve (ed_mul n q)"
  using ed_pair_on_curve by (simp add: ed_mul_def)

section \<open>Decoded keys\<close>

lemma ed_root_sound:
  assumes "ed_root u v = Some x"
  shows "cong_p (v * x ^ 2) u" "0 \<le> x" "x < p25519"
proof -
  define r where "r = u * v ^ 3 * (u * v ^ 7) ^ (2 ^ 252 - 3) mod p25519"
  have cases2: "x = r \<and> cong_p (v * r ^ 2) u \<or> x = r * ed_i mod p25519 \<and> cong_p (v * r ^ 2) (- u)"
    using assms unfolding ed_root_def r_def [symmetric] Let_def by (auto split: if_splits)
  then show "0 \<le> x" "x < p25519" using p25519_pos by (auto simp: r_def)
  from cases2 show "cong_p (v * x ^ 2) u"
  proof
    assume a: "x = r * ed_i mod p25519 \<and> cong_p (v * r ^ 2) (- u)"
    then have "cong_p (v * x ^ 2) (- (v * r ^ 2))" using minus_one_square by simp
    moreover have "cong_p (v * r ^ 2) (- u)" using a ..
    then have "cong_p (- (v * r ^ 2)) u"
      unfolding mod_eq_dvd_iff using dvd_minus_iff [of p25519 "v * r ^ 2 + u"] by simp
    ultimately show ?thesis by simp
  qed simp
qed

lemma ed_decode_sound:
  assumes "ed_decode_neg bs = Some (x, y, z, t)"
  shows "on_curve (x, y, z, t)" "y = int (le_num bs mod 2 ^ 255) mod p25519" "z = 1"
    "0 \<le> x" "x < p25519" "x \<noteq> 0 \<Longrightarrow> odd x \<longleftrightarrow> \<not> bit (le_num bs) 255"
proof -
  let ?n = "le_num bs"
  define w where "w = int ?n mod 2 ^ 255 mod p25519"
  obtain r where r: "ed_root (w ^ 2 - 1) (ed_d * w ^ 2 + 1) = Some r"
    and dec: "x = (if odd r \<longleftrightarrow> bit ?n 255 then (- r) mod p25519 else r)" "y = w" "z = 1" "t = x * w mod p25519"
    using assms unfolding ed_decode_neg_def Let_def w_def [symmetric] by (auto split: option.splits if_splits)
  note root = ed_root_sound [OF r]
  show "z = 1" by (rule dec(3))
  show "y = int (?n mod 2 ^ 255) mod p25519" by (simp add: dec(2) w_def of_nat_mod)
  show "0 \<le> x" "x < p25519" using root(2,3) p25519_pos by (auto simp: dec(1))
  have neg: "(- r) mod p25519 = (if r = 0 then 0 else p25519 - r)"
    using root(2,3) by (simp add: zmod_zminus1_eq_if)
  have "odd p25519" by (simp add: p25519_def)
  then show "odd x \<longleftrightarrow> \<not> bit ?n 255" if "x \<noteq> 0" using that unfolding dec(1) neg by (auto split: if_splits)
  have sq: "cong_p (x ^ 2) (r ^ 2)"
  proof (cases "odd r \<longleftrightarrow> bit ?n 255")
    case True
    have "cong_p (((- r) mod p25519) ^ 2) ((- r) ^ 2)" by (rule power_mod)
    then show ?thesis using True by (simp add: dec(1))
  qed (simp add: dec(1))
  have t: "cong_p (t ^ 2) (x ^ 2 * w ^ 2)"
    unfolding dec(4) by (metis power_mod power_mult_distrib)
  have "cong_p (1 ^ 2 + ed_d * t ^ 2) (1 + ed_d * (x ^ 2 * w ^ 2))"
    using mod_add_cong [OF refl mod_mult_cong [OF refl t]] by simp
  also have "1 + ed_d * (x ^ 2 * w ^ 2) = (ed_d * w ^ 2 + 1) * x ^ 2 - x ^ 2 + 1" by algebra
  also have "cong_p \<dots> ((ed_d * w ^ 2 + 1) * r ^ 2 - x ^ 2 + 1)"
    by (rule mod_add_cong [OF mod_diff_cong [OF mod_mult_cong [OF refl sq] refl] refl])
  also have "\<dots> = (w ^ 2 - 1 - x ^ 2 + 1) mod p25519"
    by (rule mod_add_cong [OF mod_diff_cong [OF root(1) refl] refl])
  finally have "cong_p (w ^ 2 - x ^ 2) (1 ^ 2 + ed_d * t ^ 2)" by simp
  then show "on_curve (x, y, z, t)" by (simp add: on_curve_def dec(2,3)) (simp add: dec(4))
qed

end
