(* ===== verification/Ed25519_Scalar.thy ===== *)
theory Ed25519_Scalar
  imports Ed25519 Limbs
begin

text \<open>
  \<open>kl_reduce\<close> computes the residue of a 64-byte number modulo the group order: each pass of
  \<open>kl_modL\<close> subtracts a multiple of the order exactly, carries keep every limb within 9 bits, the last
  subtraction leaves a value between \<open>-L\<close> and \<open>L\<close>, and a negative one gets \<open>L\<close> added.
\<close>

definition ell :: int where
  "ell = 2 ^ 252 + 27742317777372353535851937790883648493"

definition L_int :: "int list" where
  "L_int = [0xed, 0xd3, 0xf5, 0x5c, 0x1a, 0x63, 0x12, 0x58,
            0xd6, 0x9c, 0xf7, 0xa2, 0xde, 0xf9, 0xde, 0x14,
            0x00, 0x00, 0x00, 0x00, 0x00, 0x00, 0x00, 0x00,
            0x00, 0x00, 0x00, 0x00, 0x00, 0x00, 0x00, 0x10]"

lemma modL_L_int: "modL_L = map of_int L_int"
  by (simp add: modL_L_def L_int_def)

lemma length_L_int [simp]: "length L_int = 32"
  by (simp add: L_int_def)

lemma lval_L: "lval 256 L_int = ell"
  by (simp add: L_int_def ell_def)

lemma L_range: "k < 32 \<Longrightarrow> 0 \<le> L_int ! k \<and> L_int ! k \<le> 255"
proof -
  have "\<forall>x\<in>set L_int. 0 \<le> x \<and> x \<le> 255" by (simp add: L_int_def)
  then show "k < 32 \<Longrightarrow> 0 \<le> L_int ! k \<and> L_int ! k \<le> 255" by simp
qed

lemma L_zeros:
  assumes "16 \<le> k" "k < 20"
  shows "L_int ! k = 0"
proof -
  have "k = 16 \<or> k = 17 \<or> k = 18 \<or> k = 19" using assms by linarith
  then show ?thesis by (auto simp: L_int_def)
qed

lemma L_low: "16 * (\<Sum>k<20. L_int ! k * 256 ^ k) + 256 ^ 32 = 16 * ell"
  by (simp add: L_int_def ell_def eval_nat_numeral)

section \<open>One pass\<close>

definition inner_int :: "nat \<Rightarrow> int list \<times> int \<Rightarrow> nat \<Rightarrow> int list \<times> int" where
  "inner_int i xc j =
     (case xc of (x, c) \<Rightarrow>
        let y = x ! j + c - 16 * x ! i * L_int ! (j - (i - 32)); c' = (y + 128) div 256
        in (x[j := y - c' * 256], c'))"

fun w64s :: "int list \<times> int \<Rightarrow> w64 list \<times> w64" where
  "w64s (x, c) = (map of_int x, of_int c)"

definition carry_bound :: "nat \<Rightarrow> int" where
  "carry_bound k = (if k \<le> 16 then 5000 else if k = 17 then 22 else if k = 18 then 2 else 1)"

lemma div_bounds:
  fixes y :: int
  assumes "a * 256 \<le> y" "y < (b + 1) * 256"
  shows "a \<le> y div 256 \<and> y div 256 \<le> b"
proof
  have "a = a * 256 div 256" by simp
  also have "\<dots> \<le> y div 256" using assms(1) by (intro zdiv_mono1) simp_all
  finally show "a \<le> y div 256" .
  have "y div 256 < b + 1" using assms(2) by (simp add: div_less_iff_less_mult)
  then show "y div 256 \<le> b" by simp
qed

lemma scalar_carry_step:
  fixes t c m :: int
  assumes "\<bar>t\<bar> \<le> 256" "\<bar>c\<bar> \<le> carry_bound k" "\<bar>m\<bar> \<le> 16 * 256 * 255" "16 \<le> k \<Longrightarrow> m = 0"
  shows "\<bar>(t + c - m + 128) div 256\<bar> \<le> carry_bound (Suc k)"
    and "\<bar>t + c - m + 128\<bar> \<le> 2 ^ 40"
proof -
  let ?y = "t + c - m + 128"
  show "\<bar>?y\<bar> \<le> 2 ^ 40" using assms(1-3) by (auto simp: carry_bound_def abs_le_iff split: if_splits)
  show "\<bar>?y div 256\<bar> \<le> carry_bound (Suc k)"
  proof (cases "k < 16")
    case True
    have "\<bar>?y\<bar> \<le> 1049900" using assms(1-3) True by (auto simp: carry_bound_def abs_le_iff)
    then have "-5000 \<le> ?y div 256 \<and> ?y div 256 \<le> 5000" by (intro div_bounds) (simp_all add: abs_le_iff)
    then show ?thesis using True by (auto simp: carry_bound_def abs_le_iff)
  next
    case False
    then have m: "m = 0" using assms(4) by simp
    consider "k = 16" | "k = 17" | "18 \<le> k" using False by linarith
    then show ?thesis
    proof cases
      case 1
      then have "-22 \<le> ?y div 256 \<and> ?y div 256 \<le> 22"
        using assms(1,2) m by (intro div_bounds) (simp_all add: abs_le_iff carry_bound_def)
      then show ?thesis using 1 by (auto simp: carry_bound_def abs_le_iff)
    next
      case 2
      then have "-2 \<le> ?y div 256 \<and> ?y div 256 \<le> 2"
        using assms(1,2) m by (intro div_bounds) (simp_all add: abs_le_iff carry_bound_def)
      then show ?thesis using 2 by (auto simp: carry_bound_def abs_le_iff)
    next
      case 3
      have "\<bar>c\<bar> \<le> 2" using assms(2) 3 by (auto simp: carry_bound_def split: if_splits)
      then have "-1 \<le> ?y div 256 \<and> ?y div 256 \<le> 1"
        using assms(1) m by (intro div_bounds) (simp_all add: abs_le_iff)
      then show ?thesis using 3 by (auto simp: carry_bound_def abs_le_iff)
    qed
  qed
qed

lemma modL_inner_int:
  assumes "length x = 64" "j < 64" "i < 64" "i - 32 \<le> j" "j - (i - 32) < 32"
    "\<bar>x ! j + c - 16 * x ! i * L_int ! (j - (i - 32)) + 128\<bar> \<le> 2 ^ 40"
  shows "modL_inner i (w64s (x, c)) j = w64s (inner_int i (x, c) j)"
proof -
  let ?y = "x ! j + c - 16 * x ! i * L_int ! (j - (i - 32))"
  have "signed_drop_bit 8 (of_int (?y + 128) :: w64) = of_int ((?y + 128) div 2 ^ 8)"
    using assms(6) by (intro shift_of_int) auto
  then have c: "signed_drop_bit 8 (of_int ?y + 128 :: w64) = of_int ((?y + 128) div 256)" by simp
  have y: "map of_int x ! j + (of_int c - 16 * map of_int x ! i * modL_L ! (j - (i - 32))) = (of_int ?y :: w64)"
    using assms(1-5) by (simp add: modL_L_int)
  show ?thesis
    unfolding modL_inner_def inner_int_def w64s.simps Let_def prod.case y
    using assms(1,2) c by (simp add: map_update)
qed

text \<open>A pass over the limbs below \<open>i\<close>, as far as limb \<open>i - 32 + k\<close>.\<close>

definition limb_inv :: "nat \<Rightarrow> int list \<Rightarrow> bool" where
  "limb_inv i x \<longleftrightarrow> length x = 64 \<and> (\<forall>k\<le>i. \<bar>x ! k\<bar> \<le> 256) \<and> (\<forall>k. i < k \<longrightarrow> k < 64 \<longrightarrow> x ! k = 0) \<and>
     (\<forall>k. k + 12 \<le> i \<longrightarrow> \<bar>x ! k\<bar> \<le> 255) \<and>
     (i \<le> 62 \<longrightarrow> (\<forall>k. i \<le> k + 31 \<longrightarrow> k + 12 \<le> i \<longrightarrow> \<bar>x ! k\<bar> \<le> 128)) \<and>
     (\<forall>k. i < k + 12 \<longrightarrow> k \<le> i \<longrightarrow> k \<le> 50 \<longrightarrow> \<bar>x ! k\<bar> \<le> 129)"

lemma inner_prefix:
  assumes x: "limb_inv i x" and i: "32 \<le> i" "i < 64" and n: "n \<le> 20"
  shows "\<exists>x' c. foldl (modL_inner i) (w64s (x, 0)) [i - 32..<i - 32 + n] = w64s (x', c) \<and> length x' = 64
    \<and> (\<forall>k. i - 32 \<le> k \<longrightarrow> k < i - 32 + n \<longrightarrow> -128 \<le> x' ! k \<and> x' ! k \<le> 127)
    \<and> (\<forall>k<64. k < i - 32 \<or> i - 32 + n \<le> k \<longrightarrow> x' ! k = x ! k)
    \<and> \<bar>c\<bar> \<le> carry_bound n
    \<and> lval 256 x' + c * 256 ^ (i - 32 + n)
        = lval 256 x - 16 * x ! i * 256 ^ (i - 32) * (\<Sum>k<n. L_int ! k * 256 ^ k)"
  using n
proof (induction n)
  case 0
  have "length x = 64" using x by (simp add: limb_inv_def)
  then show ?case by (intro exI [of _ x] exI [of _ 0]) (auto simp: carry_bound_def)
next
  case (Suc n)
  let ?b = "i - 32" and ?j = "i - 32 + n"
  obtain x' c where IH: "foldl (modL_inner i) (w64s (x, 0)) [?b..<?j] = w64s (x', c)" "length x' = 64"
    "\<forall>k. ?b \<le> k \<longrightarrow> k < ?j \<longrightarrow> -128 \<le> x' ! k \<and> x' ! k \<le> 127"
    "\<forall>k<64. k < ?b \<or> ?j \<le> k \<longrightarrow> x' ! k = x ! k" "\<bar>c\<bar> \<le> carry_bound n"
    "lval 256 x' + c * 256 ^ ?j = lval 256 x - 16 * x ! i * 256 ^ ?b * (\<Sum>k<n. L_int ! k * 256 ^ k)"
    using Suc by auto
  have j: "?j < 64" "?j < i" "?j - ?b = n" "n < 32" using i Suc.prems by simp_all
  have xi: "x' ! i = x ! i" "x' ! ?j = x ! ?j" using IH(4) i j by simp_all
  have mag: "\<bar>x ! i\<bar> \<le> 256" "\<bar>x ! ?j\<bar> \<le> 256" using x j by (simp_all add: limb_inv_def)
  define m where "m = 16 * x ! i * L_int ! n"
  have "\<bar>m\<bar> = 16 * (\<bar>x ! i\<bar> * \<bar>L_int ! n\<bar>)" by (simp add: m_def abs_mult)
  also have "\<bar>x ! i\<bar> * \<bar>L_int ! n\<bar> \<le> 256 * 255" using mag L_range [OF j(4)] by (intro mult_mono) auto
  finally have mb: "\<bar>m\<bar> \<le> 16 * 256 * 255" by simp
  have mz: "m = 0" if "16 \<le> n" using L_zeros [OF that] Suc.prems by (simp add: m_def)
  note step = scalar_carry_step [OF mag(2) IH(5) mb mz]
  define y where "y = x ! ?j + c - m"
  define c' where "c' = (y + 128) div 256"
  define x2 where "x2 = x'[?j := y - c' * 256]"
  have inner: "inner_int i (x', c) ?j = (x2, c')"
    by (simp add: inner_int_def Let_def xi j m_def y_def c'_def x2_def)
  have "modL_inner i (w64s (x', c)) ?j = w64s (inner_int i (x', c) ?j)"
    using IH(2) i j xi step(2) by (intro modL_inner_int) (simp_all add: m_def)
  then have word: "foldl (modL_inner i) (w64s (x, 0)) [?b..<?b + Suc n] = w64s (x2, c')"
    using IH(1) by (simp add: inner)
  have "y - c' * 256 = (y + 128) mod 256 - 128"
    by (simp add: c'_def minus_mult_div_eq_mod [symmetric])
  then have low: "-128 \<le> y - c' * 256" "y - c' * 256 \<le> 127" by simp_all
  have val: "lval 256 x2 + c' * 256 ^ (?b + Suc n)
      = lval 256 x - 16 * x ! i * 256 ^ ?b * (\<Sum>k<Suc n. L_int ! k * 256 ^ k)"
  proof -
    have "lval 256 x2 + c' * 256 ^ (?b + Suc n) = lval 256 x' + (y - x ! ?j) * 256 ^ ?j"
      using IH(2) j xi by (simp add: x2_def lval_update algebra_simps)
    also have "\<dots> = lval 256 x' + c * 256 ^ ?j - m * 256 ^ ?j" by (simp add: y_def algebra_simps)
    finally show ?thesis using IH(6) by (simp add: m_def power_add algebra_simps)
  qed
  have "\<forall>k. ?b \<le> k \<longrightarrow> k < ?b + Suc n \<longrightarrow> -128 \<le> x2 ! k \<and> x2 ! k \<le> 127"
    using IH(2,3) low j by (auto simp: x2_def nth_list_update less_Suc_eq)
  moreover have "\<forall>k<64. k < ?b \<or> ?b + Suc n \<le> k \<longrightarrow> x2 ! k = x ! k"
    using IH(4) by (auto simp: x2_def nth_list_update)
  moreover have "\<bar>c'\<bar> \<le> carry_bound (Suc n)" using step(1) by (simp add: c'_def y_def)
  moreover have "length x2 = 64" using IH(2) by (simp add: x2_def)
  ultimately show ?case using word val by blast
qed

lemma modL_outer_int:
  assumes x: "limb_inv i x" and i: "32 \<le> i" "i < 64"
  shows "\<exists>x'. modL_outer (map of_int x) i = map of_int x' \<and> limb_inv (i - 1) x'
    \<and> lval 256 x' = lval 256 x - ell * (16 * x ! i * 256 ^ (i - 32))"
proof -
  have range: "[i - 32..<i - 12] = [i - 32..<i - 32 + 20]" using i by simp
  obtain y c where y: "foldl (modL_inner i) (w64s (x, 0)) [i - 32..<i - 32 + 20] = w64s (y, c)" "length y = 64"
    "\<forall>k. i - 32 \<le> k \<longrightarrow> k < i - 32 + 20 \<longrightarrow> -128 \<le> y ! k \<and> y ! k \<le> 127"
    "\<forall>k<64. k < i - 32 \<or> i - 32 + 20 \<le> k \<longrightarrow> y ! k = x ! k"
    "\<bar>c\<bar> \<le> carry_bound 20"
    "lval 256 y + c * 256 ^ (i - 32 + 20) = lval 256 x - 16 * x ! i * 256 ^ (i - 32) * (\<Sum>k<20. L_int ! k * 256 ^ k)"
    using inner_prefix [OF x i, of 20] by auto
  define x' where "x' = y[i - 12 := y ! (i - 12) + c, i := 0]"
  have word: "modL_outer (map of_int x) i = map of_int x'"
    using y(1,2) i unfolding modL_outer_def range by (simp add: x'_def map_update)
  have c: "\<bar>c\<bar> \<le> 1" using y(5) by (simp add: carry_bound_def)
  have yi: "y ! i = x ! i" "y ! (i - 12) = x ! (i - 12)" using y(4) i by simp_all
  have "lval 256 x' = lval 256 y + c * 256 ^ (i - 12) - x ! i * 256 ^ i"
    using y(2) i yi by (simp add: x'_def lval_update)
  also have "\<dots> = lval 256 x - x ! i * 256 ^ (i - 32) * (16 * (\<Sum>k<20. L_int ! k * 256 ^ k) + 256 ^ 32)"
  proof -
    have "i - 32 + 20 = i - 12" using i by simp
    moreover have "(256 :: int) ^ i = 256 ^ (i - 32) * 256 ^ 32"
      using power_add [of "256 :: int" "i - 32" 32] i by simp
    ultimately show ?thesis using y(6) by (simp add: algebra_simps)
  qed
  finally have val: "lval 256 x' = lval 256 x - ell * (16 * x ! i * 256 ^ (i - 32))"
    unfolding L_low by (simp add: algebra_simps)
  have inv: "\<forall>k\<le>i. \<bar>x ! k\<bar> \<le> 256" "\<forall>k. i < k \<longrightarrow> k < 64 \<longrightarrow> x ! k = 0" "\<forall>k. k + 12 \<le> i \<longrightarrow> \<bar>x ! k\<bar> \<le> 255"
    "i \<le> 62 \<Longrightarrow> \<forall>k. i \<le> k + 31 \<longrightarrow> k + 12 \<le> i \<longrightarrow> \<bar>x ! k\<bar> \<le> 128"
    "\<forall>k. i < k + 12 \<longrightarrow> k \<le> i \<longrightarrow> k \<le> 50 \<longrightarrow> \<bar>x ! k\<bar> \<le> 129"
    using x by (simp_all add: limb_inv_def)
  have n: "x' ! k = (if k = i then 0 else if k = i - 12 then x ! (i - 12) + c else y ! k)" if "k < 64" for k
    using that y(2) i yi by (simp add: x'_def nth_list_update)
  have mid: "\<bar>x' ! k\<bar> \<le> 128" if "i - 32 \<le> k" "k < i - 12" for k
  proof -
    have "-128 \<le> y ! k \<and> y ! k \<le> 127" using y(3) that i by simp
    moreover have "k < 64" "k \<noteq> i" "k \<noteq> i - 12" using that i by linarith+
    then have "x' ! k = y ! k" using n by simp
    ultimately show ?thesis by (simp add: abs_le_iff)
  qed
  have low: "x' ! k = x ! k" if "k < i - 32" for k
  proof -
    have "k < 64" "k \<noteq> i" "k \<noteq> i - 12" using that i by linarith+
    then show ?thesis using n y(4) that by simp
  qed
  have high: "x' ! k = x ! k" if "i - 12 < k" "k < i" for k
  proof -
    have "k < 64" "k \<noteq> i" "k \<noteq> i - 12" "i - 32 + 20 \<le> k" using that i by linarith+
    then show ?thesis using n y(4) by simp
  qed
  have at: "\<bar>x' ! (i - 12)\<bar> \<le> 256" "i \<le> 62 \<Longrightarrow> \<bar>x' ! (i - 12)\<bar> \<le> 129"
  proof -
    have "i - 12 \<noteq> i" "i - 12 < 64" using i by linarith+
    then have at: "x' ! (i - 12) = x ! (i - 12) + c" using n by simp
    have "\<bar>x ! (i - 12)\<bar> \<le> 255" using inv(3) i by simp
    then show "\<bar>x' ! (i - 12)\<bar> \<le> 256" unfolding at using c by linarith
    assume "i \<le> 62"
    then have "\<bar>x ! (i - 12)\<bar> \<le> 128" using inv(4) i by simp
    then show "\<bar>x' ! (i - 12)\<bar> \<le> 129" unfolding at using c by linarith
  qed
  have "limb_inv (i - 1) x'"
    unfolding limb_inv_def
  proof (intro conjI allI impI)
    show "length x' = 64" using y(2) by (simp add: x'_def)
    fix k
    { assume "k \<le> i - 1"
      then have "k < i - 32 \<or> i - 32 \<le> k \<and> k < i - 12 \<or> k = i - 12 \<or> i - 12 < k \<and> k < i" using i by linarith
      then show "\<bar>x' ! k\<bar> \<le> 256" using low mid at(1) high inv(1) i by fastforce }
    { assume "i - 1 < k" "k < 64"
      then show "x' ! k = 0" using n [of k] y(4) inv(2) i by (cases "k = i") auto }
    { assume "k + 12 \<le> i - 1"
      then have "k < i - 32 \<or> i - 32 \<le> k \<and> k < i - 12" using i by linarith
      then show "\<bar>x' ! k\<bar> \<le> 255" using low mid inv(3) i by fastforce }
    { assume "i - 1 \<le> k + 31" "k + 12 \<le> i - 1"
      then show "\<bar>x' ! k\<bar> \<le> 128" using mid [of k] i by simp }
    { assume k: "i - 1 < k + 12" "k \<le> i - 1" "k \<le> 50"
      then consider "k = i - 12" "i \<le> 62" | "i - 12 < k" "k < i" using i by linarith
      then show "\<bar>x' ! k\<bar> \<le> 129" using at(2) high inv(5) k i by cases auto }
  qed
  with word val show ?thesis by blast
qed

lemma modL_passes:
  assumes "limb_inv 63 x" "n \<le> 32"
  shows "\<exists>x' q. foldl modL_outer (map of_int x) (rev [64 - n..<64]) = map of_int x' \<and> limb_inv (63 - n) x'
    \<and> lval 256 x' = lval 256 x - ell * q"
  using assms(2)
proof (induction n)
  case 0
  then show ?case using assms(1) by (intro exI [of _ x] exI [of _ 0]) simp
next
  case (Suc n)
  then obtain y q where y: "foldl modL_outer (map of_int x) (rev [64 - n..<64]) = map of_int y" "limb_inv (63 - n) y"
    "lval 256 y = lval 256 x - ell * q" by auto
  have i: "64 - Suc n = 63 - n" "64 - n = Suc (63 - n)" "32 \<le> 63 - n" "63 - n < 64" "63 - n - 1 = 63 - Suc n"
    using Suc.prems by simp_all
  have upt: "[63 - n..<64] = (63 - n) # [64 - n..<64]" unfolding i(2) by (rule upt_conv_Cons) simp
  obtain x' where x': "modL_outer (map of_int y) (63 - n) = map of_int x'" "limb_inv (63 - n - 1) x'"
    "lval 256 x' = lval 256 y - ell * (16 * y ! (63 - n) * 256 ^ (63 - n - 32))"
    using modL_outer_int [OF y(2) i(3,4)] by blast
  have "foldl modL_outer (map of_int x) (rev [64 - Suc n..<64]) = map of_int x'"
    unfolding i(1) upt by (simp add: y(1) x'(1))
  moreover have "lval 256 x' = lval 256 x - ell * (q + 16 * y ! (63 - n) * 256 ^ (63 - n - 32))"
    unfolding x'(3) y(3) by (simp add: algebra_simps)
  ultimately show ?case using x'(2) unfolding i(5) by blast
qed

section \<open>The last subtraction\<close>

lemma digit_bytes:
  "int (le_num (map (\<lambda>k. of_int (u div 256 ^ k)) [0..<n])) = u mod 256 ^ n"
proof (induction n)
  case (Suc n)
  have "int (unat (of_int (u div 256 ^ n) :: byte)) = u div 256 ^ n mod 256"
    by (simp add: unat_eq_nat_uint unsigned_of_int take_bit_eq_mod)
  moreover have "u mod 256 ^ Suc n = 256 ^ n * (u div 256 ^ n mod 256) + u mod 256 ^ n"
    unfolding power_Suc2 by (rule zmod_zmult2_eq) simp
  ultimately show ?case using Suc by (simp add: le_num_append)
qed simp

definition low_int :: "int \<Rightarrow> int list \<times> int \<Rightarrow> nat \<Rightarrow> int list \<times> int" where
  "low_int q xc j =
     (case xc of (x, c) \<Rightarrow> let y = x ! j + c - q * L_int ! j in (x[j := y mod 256], y div 256))"

lemma low_prefix:
  assumes x: "length x = 64" "\<forall>k<32. \<bar>x ! k\<bar> \<le> 129" and n: "n \<le> 32"
  defines "q \<equiv> x ! 31 div 16"
  shows "\<exists>x' c. foldl modL_low (w64s (x, 0)) [0..<n] = w64s (x', c) \<and> length x' = 64
    \<and> (\<forall>k<n. 0 \<le> x' ! k \<and> x' ! k < 256) \<and> (\<forall>k<64. n \<le> k \<longrightarrow> x' ! k = x ! k) \<and> \<bar>c\<bar> \<le> 20
    \<and> (\<Sum>k<n. x' ! k * 256 ^ k) + c * 256 ^ n = (\<Sum>k<n. x ! k * 256 ^ k) - q * (\<Sum>k<n. L_int ! k * 256 ^ k)"
  using n
proof (induction n)
  case 0
  then show ?case using x(1) by (intro exI [of _ x] exI [of _ 0]) simp
next
  case (Suc n)
  then obtain x' c where IH: "foldl modL_low (w64s (x, 0)) [0..<n] = w64s (x', c)" "length x' = 64"
    "\<forall>k<n. 0 \<le> x' ! k \<and> x' ! k < 256" "\<forall>k<64. n \<le> k \<longrightarrow> x' ! k = x ! k" "\<bar>c\<bar> \<le> 20"
    "(\<Sum>k<n. x' ! k * 256 ^ k) + c * 256 ^ n = (\<Sum>k<n. x ! k * 256 ^ k) - q * (\<Sum>k<n. L_int ! k * 256 ^ k)"
    by auto
  have n: "n < 32" "n < 64" "n \<le> 31" using Suc.prems by simp_all
  have xi: "x' ! n = x ! n" "x' ! 31 = x ! 31" using IH(4) n by simp_all
  have x31: "\<bar>x ! 31\<bar> \<le> 129" "\<bar>x ! n\<bar> \<le> 129" using x(2) n by simp_all
  then have q: "\<bar>q\<bar> \<le> 9" unfolding q_def by linarith
  define y where "y = x ! n + c - q * L_int ! n"
  have "\<bar>q * L_int ! n\<bar> \<le> 9 * 255" unfolding abs_mult using q L_range [OF n(1)] by (intro mult_mono) auto
  then have yb: "\<bar>y\<bar> \<le> 2444" using x31 IH(5) by (simp add: y_def)
  have "signed_drop_bit 4 (of_int (x ! 31) :: w64) = of_int (x ! 31 div 2 ^ 4)"
    using x31 by (intro shift_of_int) auto
  then have sq: "signed_drop_bit 4 (map of_int x' ! 31 :: w64) = of_int q" using IH(2) xi by (simp add: q_def)
  have yw: "map of_int x' ! n + (of_int c - of_int q * modL_L ! n) = (of_int y :: w64)"
    using IH(2) n xi by (simp add: y_def modL_L_int)
  have sh: "signed_drop_bit 8 (of_int y :: w64) = of_int (y div 256)"
    using yb shift_of_int [of y 8] by (simp add: abs_le_iff)
  have mask: "(of_int y :: w64) AND 255 = of_int (y mod 256)" using and_of_int [of y 8] by simp
  have step: "modL_low (w64s (x', c)) n = w64s (x'[n := y mod 256], y div 256)"
    unfolding modL_low_def w64s.simps Let_def prod.case sq yw
    using IH(2) n by (simp add: sh mask map_update)
  have eq: "foldl modL_low (w64s (x, 0)) [0..<Suc n] = w64s (x'[n := y mod 256], y div 256)"
    using IH(1) step by simp
  have val: "(\<Sum>k<Suc n. x'[n := y mod 256] ! k * 256 ^ k) + y div 256 * 256 ^ Suc n
      = (\<Sum>k<Suc n. x ! k * 256 ^ k) - q * (\<Sum>k<Suc n. L_int ! k * 256 ^ k)"
  proof -
    have "(y mod 256) * 256 ^ n + y div 256 * 256 ^ Suc n = (256 * (y div 256) + y mod 256) * 256 ^ n"
      by (simp only: algebra_simps power_Suc)
    also have "\<dots> = y * 256 ^ n" by (simp only: mult_div_mod_eq)
    finally have "(y mod 256) * 256 ^ n + y div 256 * 256 ^ Suc n = y * 256 ^ n" .
    moreover have "(\<Sum>k<n. x'[n := y mod 256] ! k * 256 ^ k) = (\<Sum>k<n. x' ! k * 256 ^ k)" by simp
    ultimately show ?thesis using IH(2,6) n by (simp add: y_def algebra_simps)
  qed
  have "\<forall>k<Suc n. 0 \<le> x'[n := y mod 256] ! k \<and> x'[n := y mod 256] ! k < 256"
    using IH(2,3) n by (auto simp: nth_list_update less_Suc_eq)
  moreover have "\<forall>k<64. Suc n \<le> k \<longrightarrow> x'[n := y mod 256] ! k = x ! k" using IH(4) by simp
  moreover have "\<bar>y div 256\<bar> \<le> 20" using yb by linarith
  moreover have "length (x'[n := y mod 256]) = 64" using IH(2) by simp
  ultimately show ?case using eq val by blast
qed

section \<open>Carrying out the bytes\<close>

lemma byte_of_int_iff: "of_int u = (of_int v :: byte) \<longleftrightarrow> u mod 256 = v mod 256"
  by (simp add: word_of_int_eq_iff take_bit_eq_mod)

lemma emit_prefix:
  assumes x: "length x = 64" "\<forall>k<64. \<bar>x ! k\<bar> \<le> 600" and n: "n \<le> 32"
  shows "\<exists>x'. foldl modL_emit (map of_int x, []) [0..<n]
      = (map of_int x', map (\<lambda>k. of_int ((\<Sum>j<Suc k. x ! j * 256 ^ j) div 256 ^ k)) [0..<n]) \<and> length x' = 64
    \<and> x' ! n = (\<Sum>j<Suc n. x ! j * 256 ^ j) div 256 ^ n \<and> \<bar>x' ! n\<bar> \<le> 700 \<and> (\<forall>k<64. n < k \<longrightarrow> x' ! k = x ! k)"
  using n
proof (induction n)
  case 0
  then show ?case using x(1) x(2) [rule_format, of 0] by (intro exI [of _ x]) simp
next
  case (Suc n)
  let ?P = "\<lambda>n. \<Sum>j<Suc n. x ! j * 256 ^ j"
  obtain x' where IH: "foldl modL_emit (map of_int x, []) [0..<n]
      = (map of_int x', map (\<lambda>k. of_int (?P k div 256 ^ k)) [0..<n])" "length x' = 64"
    "x' ! n = ?P n div 256 ^ n" "\<bar>x' ! n\<bar> \<le> 700" "\<forall>k<64. n < k \<longrightarrow> x' ! k = x ! k"
    using Suc by auto
  have n: "n < 32" "Suc n < 64" using Suc.prems by simp_all
  define x2 where "x2 = x'[Suc n := x' ! Suc n + x' ! n div 256]"
  have sh: "signed_drop_bit 8 (of_int (x' ! n) :: w64) = of_int (x' ! n div 256)"
    using IH(4) shift_of_int [of "x' ! n" 8] by (simp add: abs_le_iff)
  have b: "(ucast (of_int v AND 255 :: w64) :: byte) = of_int v" for v
  proof -
    have "(ucast (of_int u :: w64) :: byte) = of_int u" for u
      by (rule bit_word_eqI) (auto simp: bit_simps)
    moreover have "of_int v AND 255 = (of_int (v mod 256) :: w64)" using and_of_int [of v 8] by simp
    moreover have "of_int (v mod 256) = (of_int v :: byte)" by (simp add: byte_of_int_iff)
    ultimately show ?thesis by simp
  qed
  have step: "modL_emit (map of_int x', r) n = (map of_int x2, r @ [of_int (x' ! n)])" for r
    using IH(2) n by (simp add: modL_emit_def Let_def x2_def sh b map_update)
  have word: "foldl modL_emit (map of_int x, []) [0..<Suc n]
      = (map of_int x2, map (\<lambda>k. of_int (?P k div 256 ^ k)) [0..<Suc n])"
    using IH(1) step IH(3) by simp
  have "?P (Suc n) div 256 ^ Suc n = x ! Suc n + ?P n div 256 ^ n div 256"
  proof -
    have "?P (Suc n) = ?P n + x ! Suc n * 256 ^ Suc n" by simp
    then have "?P (Suc n) div 256 ^ Suc n = ?P n div 256 ^ Suc n + x ! Suc n"
      by (simp only: div_mult_self1 power_eq_0_iff)  simp
    moreover have "?P n div 256 ^ Suc n = ?P n div 256 ^ n div 256"
      unfolding power_Suc2 by (rule zdiv_zmult2_eq) simp
    ultimately show ?thesis by simp
  qed
  moreover have x2n: "x2 ! Suc n = x ! Suc n + x' ! n div 256" using IH(2,5) n by (simp add: x2_def)
  ultimately have "x2 ! Suc n = ?P (Suc n) div 256 ^ Suc n" by (simp only: IH(3))
  moreover have "\<bar>x2 ! Suc n\<bar> \<le> 700"
  proof -
    have "\<bar>x ! Suc n\<bar> \<le> 600" using x(2) n by simp
    then show ?thesis unfolding x2n using IH(4) by linarith
  qed
  moreover have "\<forall>k<64. Suc n < k \<longrightarrow> x2 ! k = x ! k" using IH(5) by (simp add: x2_def)
  moreover have "length x2 = 64" using IH(2) by (simp add: x2_def)
  ultimately show ?case using word by blast
qed

lemma emitted_digits:
  assumes "length x = 64" "n \<le> 64"
  shows "map (\<lambda>k. of_int ((\<Sum>j<Suc k. x ! j * 256 ^ j) div 256 ^ k) :: byte) [0..<n]
    = map (\<lambda>k. of_int ((\<Sum>j<n. x ! j * 256 ^ j) div 256 ^ k)) [0..<n]"
proof (rule map_cong)
  fix k assume "k \<in> set [0..<n]"
  then have k: "k < n" by simp
  let ?P = "\<lambda>n. \<Sum>j<n. x ! j * (256 :: int) ^ j"
  have "\<exists>r. ?P n = ?P (Suc k) + 256 ^ Suc k * r" using k
  proof (induction n)
    case (Suc n)
    show ?case
    proof (cases "k = n")
      case True
      then show ?thesis by (intro exI [of _ 0]) simp
    next
      case False
      then have less: "k < n" using Suc.prems by simp
      then obtain r where "?P n = ?P (Suc k) + 256 ^ Suc k * r" using Suc.IH by blast
      moreover have "(256 :: int) ^ n = 256 ^ Suc k * 256 ^ (n - Suc k)" using less by (simp only: power_add [symmetric]) simp
      ultimately have "?P (Suc n) = ?P (Suc k) + 256 ^ Suc k * (r + x ! n * 256 ^ (n - Suc k))"
        by (simp only: sum.lessThan_Suc [of _ n] distrib_left mult.left_commute add.assoc)
      then show ?thesis by blast
    qed
  qed simp
  then obtain r where r: "?P n = ?P (Suc k) + 256 ^ Suc k * r" by blast
  have "?P n = ?P (Suc k) + (256 * r) * 256 ^ k" unfolding r by simp
  then have "?P n div 256 ^ k = ?P (Suc k) div 256 ^ k + 256 * r" by (simp only: div_mult_self1 power_eq_0_iff) simp
  then show "(of_int (?P (Suc k) div 256 ^ k) :: byte) = of_int (?P n div 256 ^ k)"
    unfolding byte_of_int_iff by (simp only: mod_mult_self2)
qed simp

lemma final_range:
  assumes "length x = 64" "\<forall>k<32. \<bar>x ! k\<bar> \<le> 129"
  defines "w \<equiv> (\<Sum>k<32. x ! k * 256 ^ k) - x ! 31 div 16 * ell"
  shows "- ell < w" "w < ell"
proof -
  let ?s = "\<Sum>k<31. x ! k * (256 :: int) ^ k"
  have "?s = lval 256 (take 31 x)" using assms(1) by (simp add: lval_sum)
  moreover have "\<forall>v\<in>set (take 31 x). -129 \<le> v \<and> v \<le> 129"
  proof
    fix v assume "v \<in> set (take 31 x)"
    then obtain k where "k < 31" "v = x ! k" by (auto simp: in_set_conv_nth)
    then have "\<bar>v\<bar> \<le> 129" using assms(2) by simp
    then show "-129 \<le> v \<and> v \<le> 129" by linarith
  qed
  moreover have "255 * lval 256 (replicate 31 1) = 256 ^ 31 - 1" using lval_ones [of 256 31] by simp
  ultimately have "-129 * (256 ^ 31 - 1) \<le> 255 * ?s" "255 * ?s \<le> 129 * (256 ^ 31 - 1)"
    using lval_ge [of 256 "take 31 x" "-129"] lval_le [of 256 "take 31 x" 129] assms(1) by simp_all
  moreover have "(\<Sum>k<32. x ! k * (256 :: int) ^ k) = ?s + x ! 31 * 256 ^ 31"
    using sum.lessThan_Suc [of "\<lambda>k. x ! k * (256 :: int) ^ k" 31] by simp
  moreover have "\<bar>x ! 31\<bar> \<le> 129" using assms(2) by simp
  then have "-9 \<le> x ! 31 div 16" "x ! 31 div 16 \<le> 9" by linarith+
  moreover have "0 \<le> x ! 31 mod 16" "x ! 31 mod 16 \<le> 15" "x ! 31 = 16 * (x ! 31 div 16) + x ! 31 mod 16"
    by simp_all
  ultimately show "- ell < w" "w < ell" unfolding w_def ell_def by simp_all
qed

lemma last_loop:
  assumes "length (x :: int list) = 64" "n \<le> 32"
  shows "foldl (\<lambda>x j. x[j := x ! j - of_int c * modL_L ! j]) (map of_int x) [0..<n]
    = (map of_int (map (\<lambda>k. if k < n then x ! k - c * L_int ! k else x ! k) [0..<64]) :: w64 list)"
  using assms(2)
proof (induction n)
  case 0
  have "map (\<lambda>k. x ! k) [0..<64] = x" using assms(1) map_nth [of x] by simp
  then show ?case by simp
next
  case (Suc n)
  then show ?case
    by (auto intro!: nth_equalityI simp: nth_list_update modL_L_int)
qed

section \<open>The whole reduction\<close>

lemma sum_L: "(\<Sum>k<32. L_int ! k * 256 ^ k) = ell"
  using lval_sum [of 256 L_int] lval_L by simp

lemma sum_take: "length x = 64 \<Longrightarrow> \<forall>k<64. 32 \<le> k \<longrightarrow> x ! k = 0 \<Longrightarrow> lval 256 x = (\<Sum>k<32. x ! k * 256 ^ k)"
proof -
  assume x: "length x = 64" "\<forall>k<64. 32 \<le> k \<longrightarrow> x ! k = 0"
  have "lval 256 x = (\<Sum>k<64. x ! k * 256 ^ k)" using x(1) by (simp only: lval_sum)
  also have "\<dots> = (\<Sum>k<32. x ! k * 256 ^ k)"
    using x(2) by (intro sum.mono_neutral_right) auto
  finally show ?thesis .
qed

lemma kl_modL_int:
  assumes "limb_inv 63 x"
  shows "length (kl_modL (map of_int x)) = 32" "int (le_num (kl_modL (map of_int x))) = lval 256 x mod ell"
proof -
  obtain y q where y: "foldl modL_outer (map of_int x) (rev [32..<64]) = map of_int y" "limb_inv 31 y"
    "lval 256 y = lval 256 x - ell * q"
    using modL_passes [OF assms, of 32] by auto
  have y64: "length y = 64" and y0: "\<forall>k<64. 32 \<le> k \<longrightarrow> y ! k = 0" using y(2) by (simp_all add: limb_inv_def)
  have yb: "\<forall>k<32. \<bar>y ! k\<bar> \<le> 129"
  proof (intro allI impI)
    fix k :: nat assume "k < 32"
    then consider "k + 12 \<le> 31" | "31 < k + 12" "k \<le> 31" by linarith
    then show "\<bar>y ! k\<bar> \<le> 129" using y(2) by cases (force simp: limb_inv_def)+
  qed
  obtain z c where z: "foldl modL_low (w64s (y, 0)) [0..<32] = w64s (z, c)" "length z = 64"
    "\<forall>k<32. 0 \<le> z ! k \<and> z ! k < 256" "\<forall>k<64. 32 \<le> k \<longrightarrow> z ! k = y ! k" "\<bar>c\<bar> \<le> 20"
    "(\<Sum>k<32. z ! k * 256 ^ k) + c * 256 ^ 32 = (\<Sum>k<32. y ! k * 256 ^ k) - y ! 31 div 16 * ell"
    using low_prefix [OF y64 yb, of 32] unfolding sum_L by blast
  define w where "w = (\<Sum>k<32. y ! k * 256 ^ k) - y ! 31 div 16 * ell"
  have w: "- ell < w" "w < ell" using final_range [OF y64 yb] by (simp_all add: w_def)
  define d where "d = (\<Sum>k<32. z ! k * 256 ^ k)"
  have d: "0 \<le> d" "d < 256 ^ 32"
  proof -
    have "d = lval 256 (take 32 z)" using z(2) by (simp add: d_def lval_sum)
    moreover have "\<forall>v\<in>set (take 32 z). 0 \<le> v \<and> v < 256" using z(2,3) by (auto simp: in_set_conv_nth)
    ultimately show "0 \<le> d" "d < 256 ^ 32" using lval_digit_range [of 256 "take 32 z"] z(2) by simp_all
  qed
  have dc: "d + c * 256 ^ 32 = w" using z(6) by (simp only: d_def w_def)
  have c: "c = (if w < 0 then -1 else 0)"
    using dc d w by (auto simp: ell_def)
  define u where "u = map (\<lambda>k. if k < 32 then z ! k - c * L_int ! k else z ! k) [0..<64]"
  have u64: "length u = 64" by (simp add: u_def)
  have ub: "\<forall>k<64. \<bar>u ! k\<bar> \<le> 600"
  proof (intro allI impI)
    fix k :: nat assume k: "k < 64"
    show "\<bar>u ! k\<bar> \<le> 600"
    proof (cases "k < 32")
      case True
      then show ?thesis using z(3) [rule_format, OF True] L_range [OF True] k c by (auto simp: u_def)
    next
      case False
      then show ?thesis using z(4) y0 k by (simp add: u_def)
    qed
  qed
  define U where "U = (\<Sum>j<32. u ! j * 256 ^ j)"
  have "U = d - c * ell"
    unfolding U_def d_def sum_L [symmetric] sum_distrib_left
    by (simp add: u_def sum_subtractf [symmetric] left_diff_distrib mult.assoc)
  then have U: "U = w + (if w < 0 then 256 ^ 32 + ell else 0)" using dc c by auto
  obtain x' where emit: "foldl modL_emit (map of_int u, []) [0..<32]
      = (map of_int x', map (\<lambda>k. of_int ((\<Sum>j<Suc k. u ! j * 256 ^ j) div 256 ^ k)) [0..<32])"
    using emit_prefix [OF u64 ub, of 32] by auto
  have low: "foldl modL_low (map of_int y, 0) [0..<32] = (map of_int z, of_int c)" using z(1) by simp
  have sub: "foldl (\<lambda>x j. x[j := x ! j - of_int c * modL_L ! j]) (map of_int z) [0..<32] = (map of_int u :: w64 list)"
    using last_loop [OF z(2), of 32 c] by (simp only: u_def order_refl)
  have "kl_modL (map of_int x) = map (\<lambda>k. of_int ((\<Sum>j<Suc k. u ! j * 256 ^ j) div 256 ^ k)) [0..<32]"
    unfolding kl_modL_def y(1) low Let_def prod.case sub emit by simp
  also have "\<dots> = map (\<lambda>k. of_int (U div 256 ^ k)) [0..<32]"
    unfolding U_def by (rule emitted_digits) (simp_all add: u64)
  finally have bytes: "kl_modL (map of_int x) = map (\<lambda>k. of_int (U div 256 ^ k)) [0..<32]" .
  then show "length (kl_modL (map of_int x)) = 32" by simp
  have "int (le_num (kl_modL (map of_int x))) = U mod 256 ^ 32" unfolding bytes by (rule digit_bytes)
  also have "\<dots> = (if w < 0 then w + ell else w)"
  proof (cases "w < 0")
    case True
    have "U mod 256 ^ 32 = (w + ell + 256 ^ 32) mod 256 ^ 32" unfolding U using True by (simp only: if_True ac_simps)
    also have "\<dots> = (w + ell) mod 256 ^ 32" by (rule mod_add_self2)
    also have "\<dots> = w + ell" using w True by (intro mod_pos_pos_trivial) (simp_all add: ell_def)
    finally show ?thesis using True by simp
  next
    case False
    then show ?thesis unfolding U using w by (simp add: ell_def)
  qed
  also have "\<dots> = w mod ell"
  proof (cases "w < 0")
    case True
    have "w mod ell = (w + ell) mod ell" by simp
    also have "\<dots> = w + ell" using w True by (intro mod_pos_pos_trivial) simp_all
    finally show ?thesis using True by simp
  next
    case False
    then show ?thesis using w by simp
  qed
  also have "w mod ell = lval 256 x mod ell"
  proof -
    have "lval 256 x = w + ell * (q + y ! 31 div 16)"
      using y(3) unfolding sum_take [OF y64 y0] w_def by (simp add: algebra_simps)
    then show ?thesis by (simp only: mod_mult_self2)
  qed
  finally show "int (le_num (kl_modL (map of_int x))) = lval 256 x mod ell" .
qed

lemma lval_bytes: "lval 256 (map uint bs) = int (le_num bs)"
proof (induction bs)
  case (Cons b bs)
  have "uint b = int (unat b)" by simp
  then show ?case using Cons by (simp only: list.map lval.simps le_num.simps of_nat_add of_nat_mult of_nat_numeral)
qed simp

lemma kl_reduce_ok:
  assumes "length bs = 64"
  shows "length (kl_reduce bs) = 32" "int (le_num (kl_reduce bs)) = int (le_num bs) mod ell"
proof -
  define x where "x = map uint bs"
  have ub: "0 \<le> uint b \<and> uint b \<le> 255" for b :: byte using uint_lt2p [of b] by simp
  have len: "length x = 64" using assms by (simp add: x_def)
  have b: "\<bar>x ! k\<bar> \<le> 255" "\<bar>x ! k\<bar> \<le> 256" if "k \<le> 63" for k
    using that assms ub [of "bs ! k"] by (simp_all add: x_def)
  have "limb_inv 63 x" unfolding limb_inv_def using len b by auto
  moreover have "map (\<lambda>i. ucast (bs ! i)) [0..<64] = (map of_int x :: w64 list)"
    using assms by (auto intro!: nth_equalityI simp: x_def)
  ultimately show "length (kl_reduce bs) = 32" "int (le_num (kl_reduce bs)) = int (le_num bs) mod ell"
    using kl_modL_int [of x] by (simp_all add: kl_reduce_def lval_bytes x_def)
qed

text \<open>
  C10. \<open>kl_reduce\<close> is reduction modulo the group order: on every 64-byte number it returns the 32 bytes
  of the residue, for all inputs and with no carry ever leaving 64 bits.
\<close>
theorem kl_reduce_correct:
  assumes "length bs = 64"
  shows "kl_reduce bs = le_bytes 32 (le_num bs mod nat ell)"
proof (rule le_num_inject)
  note r = kl_reduce_ok [OF assms]
  show "length (kl_reduce bs) = length (le_bytes 32 (le_num bs mod nat ell))"
    using r(1) by (simp add: le_bytes_def)
  have e: "int (nat ell) = ell" "nat ell \<le> 256 ^ 32" "0 < nat ell" by (simp_all add: ell_def)
  have "int (le_num (kl_reduce bs)) = int (le_num bs mod nat ell)" unfolding r(2) of_nat_mod e(1) ..
  then have "le_num (kl_reduce bs) = le_num bs mod nat ell" by simp
  moreover have "le_num bs mod nat ell < 256 ^ 32" using e by (meson mod_less_divisor order_less_le_trans)
  ultimately show "le_num (kl_reduce bs) = le_num (le_bytes 32 (le_num bs mod nat ell))"
    by (simp add: le_num_le_bytes)
qed

theorem kl_reduce_correct_witness:
  "kl_reduce (le_bytes 64 (nat ell + 5)) = 5 # replicate 31 0"
proof -
  have "le_num (le_bytes 64 (nat ell + 5)) mod nat ell = 5" by (simp add: le_num_le_bytes ell_def)
  moreover have "length (le_bytes 64 (nat ell + 5)) = 64" by (simp add: le_bytes_def)
  ultimately have "kl_reduce (le_bytes 64 (nat ell + 5)) = le_bytes 32 5"
    using kl_reduce_correct [of "le_bytes 64 (nat ell + 5)"] by simp
  also have "\<dots> = 5 # replicate 31 0"
    by (rule le_num_inject) (simp_all add: le_num_le_bytes, simp add: le_bytes_def)
  finally show ?thesis .
qed

end
