(* ===== verification/Ed25519_Verify.thy ===== *)
theory Ed25519_Verify
  imports Ed25519_Curve Ed25519_Scalar Lease
begin

text \<open>
  The signature check against its specification. \<open>ed25519_spec\<close> is the verification equation of
  RFC 8032 over integers and byte strings: decode the key, hash \<open>R\<close>, key and message with the
  one-shot SHA-512, reduce modulo the group order, and compare \<open>R\<close> with the encoding of
  \<open>[S]B + [k](-A)\<close>. It differs from the RFC where the code does: \<open>S\<close> is only required to be below
  \<open>2 ^ 253\<close> (the RFC wants \<open>S < L\<close>), and the key need not be canonical.
\<close>

definition ed25519_spec :: "byte list \<Rightarrow> byte list \<Rightarrow> byte list \<Rightarrow> bool" where
  "ed25519_spec msg sig pubkey =
     (let R = take 32 sig; S = le_num (drop 32 sig) in
      S < 2 ^ 253 \<and>
      (case ed_decode_neg pubkey of
         None \<Rightarrow> False
       | Some A \<Rightarrow>
           let k = le_num (sha512_spec (R @ pubkey @ msg)) mod nat ell
           in R = ed_encode (ed_add (ed_mul S ed_base) (ed_mul k A))))"

section \<open>Comparison and the bound on S\<close>

lemma top_bit_of_or_neg: "drop_bit 31 (d OR (0 - d)) = 0 \<longleftrightarrow> d = 0" for d :: w32
proof
  assume zero: "drop_bit 31 (d OR (0 - d)) = 0"
  show "d = 0"
  proof (rule ccontr)
    assume d: "d \<noteq> 0"
    have "bit (drop_bit 31 (d OR (0 - d))) 0 = bit (d OR (0 - d)) 31"
      unfolding bit_drop_bit_eq by simp
    then have "\<not> bit (d OR (0 - d)) 31" unfolding zero by simp
    then have "\<not> bit (unat d) 31" "\<not> bit (unat (0 - d)) 31" by (simp_all add: bit_or_iff bit_unsigned_iff)
    then have "unat d div 2 ^ 31 mod 2 = 0" "unat (0 - d) div 2 ^ 31 mod 2 = 0"
      by (simp_all add: bit_iff_odd even_iff_mod_2_eq_zero)
    moreover have "unat d div 2 ^ 31 < 2" "unat (0 - d) div 2 ^ 31 < 2"
      using unsigned_less [of d] unsigned_less [of "0 - d"] by (simp_all add: div_less_iff_less_mult)
    ultimately have "unat d < 2 ^ 31" "unat (0 - d) < 2 ^ 31" by (simp_all add: div_eq_0_iff)
    then have "unat (d + (0 - d)) = unat d + unat (0 - d)" by (subst unat_word_ariths(1)) simp
    then show False using d by (simp add: unat_eq_zero)
  qed
qed simp

lemma kl_ct_eq32_ok:
  assumes "32 \<le> length a" "length b = 32"
  shows "kl_ct_eq32 a b = 0 \<longleftrightarrow> take 32 a = b"
proof -
  have uc: "(ucast v :: w32) = 0 \<longleftrightarrow> v = 0" for v :: byte
  proof
    assume "(ucast v :: w32) = 0"
    then have "unat (ucast v :: w32) = 0" by simp
    moreover have "unat (ucast v :: w32) = unat v"
      using byte_less [of v] by (simp add: unsigned_ucast_eq take_bit_nat_eq_self)
    ultimately show "v = 0" by (simp add: unat_eq_zero)
  qed simp
  have "kl_ct_eq32 a b = 0 \<longleftrightarrow> (\<forall>i\<in>set [0..<32]. (ucast (a ! i XOR b ! i) :: w32) = 0)"
    unfolding kl_ct_eq32_def Let_def top_bit_of_or_neg fold_or_zero ..
  also have "\<dots> \<longleftrightarrow> (\<forall>i<32. a ! i = b ! i)" by (auto simp: uc xor_zero_iff)
  also have "\<dots> \<longleftrightarrow> take 32 a = b" using assms by (auto simp: list_eq_iff_nth_eq)
  finally show ?thesis .
qed

lemma high_bits: "b AND 0xe0 = 0 \<longleftrightarrow> unat b < 32" for b :: byte
proof -
  have "b AND 0xe0 = push_bit 5 (drop_bit 5 b)"
  proof (rule bit_word_eqI)
    fix n assume n: "n < LENGTH(8)"
    have e: "(0xe0 :: byte) = NOT (mask 5)" by (simp add: mask_eq_exp_minus_1)
    show "bit (b AND 0xe0) n = bit (push_bit 5 (drop_bit 5 b)) n"
      unfolding e using n by (auto simp: bit_simps)
  qed
  moreover have "push_bit 5 (drop_bit 5 b) = 0 \<longleftrightarrow> drop_bit 5 b = 0"
  proof
    assume z: "push_bit 5 (drop_bit 5 b) = 0"
    show "drop_bit 5 b = 0"
    proof (rule bit_word_eqI)
      fix n assume "n < LENGTH(8)"
      have "bit (push_bit 5 (drop_bit 5 b)) (n + 5) = bit (0 :: byte) (n + 5)" by (simp only: z)
      then show "bit (drop_bit 5 b) n = bit (0 :: byte) n"
        by (auto simp: bit_push_bit_iff bit_drop_bit_eq dest: bit_imp_le_length)
    qed
  qed simp
  moreover have "drop_bit 5 b = 0 \<longleftrightarrow> unat b < 32"
  proof -
    have "drop_bit 5 b = 0 \<longleftrightarrow> unat (drop_bit 5 b) = 0" by (simp add: unat_eq_zero)
    also have "unat (drop_bit 5 b) = unat b div 32"
      by (simp only: unat_drop_bit_eq) (simp add: drop_bit_eq_div)
    finally show ?thesis by (simp add: div_eq_0_iff)
  qed
  ultimately show ?thesis by simp
qed

lemma scalar_bound:
  assumes "length sig = 64"
  shows "sig ! 63 AND 0xe0 = 0 \<longleftrightarrow> le_num (drop 32 sig) < 2 ^ 253"
proof -
  let ?s = "drop 32 sig"
  have "?s = take 31 ?s @ [sig ! 63]"
    using take_Suc_conv_app_nth [of 31 ?s] assms by simp
  then have "le_num ?s = le_num (take 31 ?s @ [sig ! 63])" by (rule arg_cong)
  then have num: "le_num ?s = le_num (take 31 ?s) + 256 ^ 31 * unat (sig ! 63)"
    unfolding le_num_append using assms by simp
  have "le_num (take 31 ?s) < 256 ^ 31" using le_num_less [of "take 31 ?s"] assms by simp
  moreover have "a + 256 ^ 31 * t < 2 ^ 253 \<longleftrightarrow> t < 32" if "a < 256 ^ 31" for a t :: nat
  proof
    assume "t < 32"
    then have "256 ^ 31 * t \<le> 256 ^ 31 * (31 :: nat)" by (intro mult_le_mono2) simp
    then show "a + 256 ^ 31 * t < 2 ^ 253" using that by simp
  next
    assume l: "a + 256 ^ 31 * t < 2 ^ 253"
    show "t < 32"
    proof (rule ccontr)
      assume "\<not> t < 32"
      then have "256 ^ 31 * (32 :: nat) \<le> 256 ^ 31 * t" by (intro mult_le_mono2) simp
      then show False using l by simp
    qed
  qed
  ultimately have "le_num ?s < 2 ^ 253 \<longleftrightarrow> unat (sig ! 63) < 32" unfolding num by blast
  then show ?thesis by (simp only: high_bits)
qed

section \<open>The check computes the specification\<close>

lemma sha512_hram:
  assumes "length junk = 128" "length sig = 64" "length pubkey = 32" "length msg < 2 ^ 60"
  shows "kl_sha512_final (let ctx = kl_sha512_update (kl_sha512_init junk) (map ((!) sig) [0..<32] @ map ((!) pubkey) [0..<32])
      in if msg \<noteq> [] then kl_sha512_update ctx msg else ctx) = sha512_spec (take 32 sig @ pubkey @ msg)"
proof -
  have pre: "map ((!) sig) [0..<32] = take 32 sig" "map ((!) pubkey) [0..<32] = pubkey"
    using assms(2,3) by (simp_all add: take_upt map_nth [symmetric] nth_equalityI list_eq_iff_nth_eq)
  have empty: "kl_sha512_update ctx [] = ctx" for ctx by (simp add: kl_sha512_update.simps)
  have "(if msg \<noteq> [] then kl_sha512_update ctx msg else ctx) = kl_sha512_update ctx msg" for ctx
    by (simp add: empty)
  then show ?thesis
    unfolding pre Let_def using sha512_streaming [OF assms(1), of "take 32 sig @ pubkey" msg] assms(2-4) by simp
qed

lemma ed25519_verify_from_ok:
  assumes "length junk = 128" "length sig = 64" "length pubkey = 32" "length msg < 2 ^ 60"
  shows "ed25519_verify_from junk msg sig pubkey = ed25519_spec msg sig pubkey"
proof (cases "le_num (drop 32 sig) < 2 ^ 253")
  case False
  then show ?thesis using scalar_bound [OF assms(2)] by (simp add: ed25519_verify_from_def ed25519_spec_def Let_def)
next
  case S: True
  then have guard: "\<not> sig ! 63 AND 0xe0 \<noteq> 0" using scalar_bound [OF assms(2)] by simp
  show ?thesis
  proof (cases "pt_unpackneg pubkey")
    case None
    then have "ed_decode_neg pubkey = None" using pt_unpackneg_ok [OF assms(3)] by simp
    then show ?thesis using None guard by (simp add: ed25519_verify_from_def ed25519_spec_def Let_def)
  next
    case (Some A)
    then have A: "pt_small A" "ed_decode_neg pubkey = Some (pv A)" using pt_unpackneg_ok [OF assms(3)] by simp_all
    define hram where "hram = sha512_spec (take 32 sig @ pubkey @ msg)"
    have hl: "length hram = 64"
      unfolding hram_def sha512_hram [OF assms, symmetric] by (rule length_sha512_final)
    note red = kl_reduce_ok [OF hl]
    have k: "le_num (kl_reduce hram) = le_num hram mod nat ell"
      using red(2) by (metis ell_def nat_int nat_mod_distrib of_nat_0_le_iff zero_le_numeral add_nonneg_nonneg zero_le_power)
    note hA = pt_scalarmult_ok [OF A(1) red(1)]
    have sl: "length (drop 32 sig) = 32" using assms(2) by simp
    note SB = pt_scalarbase_ok [OF sl]
    note sum = pt_add_ok [OF SB(1) hA(1)]
    define R where "R = pt_pack (pt_add (pt_scalarbase (drop 32 sig)) (pt_scalarmult A (kl_reduce hram)))"
    have R: "R = ed_encode (ed_add (ed_mul (le_num (drop 32 sig)) ed_base) (ed_mul (le_num hram mod nat ell) (pv A)))"
      unfolding R_def pt_pack_ok [OF sum(1)] sum(2) SB(2) hA(2) k ..
    have "length R = 32"
      unfolding R by (cases "ed_add (ed_mul (le_num (drop 32 sig)) ed_base) (ed_mul (le_num hram mod nat ell) (pv A))")
        (simp add: Let_def le_bytes_def)
    then have ct: "kl_ct_eq32 sig R = 0 \<longleftrightarrow> take 32 sig = R" using assms(2) by (intro kl_ct_eq32_ok) simp_all
    have "ed25519_verify_from junk msg sig pubkey = (kl_ct_eq32 sig R = 0)"
      unfolding ed25519_verify_from_def if_not_P [OF guard] Some option.case
      using sha512_hram [OF assms] by (simp only: Let_def R_def hram_def)
    also have "\<dots> = ed25519_spec msg sig pubkey"
      unfolding ct ed25519_spec_def Let_def A(2) option.case using S by (simp add: R hram_def)
    finally show ?thesis .
  qed
qed

section \<open>A key everything verifies under\<close>

text \<open>
  The encoding of the neutral point is accepted as a public key. The ladder then computes the same
  multiple whatever the scalar is, so one signature with \<open>S = 0\<close> verifies for every message: the
  equation does not exclude keys of small order, and a key set must not contain one.
\<close>

definition neutral_key :: "byte list" where
  "neutral_key = 1 # replicate 31 0"

lemma ed_pair_neutral: "\<exists>N. \<forall>n. ed_pair k n ed_zero = (N, N)"
proof (induction k)
  case (Suc k)
  then obtain N where "\<And>n. ed_pair k n ed_zero = (N, N)" by blast
  then show ?case by (intro exI [of _ "ed_add N N"]) simp
qed (rule exI [of _ ed_zero], simp)

lemma ed_mul_neutral: "ed_mul n ed_zero = ed_mul 0 ed_zero"
  using ed_pair_neutral [of 256] by (auto simp: ed_mul_def)

lemma ed_decode_neutral: "ed_decode_neg neutral_key = Some ed_zero"
proof -
  have n: "le_num neutral_key = 1" by (simp add: neutral_key_def)
  have r: "ed_root 0 v = Some 0" for v by (simp add: ed_root_def)
  have "\<not> bit (1 :: nat) 255" by (simp add: bit_1_iff)
  then show ?thesis by (simp add: ed_decode_neg_def n r p25519_def ed_zero_def)
qed

lemma neutral_key_accepts:
  assumes "length S = 32" "le_num S < 2 ^ 253"
  shows "\<exists>R. length R = 32 \<and> (\<forall>msg. length msg < 2 ^ 60 \<longrightarrow> ed25519_verify msg (R @ S) neutral_key)"
proof -
  define q where "q = ed_add (ed_mul (le_num S) ed_base) (ed_mul 0 ed_zero)"
  have len: "length (ed_encode q) = 32" by (cases q) (simp add: Let_def le_bytes_def)
  have k: "length neutral_key = 32" by (simp add: neutral_key_def)
  have "ed_add (ed_mul (le_num S) ed_base) (ed_mul n ed_zero) = q" for n
    unfolding q_def ed_mul_neutral [of n] ..
  then have spec: "ed25519_spec msg (ed_encode q @ S) neutral_key" for msg
    using assms by (simp add: ed25519_spec_def Let_def len ed_decode_neutral)
  have "ed25519_verify msg (ed_encode q @ S) neutral_key" if "length msg < 2 ^ 60" for msg
    using ed25519_verify_from_ok [of "replicate 128 0", OF _ _ k that] assms(1) len spec
    by (simp add: ed25519_verify_def)
  with len show ?thesis by blast
qed

section \<open>Properties\<close>

text \<open>
  C8. The signature check of the SDK, carries, conditional swaps and machine words included, decides
  exactly the verification equation over integers: for a 64-byte signature, a 32-byte key and a
  message of less than \<open>2 ^ 60\<close> bytes, whatever its hash buffer held before.
\<close>
theorem ed25519_verify_correct:
  assumes "length sig = 64" "length pubkey = 32" "length msg < 2 ^ 60" "length junk = 128"
  shows "ed25519_verify_from junk msg sig pubkey = ed25519_spec msg sig pubkey
    \<and> ed25519_verify msg sig pubkey = ed25519_spec msg sig pubkey"
  using ed25519_verify_from_ok [OF assms(4,1,2,3)] ed25519_verify_from_ok [of "replicate 128 0", OF _ assms(1-3)]
  by (simp add: ed25519_verify_def)

theorem ed25519_verify_correct_witness:
  "(\<exists>sig. length sig = 64 \<and> ed25519_verify [0x72] sig neutral_key) \<and>
   \<not> ed25519_verify [0x72] (replicate 64 0xff) neutral_key"
proof -
  have k: "length neutral_key = 32" by (simp add: neutral_key_def)
  have eq: "ed25519_verify [0x72] sig neutral_key = ed25519_spec [0x72] sig neutral_key" if "length sig = 64" for sig
    using ed25519_verify_correct [OF that k, of "[0x72]" "replicate 128 0"] by simp
  obtain R where R: "length R = 32" "ed25519_verify [0x72] (R @ replicate 32 0) neutral_key"
    using neutral_key_accepts [of "replicate 32 0"] by (auto dest: spec [of _ "[0x72]"])
  have "length (R @ replicate 32 0) = 64" using R(1) by simp
  moreover have "ed25519_spec [0x72] (R @ replicate 32 0) neutral_key"
    using eq [OF calculation] R(2) by simp
  then have "ed25519_verify [0x72] (R @ replicate 32 0) neutral_key" using eq [OF calculation] by simp
  moreover have "\<not> ed25519_verify [0x72] (replicate 64 0xff) neutral_key"
  proof -
    have top: "le_num (replicate 31 0xff @ [0xff]) = le_num (replicate 31 0xff) + 256 ^ 31 * 255"
      unfolding le_num_append by simp
    have "drop 32 (replicate 64 (0xff :: byte)) = replicate 31 0xff @ [0xff]"
      using replicate_add [of 31 1 "0xff :: byte"] by simp
    then have "\<not> ed25519_spec [0x72] (replicate 64 0xff) neutral_key"
      unfolding ed25519_spec_def Let_def using top by simp
    then show ?thesis using eq by simp
  qed
  ultimately show ?thesis by blast
qed

text \<open>
  Every point the check computes lies on the curve: a 32-byte key that decodes is the negation of
  a curve point with the encoded \<open>y\<close> and the encoded sign, and every scalar multiple of it, every
  multiple of the base point and their sum satisfy the curve equation.
\<close>
theorem ed25519_stays_on_curve:
  assumes "length pubkey = 32" "pt_unpackneg pubkey = Some A" "length s = 32" "length h = 32"
  shows "(case pv A of (x, y, z, t) \<Rightarrow>
      z = 1 \<and> y = int (le_num pubkey mod 2 ^ 255) mod p25519 \<and> 0 \<le> x \<and> x < p25519
      \<and> (y ^ 2 - x ^ 2) mod p25519 = (1 + ed_d * x ^ 2 * y ^ 2) mod p25519
      \<and> (x \<noteq> 0 \<longrightarrow> odd x \<noteq> bit (le_num pubkey) 255))
    \<and> on_curve (pv (pt_scalarmult A h)) \<and> on_curve (pv (pt_scalarbase s))
    \<and> on_curve (pv (pt_add (pt_scalarbase s) (pt_scalarmult A h)))"
proof -
  have A: "pt_small A" "ed_decode_neg pubkey = Some (pv A)"
    using pt_unpackneg_ok [OF assms(1)] assms(2) by simp_all
  obtain x y z t where p: "pv A = (x, y, z, t)" by (cases "pv A")
  note dec = ed_decode_sound [OF A(2) [unfolded p]]
  have eq: "(y ^ 2 - x ^ 2) mod p25519 = (1 + ed_d * x ^ 2 * y ^ 2) mod p25519"
  proof -
    have t: "cong_p t (x * y)" and e: "cong_p (y ^ 2 - x ^ 2) (1 + ed_d * t ^ 2)"
      using dec(1) by (simp_all add: on_curve_def dec(3))
    have "cong_p (1 + ed_d * t ^ 2) (1 + ed_d * (x * y) ^ 2)"
      by (rule mod_add_cong [OF refl mod_mult_cong [OF refl cong_power [OF t]]])
    then show ?thesis using e by (simp add: power_mult_distrib mult.assoc)
  qed
  have c: "on_curve (pv A)" using dec(1) by (simp add: p)
  note hA = pt_scalarmult_ok [OF A(1) assms(4)] and SB = pt_scalarbase_ok [OF assms(3)]
  have mult: "on_curve (pv (pt_scalarmult A h))" "on_curve (pv (pt_scalarbase s))"
    unfolding hA(2) SB(2) by (intro ed_mul_on_curve c base_on_curve)+
  then have "on_curve (pv (pt_add (pt_scalarbase s) (pt_scalarmult A h)))"
    unfolding pt_add_ok(2) [OF SB(1) hA(1)] by (rule ed_add_on_curve [rotated])
  with mult eq show ?thesis using dec(2-6) by (simp add: p)
qed

theorem ed25519_stays_on_curve_witness:
  "\<exists>A. pt_unpackneg neutral_key = Some A \<and> on_curve (pv (pt_scalarmult A (replicate 32 7)))"
proof -
  have k: "length neutral_key = 32" by (simp add: neutral_key_def)
  obtain A where A: "pt_unpackneg neutral_key = Some A"
    using pt_unpackneg_ok [OF k] ed_decode_neutral by (cases "pt_unpackneg neutral_key") auto
  then show ?thesis
    using ed25519_stays_on_curve [of neutral_key A "replicate 32 7" "replicate 32 7"] k by simp
qed

text \<open>
  C9. A lease is trusted exactly when its key id names a trusted key, key and signature decode to 32
  and 64 bytes, and the Ed25519 equation holds for the canonical payload: the verifier with the SDK's
  own signature check in the place of its parameter.
\<close>
theorem lease_trust_is_ed25519:
  assumes "length (canonical_payload l) < 2 ^ 60"
  shows "is_trusted (verify ed25519_verify keys skew l now) \<longleftrightarrow>
    (\<exists>pub. keys (kid l) = Some pub \<and> length (b64_decode_flexible pub) = 32
      \<and> length (b64_decode_flexible (signature l)) = 64
      \<and> ed25519_spec (bytes_of (canonical_payload l)) (bytes_of (b64_decode_flexible (signature l)))
          (bytes_of (b64_decode_flexible pub)))"
proof -
  have "ed25519_verify (bytes_of (canonical_payload l)) sig pk = ed25519_spec (bytes_of (canonical_payload l)) sig pk"
    if "length sig = 64" "length pk = 32" for sig pk
    using ed25519_verify_from_ok [of "replicate 128 0", OF _ that] assms by (simp add: ed25519_verify_def)
  then show ?thesis by (auto simp: verify_trusted_iff signature_ok_def Let_def)
qed

lemma decode_encoded: "b64_decode_flexible (base64_encode s) = s"
  using base64_round_trip [of s] by (simp add: decode_flexible_eq base64_encode_def b64_normalise_encode)

theorem lease_trust_is_ed25519_witness:
  "\<exists>keys l. is_trusted (verify ed25519_verify keys 300 l 1301) \<and>
     \<not> is_trusted (verify ed25519_verify keys 300 (l\<lparr>signature := []\<rparr>) 1301)"
proof -
  obtain R where R: "length R = 32" "\<And>msg. length msg < 2 ^ 60 \<Longrightarrow> ed25519_verify msg (R @ replicate 32 0) neutral_key"
    using neutral_key_accepts [of "replicate 32 0"] by auto
  define keys :: keyset where "keys = (\<lambda>_. Some (base64_encode (string_of_bytes neutral_key)))"
  define l where "l = \<lparr>kid = ''k'', licenseKeyHash = [], instanceId = [], issuedAt = 0, expiresAt = 0,
      status = ''active'', signature = base64_encode (string_of_bytes (R @ replicate 32 0)), entitlements = []\<rparr>"
  have len: "length (canonical_payload l) < 2 ^ 60" "length (canonical_payload (l\<lparr>signature := []\<rparr>)) < 2 ^ 60"
    by (simp_all add: canonical_payload_def l_def csv_def int_str_def nat_str.simps)
  have "is_trusted (verify ed25519_verify keys 300 l 1301)"
    unfolding verify_trusted_iff signature_ok_def using len(1) R
    by (simp add: keys_def decode_encoded l_def neutral_key_def)
  moreover have "\<not> is_trusted (verify ed25519_verify keys 300 (l\<lparr>signature := []\<rparr>) 1301)"
    unfolding lease_trust_is_ed25519 [OF len(2)] by (simp add: b64_decode_flexible_def base64_decode_def)
  ultimately show ?thesis by blast
qed

text \<open>
  C12. The check does not enforce the range RFC 8032 prescribes for \<open>S\<close>: every 32-byte \<open>S\<close> below
  \<open>2 ^ 253\<close>, the group order \<open>L\<close> and larger values included, occurs in accepted signatures.
\<close>
theorem large_scalars_accepted:
  assumes "length S = 32" "le_num S < 2 ^ 253"
  shows "\<exists>pubkey R. length pubkey = 32 \<and> length R = 32 \<and>
    (\<forall>msg. length msg < 2 ^ 60 \<longrightarrow> ed25519_verify msg (R @ S) pubkey)"
proof -
  have "length neutral_key = 32" by (simp add: neutral_key_def)
  then show ?thesis using neutral_key_accepts [OF assms] by blast
qed

theorem large_scalars_accepted_witness:
  "\<exists>S pubkey R. int (le_num S) = ell \<and> length (R @ S) = 64 \<and> ed25519_verify [] (R @ S) pubkey"
proof -
  let ?S = "le_bytes 32 (nat ell)"
  have n: "le_num ?S = nat ell" by (simp add: le_num_le_bytes ell_def)
  have S: "length ?S = 32" "le_num ?S < 2 ^ 253" unfolding n by (simp_all add: le_bytes_def ell_def)
  obtain pubkey R where "length R = 32" "ed25519_verify [] (R @ ?S) pubkey"
    using large_scalars_accepted [OF S] by (auto dest: spec [of _ "[]"])
  then show ?thesis using n S(1) by (intro exI [of _ ?S] exI [of _ pubkey] exI [of _ R]) (simp add: ell_def)
qed

end
