(* ===== verification/Client_Workers.thy ===== *)
theory Client_Workers
  imports Client_Events
begin

text \<open>
  The auto-validation workers of \<open>Client\<close> (\<open>startAutoValidation\<close>, \<open>stopAutoValidation\<close>, \<open>av_loop_\<close>,
  \<open>take_exited_\<close> and the destructor in \<open>client.hpp\<close>) as threads that interleave. A section under
  \<open>av_mutex_\<close> is one step, since neither function gives the lock up in the middle; between sections
  anything may happen. A thread is named by the order of its creation. What a worker does outside the
  lock (\<open>refreshIfNeeded\<close>, and through it the listeners) is the program counter \<open>Cycling\<close>: it may last
  as long as it likes, and a listener may call \<open>startAutoValidation\<close> and \<open>stopAutoValidation\<close> from it.

  The epoch is a 64-bit word that wraps; \<open>bumps\<close> and a thread's \<open>born\<close> and \<open>cycles\<close> are counters of
  the proof, which no decision reads.
\<close>

section \<open>Timed waits\<close>

text \<open>
  \<open>condition_variable::wait_for\<close> with a predicate, at a moment when its thread looks: \<open>Some True\<close> if
  the predicate holds, \<open>Some False\<close> if it does not and the time is over, \<open>None\<close> if it goes on waiting.
\<close>

definition wait_for :: "bool \<Rightarrow> bool \<Rightarrow> bool option" where
  "wait_for stop over = (if stop then Some True else if over then Some False else None)"

lemma wait_for_simps [simp]:
  "wait_for stop over = Some True \<longleftrightarrow> stop" "wait_for stop over = Some False \<longleftrightarrow> \<not> stop \<and> over"
  "wait_for stop over = None \<longleftrightarrow> \<not> stop \<and> \<not> over"
  by (simp_all add: wait_for_def)

definition positive_interval :: "int \<Rightarrow> nat" where
  "positive_interval ms = (if ms > 0 then nat ms else 1)"

lemma positive_interval_pos [simp]: "0 < positive_interval ms"
  by (simp add: positive_interval_def)

section \<open>A worker\<close>

datatype av_pc =
    Head \<comment> \<open>about to test the loop condition under the lock\<close>
  | Waiting nat \<comment> \<open>in \<open>wait_for\<close>, until this time at most\<close>
  | Cycling \<comment> \<open>in \<open>refreshIfNeeded\<close>, without the lock\<close>
  | Leaving \<comment> \<open>out of \<open>av_loop_\<close>, \<open>done\<close> not stored yet\<close>
  | Published \<comment> \<open>\<open>done\<close> stored, the thread function about to return\<close>
  | Finished \<comment> \<open>the thread has ended: a join returns at once\<close>

record av_worker =
  w_epoch :: "64 word"
  w_done :: bool
  w_pc :: av_pc
  born :: nat
  began :: nat
  cycles :: nat

text \<open>
  What the worker itself does next. \<open>busy\<close>: its listener is inside a call of start or stop. An
  exception out of \<open>refreshIfNeeded\<close> is caught there, so it leaves \<open>Cycling\<close> like a return.
\<close>

definition av_loop :: "nat \<Rightarrow> 64 word \<Rightarrow> nat \<Rightarrow> bool \<Rightarrow> av_worker \<Rightarrow> av_worker option" where
  "av_loop interval epoch clock busy t =
     (case w_pc t of
        Head \<Rightarrow> Some (t\<lparr>w_pc := if epoch = w_epoch t then Waiting (clock + interval) else Leaving\<rparr>)
      | Waiting deadline \<Rightarrow>
          (case wait_for (epoch \<noteq> w_epoch t) (deadline \<le> clock) of
             None \<Rightarrow> None
           | Some True \<Rightarrow> Some (t\<lparr>w_pc := Leaving\<rparr>)
           | Some False \<Rightarrow> Some (t\<lparr>w_pc := Cycling, cycles := Suc (cycles t)\<rparr>))
      | Cycling \<Rightarrow> if busy then None else Some (t\<lparr>w_pc := Head\<rparr>)
      | Leaving \<Rightarrow> Some (t\<lparr>w_done := True, w_pc := Published\<rparr>)
      | Published \<Rightarrow> Some (t\<lparr>w_pc := Finished\<rparr>)
      | Finished \<Rightarrow> None)"

section \<open>The shared fields and the sections under the lock\<close>

text \<open>
  A caller of start and stop is an application thread or a worker (its listener). While it is inside
  the call it holds a \<open>Reaper\<close>: the workers left to join.
\<close>

datatype caller = App nat | Listener nat

datatype lifetime = Alive | Joining "nat list" | Destroyed | Aborted

record av_state =
  av_epoch :: "64 word"
  av_current :: "nat option"
  av_retired :: "nat list"
  workers :: "nat \<Rightarrow> av_worker option"
  spawned :: nat
  reaping :: "caller \<Rightarrow> nat list option"
  lifetime :: lifetime
  av_clock :: nat
  bumps :: nat

definition av_init :: "av_state" where
  "av_init = \<lparr>av_epoch = 0, av_current = None, av_retired = [], workers = Map.empty, spawned = 0,
     reaping = Map.empty, lifetime = Alive, av_clock = 0, bumps = 0\<rparr>"

definition bump :: "av_state \<Rightarrow> av_state" where
  "bump s = s\<lparr>av_epoch := av_epoch s + 1, bumps := Suc (bumps s)\<rparr>"

definition is_done :: "av_state \<Rightarrow> nat \<Rightarrow> bool" where
  "is_done s w = (case workers s w of None \<Rightarrow> False | Some t \<Rightarrow> w_done t)"

definition take_exited :: "av_state \<Rightarrow> nat list \<times> av_state" where
  "take_exited s =
     (filter (is_done s) (av_retired s), s\<lparr>av_retired := filter (\<lambda>w. \<not> is_done s w) (av_retired s)\<rparr>)"

definition spawn_worker :: "av_state \<Rightarrow> av_state" where
  "spawn_worker s =
     s\<lparr>av_current := Some (spawned s),
       workers := (workers s)(spawned s \<mapsto>
         \<lparr>w_epoch = av_epoch s, w_done = False, w_pc = Head, born = bumps s, began = av_clock s, cycles = 0\<rparr>),
       spawned := Suc (spawned s)\<rparr>"

text \<open>\<open>can_spawn\<close>: whether \<open>std::thread\<close>'s constructor returns; if it throws, the call unwinds
  through its \<open>Reaper\<close>.\<close>

definition startAutoValidation :: "bool \<Rightarrow> av_state \<Rightarrow> nat list \<times> av_state" where
  "startAutoValidation can_spawn s =
     (let (reap, s1) = take_exited s
      in (reap, if av_current s1 = None
                then (let s2 = bump s1 in if can_spawn then spawn_worker s2 else s2)
                else s1))"

definition stopAutoValidation :: "av_state \<Rightarrow> nat list \<times> av_state" where
  "stopAutoValidation s =
     (let (reap, s1) = take_exited s
      in (reap, case av_current s1 of
                  None \<Rightarrow> s1
                | Some w \<Rightarrow> (bump s1)\<lparr>av_retired := av_retired s1 @ [w], av_current := None\<rparr>))"

definition retire_all :: "av_state \<Rightarrow> nat list \<times> av_state" where
  "retire_all s =
     ((case av_current s of None \<Rightarrow> [] | Some w \<Rightarrow> [w]) @ av_retired s,
      (bump s)\<lparr>av_current := None, av_retired := []\<rparr>)"

section \<open>Steps\<close>

datatype av_event =
    Start caller bool | Stop caller | Reap caller | Return_from caller
  | Destroy | Join_next | End_members | Run nat | Time nat

definition ended :: "av_state \<Rightarrow> nat \<Rightarrow> bool" where
  "ended s w = (case workers s w of None \<Rightarrow> False | Some t \<Rightarrow> w_pc t = Finished)"

definition may_call :: "av_state \<Rightarrow> caller \<Rightarrow> bool" where
  "may_call s c =
     (reaping s c = None
      \<and> (case c of
           App k \<Rightarrow> lifetime s = Alive
         | Listener w \<Rightarrow> (case workers s w of None \<Rightarrow> False | Some t \<Rightarrow> w_pc t = Cycling)))"

definition enter :: "caller \<Rightarrow> nat list \<times> av_state \<Rightarrow> av_state" where
  "enter c r = (let (reap, s) = r in s\<lparr>reaping := (reaping s)(c \<mapsto> reap)\<rparr>)"

text \<open>
  One step. The destructor needs every application thread to be out of the client (its documented
  contract; \<open>idle_apps\<close>), but a worker's listener may be anywhere. When the destructor's joins are
  over the members are destroyed: a joinable \<open>std::thread\<close> among them is \<open>std::terminate\<close>.
\<close>

fun av_next :: "nat \<Rightarrow> bool \<Rightarrow> av_state \<Rightarrow> av_event \<Rightarrow> av_state option" where
  "av_next interval idle_apps s (Start c can_spawn) =
     (if may_call s c then Some (enter c (startAutoValidation can_spawn s)) else None)"
| "av_next interval idle_apps s (Stop c) =
     (if may_call s c then Some (enter c (stopAutoValidation s)) else None)"
| "av_next interval idle_apps s (Reap c) =
     (case reaping s c of
        Some (w # ws) \<Rightarrow> if ended s w then Some (s\<lparr>reaping := (reaping s)(c \<mapsto> ws)\<rparr>) else None
      | _ \<Rightarrow> None)"
| "av_next interval idle_apps s (Return_from c) =
     (if reaping s c = Some [] then Some (s\<lparr>reaping := (reaping s)(c := None)\<rparr>) else None)"
| "av_next interval idle_apps s Destroy =
     (if lifetime s = Alive \<and> idle_apps
      then (let (ws, s1) = retire_all s in Some (s1\<lparr>lifetime := Joining ws\<rparr>)) else None)"
| "av_next interval idle_apps s Join_next =
     (case lifetime s of
        Joining (w # ws) \<Rightarrow> if ended s w then Some (s\<lparr>lifetime := Joining ws\<rparr>) else None
      | _ \<Rightarrow> None)"
| "av_next interval idle_apps s End_members =
     (if lifetime s = Joining []
      then Some (s\<lparr>lifetime := if av_current s = None \<and> av_retired s = [] then Destroyed else Aborted\<rparr>)
      else None)"
| "av_next interval idle_apps s (Run w) =
     (case workers s w of
        None \<Rightarrow> None
      | Some t \<Rightarrow>
          (case av_loop interval (av_epoch s) (av_clock s) (reaping s (Listener w) \<noteq> None) t of
             None \<Rightarrow> None
           | Some t' \<Rightarrow> Some (s\<lparr>workers := (workers s)(w \<mapsto> t')\<rparr>)))"
| "av_next interval idle_apps s (Time d) = Some (s\<lparr>av_clock := av_clock s + d\<rparr>)"

text \<open>\<open>idle_apps\<close> is a guard over all application threads, so the step relation supplies it.\<close>

definition apps_idle :: "av_state \<Rightarrow> bool" where
  "apps_idle s \<longleftrightarrow> (\<forall>k. reaping s (App k) = None)"

inductive av_reachable :: "Config \<Rightarrow> av_state \<Rightarrow> bool" for g :: Config where
  av_start: "av_reachable g av_init"
| av_more: "av_reachable g s
    \<Longrightarrow> av_next (positive_interval (autoValidationIntervalMs g)) (apps_idle s) s e = Some s'
    \<Longrightarrow> av_reachable g s'"

section \<open>Who owns a thread\<close>

datatype owner = In_current | In_retired | In_reaper caller | In_destructor

fun held :: "av_state \<Rightarrow> owner \<Rightarrow> nat list" where
  "held s In_current = (case av_current s of None \<Rightarrow> [] | Some w \<Rightarrow> [w])"
| "held s In_retired = av_retired s"
| "held s (In_reaper c) = (case reaping s c of None \<Rightarrow> [] | Some ws \<Rightarrow> ws)"
| "held s In_destructor = (case lifetime s of Joining ws \<Rightarrow> ws | _ \<Rightarrow> [])"

definition one_owner :: "('o \<Rightarrow> nat list) \<Rightarrow> bool" where
  "one_owner h \<longleftrightarrow> (\<forall>p. distinct (h p)) \<and> (\<forall>p q w. w \<in> set (h p) \<longrightarrow> w \<in> set (h q) \<longrightarrow> p = q)"

text \<open>Ownership moves: a list is shared out among owners that had none of it.\<close>

lemma one_owner_less:
  assumes "one_owner h" "\<And>p. distinct (k p)" "\<And>p. set (k p) \<subseteq> set (h p)"
  shows "one_owner k"
  using assms unfolding one_owner_def by (meson subsetD)

lemma one_owner_give:
  assumes h: "one_owner h" and new: "h b = []" "a \<noteq> b"
    and parts: "distinct xs" "distinct ys" "set xs \<inter> set ys = {}" "set xs \<union> set ys \<subseteq> set (h a)"
  shows "one_owner (h(a := xs, b := ys))"
proof -
  let ?from = "\<lambda>p. if p = b then a else p"
  have from_h: "w \<in> set (h (?from p))" if "w \<in> set ((h(a := xs, b := ys)) p)" for w p
    using that parts by (auto split: if_splits)
  have "p = q" if w: "w \<in> set ((h(a := xs, b := ys)) p)" "w \<in> set ((h(a := xs, b := ys)) q)" for w p q
  proof -
    have "?from p = ?from q" using h from_h [OF w(1)] from_h [OF w(2)] unfolding one_owner_def by blast
    then show ?thesis using w new parts by (auto split: if_splits)
  qed
  moreover have "distinct ((h(a := xs, b := ys)) p)" for p
    using h parts by (simp add: one_owner_def)
  ultimately show ?thesis unfolding one_owner_def by blast
qed

lemma one_owner_merge:
  assumes h: "one_owner h" and "a \<noteq> b"
  shows "one_owner (h(a := h a @ h b, b := []))"
proof -
  let ?k = "h(a := h a @ h b, b := [])"
  have from_h: "\<exists>p'. w \<in> set (h p') \<and> (p = a \<and> p' = b \<or> p = p')" if "w \<in> set (?k p)" for w p
    using that by (auto split: if_splits)
  have own: "w \<in> set (h p) \<Longrightarrow> w \<in> set (h q) \<Longrightarrow> p = q" for w p q
    using h by (auto simp: one_owner_def)
  have "p = q" if w: "w \<in> set (?k p)" "w \<in> set (?k q)" for w p q
  proof -
    obtain p' q' where pq: "w \<in> set (h p')" "w \<in> set (h q')" "p = a \<and> p' = b \<or> p = p'" "q = a \<and> q' = b \<or> q = q'"
      using from_h [OF w(1)] from_h [OF w(2)] by auto
    have "p' = q'" by (rule own [OF pq(1,2)])
    moreover have "p \<noteq> b" "q \<noteq> b" using w by (auto split: if_splits)
    ultimately show ?thesis using pq(3,4) by auto
  qed
  moreover have "set (h a) \<inter> set (h b) = {}" using own assms(2) by blast
  then have "distinct (?k p)" for p using h by (simp add: one_owner_def)
  ultimately show ?thesis unfolding one_owner_def by blast
qed

lemma owned_give:
  assumes "h b = []" "a \<noteq> b" "set xs \<union> set ys = set (h a)"
  shows "(\<exists>p. w \<in> set ((h(a := xs, b := ys)) p)) \<longleftrightarrow> (\<exists>p. w \<in> set (h p))"
proof
  assume "\<exists>p. w \<in> set ((h(a := xs, b := ys)) p)"
  then obtain p where "w \<in> set ((h(a := xs, b := ys)) p)" ..
  then show "\<exists>p. w \<in> set (h p)" using assms(3) by (auto split: if_splits)
next
  assume "\<exists>p. w \<in> set (h p)"
  then obtain p where p: "w \<in> set (h p)" ..
  show "\<exists>p. w \<in> set ((h(a := xs, b := ys)) p)"
  proof (cases "p = a")
    case True
    with p assms(3) have "w \<in> set xs \<or> w \<in> set ys" by auto
    then show ?thesis using assms(2) by (auto intro: exI [of _ a] exI [of _ b])
  next
    case False
    then show ?thesis using p assms(1) by (intro exI [of _ p]) auto
  qed
qed

lemma owned_merge:
  assumes "a \<noteq> b"
  shows "(\<exists>p. w \<in> set ((h(a := h a @ h b, b := [])) p)) \<longleftrightarrow> (\<exists>p. w \<in> set (h p))"
proof
  assume "\<exists>p. w \<in> set ((h(a := h a @ h b, b := [])) p)"
  then show "\<exists>p. w \<in> set (h p)" by (auto split: if_splits)
next
  assume "\<exists>p. w \<in> set (h p)"
  then obtain p where "w \<in> set (h p)" ..
  then show "\<exists>p. w \<in> set ((h(a := h a @ h b, b := [])) p)"
    using assms by (intro exI [of _ "if p = b then a else p"]) auto
qed

lemma one_owner_fresh:
  assumes "one_owner h" "\<And>p. w \<notin> set (h p)" "h a = []"
  shows "one_owner (h(a := [w]))"
  using assms by (auto simp: one_owner_def)

lemma held_start:
  "reaping s c = None \<Longrightarrow> held (enter c (startAutoValidation ok s)) =
     (held s)(In_retired := filter (\<lambda>w. \<not> is_done s w) (av_retired s),
              In_reaper c := filter (is_done s) (av_retired s),
              In_current := (if av_current s = None \<and> ok then [spawned s] else held s In_current))"
  by (rule ext, case_tac x)
    (auto simp: startAutoValidation_def take_exited_def enter_def bump_def spawn_worker_def Let_def split: option.splits)

lemma held_stop:
  "reaping s c = None \<Longrightarrow> held (enter c (stopAutoValidation s)) =
     (held s)(In_retired := filter (\<lambda>w. \<not> is_done s w) (av_retired s) @ held s In_current,
              In_reaper c := filter (is_done s) (av_retired s), In_current := [])"
  by (rule ext, case_tac x)
    (auto simp: stopAutoValidation_def take_exited_def enter_def bump_def Let_def split: option.splits)

lemma held_destroy:
  "retire_all s = (ws, s') \<Longrightarrow> lifetime s = Alive \<Longrightarrow> held (s'\<lparr>lifetime := Joining ws\<rparr>) =
     (held s)(In_destructor := held s In_current @ av_retired s, In_current := [], In_retired := [])"
  by (rule ext, case_tac x) (auto simp: retire_all_def bump_def split: option.splits)

section \<open>Invariants\<close>

lemma av_next_cases [consumes 1, case_names start stop reap return destroy join end_members run time]:
  assumes "av_next i idle s e = Some s'"
  obtains
    c ok where "e = Start c ok" "may_call s c" "s' = enter c (startAutoValidation ok s)"
  | c where "e = Stop c" "may_call s c" "s' = enter c (stopAutoValidation s)"
  | c w ws where "e = Reap c" "reaping s c = Some (w # ws)" "ended s w" "s' = s\<lparr>reaping := (reaping s)(c \<mapsto> ws)\<rparr>"
  | c where "e = Return_from c" "reaping s c = Some []" "s' = s\<lparr>reaping := (reaping s)(c := None)\<rparr>"
  | "e = Destroy" "lifetime s = Alive" "idle" "s' = (snd (retire_all s))\<lparr>lifetime := Joining (fst (retire_all s))\<rparr>"
  | w ws where "e = Join_next" "lifetime s = Joining (w # ws)" "ended s w" "s' = s\<lparr>lifetime := Joining ws\<rparr>"
  | "e = End_members" "lifetime s = Joining []"
      "s' = s\<lparr>lifetime := if av_current s = None \<and> av_retired s = [] then Destroyed else Aborted\<rparr>"
  | w t t' where "e = Run w" "workers s w = Some t"
      "av_loop i (av_epoch s) (av_clock s) (reaping s (Listener w) \<noteq> None) t = Some t'"
      "s' = s\<lparr>workers := (workers s)(w \<mapsto> t')\<rparr>"
  | d where "e = Time d" "s' = s\<lparr>av_clock := av_clock s + d\<rparr>"
proof (cases e)
  case (Start c ok)
  with assms show ?thesis by (intro that(1)) (auto split: if_splits)
next
  case (Stop c)
  with assms show ?thesis by (intro that(2)) (auto split: if_splits)
next
  case (Reap c)
  with assms obtain w ws where "reaping s c = Some (w # ws)" "ended s w" "s' = s\<lparr>reaping := (reaping s)(c \<mapsto> ws)\<rparr>"
    by (auto split: option.splits list.splits if_splits)
  with Reap show ?thesis by (rule that(3))
next
  case (Return_from c)
  with assms show ?thesis by (intro that(4)) (auto split: if_splits)
next
  case Destroy
  with assms show ?thesis by (intro that(5)) (simp_all split: if_splits prod.splits)
next
  case Join_next
  with assms obtain w ws where "lifetime s = Joining (w # ws)" "ended s w" "s' = s\<lparr>lifetime := Joining ws\<rparr>"
    by (auto split: lifetime.splits list.splits if_splits)
  with Join_next show ?thesis by (rule that(6))
next
  case End_members
  then show ?thesis using assms by (intro that(7)) (auto split: if_splits)
next
  case (Run w)
  with assms obtain t t' where "workers s w = Some t"
      "av_loop i (av_epoch s) (av_clock s) (reaping s (Listener w) \<noteq> None) t = Some t'"
      "s' = s\<lparr>workers := (workers s)(w \<mapsto> t')\<rparr>"
    by (auto split: option.splits)
  with Run show ?thesis by (rule that(8))
next
  case (Time d)
  with assms show ?thesis by (intro that(9)) auto
qed

lemma av_loop_cases [consumes 1, case_names head leave cycle again publish finish]:
  assumes "av_loop i ep clock busy t = Some t'"
  obtains
    "w_pc t = Head" "t' = t\<lparr>w_pc := if ep = w_epoch t then Waiting (clock + i) else Leaving\<rparr>"
  | d where "w_pc t = Waiting d" "ep \<noteq> w_epoch t" "t' = t\<lparr>w_pc := Leaving\<rparr>"
  | d where "w_pc t = Waiting d" "ep = w_epoch t" "d \<le> clock" "t' = t\<lparr>w_pc := Cycling, cycles := Suc (cycles t)\<rparr>"
  | "w_pc t = Cycling" "\<not> busy" "t' = t\<lparr>w_pc := Head\<rparr>"
  | "w_pc t = Leaving" "t' = t\<lparr>w_done := True, w_pc := Published\<rparr>"
  | "w_pc t = Published" "t' = t\<lparr>w_pc := Finished\<rparr>"
  using assms
  by (cases "w_pc t") (auto simp: av_loop_def wait_for_def split: if_splits)

text \<open>The counters of the proof and the flags of the code.\<close>

definition worker_ok :: "av_state \<Rightarrow> nat \<Rightarrow> av_worker \<Rightarrow> bool" where
  "worker_ok s w t \<longleftrightarrow> w < spawned s \<and> w_epoch t = of_nat (born t) \<and> born t \<le> bumps s
     \<and> (w_done t \<longleftrightarrow> w_pc t = Published \<or> w_pc t = Finished) \<and> (born t = bumps s \<longrightarrow> av_current s = Some w)"

definition current_ok :: "av_state \<Rightarrow> bool" where
  "current_ok s \<longleftrightarrow> (\<forall>w. av_current s = Some w \<longrightarrow>
     (\<exists>t. workers s w = Some t \<and> born t = bumps s \<and> w_pc t \<notin> {Leaving, Published, Finished}))"

definition workers_ok :: "av_state \<Rightarrow> bool" where
  "workers_ok s \<longleftrightarrow> av_epoch s = of_nat (bumps s) \<and> current_ok s \<and> (\<forall>w t. workers s w = Some t \<longrightarrow> worker_ok s w t)"

lemma section_fields:
  "workers (bump s) = workers s" "spawned (bump s) = spawned s" "av_current (bump s) = av_current s"
  "bumps (bump s) = Suc (bumps s)" "av_epoch (bump s) = av_epoch s + 1" "reaping (bump s) = reaping s"
  "lifetime (bump s) = lifetime s" "av_clock (bump s) = av_clock s" "av_retired (bump s) = av_retired s"
  by (simp_all add: bump_def)

lemma enter_fields:
  "workers (enter c r) = workers (snd r)" "spawned (enter c r) = spawned (snd r)" "av_current (enter c r) = av_current (snd r)"
  "bumps (enter c r) = bumps (snd r)" "av_epoch (enter c r) = av_epoch (snd r)" "lifetime (enter c r) = lifetime (snd r)"
  "reaping (enter c r) = (reaping (snd r))(c \<mapsto> fst r)" "av_clock (enter c r) = av_clock (snd r)"
  "av_retired (enter c r) = av_retired (snd r)"
  by (simp_all add: enter_def split: prod.splits)

lemma workers_ok_cong:
  "workers_ok s \<Longrightarrow> workers s' = workers s \<Longrightarrow> spawned s' = spawned s \<Longrightarrow> av_current s' = av_current s
    \<Longrightarrow> bumps s' = bumps s \<Longrightarrow> av_epoch s' = av_epoch s \<Longrightarrow> workers_ok s'"
  by (simp add: workers_ok_def current_ok_def worker_ok_def)

lemma workers_ok_more:
  assumes "workers_ok s" "av_current s = None"
  shows "workers_ok (bump s)" "workers_ok (spawn_worker (bump s))"
proof -
  have old: "w < spawned s \<and> w_epoch t = of_nat (born t) \<and> born t < bumps s
      \<and> (w_done t \<longleftrightarrow> w_pc t = Published \<or> w_pc t = Finished)" if "workers s w = Some t" for w t
    using assms that by (auto simp: workers_ok_def worker_ok_def dest: le_neq_implies_less)
  have ep: "av_epoch s = of_nat (bumps s)" using assms by (simp add: workers_ok_def)
  have "worker_ok (bump s) w t" if "workers s w = Some t" for w t
    using old [OF that] by (simp add: worker_ok_def section_fields)
  then show "workers_ok (bump s)"
    using ep assms(2) by (simp add: workers_ok_def current_ok_def section_fields)
  let ?s = "spawn_worker (bump s)"
  have "worker_ok ?s w t" if "workers ?s w = Some t" for w t
    using that ep
    by (cases "w = spawned s") (use old [of w t] in \<open>auto simp: worker_ok_def section_fields spawn_worker_def\<close>)
  then show "workers_ok ?s"
    using ep by (simp add: workers_ok_def current_ok_def spawn_worker_def section_fields)
qed

lemma workers_ok_retire:
  assumes "workers_ok s"
  shows "workers_ok ((bump s)\<lparr>av_current := None, av_retired := r\<rparr>)"
proof -
  have "worker_ok ((bump s)\<lparr>av_current := None, av_retired := r\<rparr>) w t" if "workers s w = Some t" for w t
    using assms that by (fastforce simp: workers_ok_def worker_ok_def section_fields)
  then show ?thesis using assms by (simp add: workers_ok_def current_ok_def section_fields)
qed

lemma workers_ok_start:
  assumes "workers_ok s"
  shows "workers_ok (snd (startAutoValidation ok s))"
proof (cases "av_current s")
  case None
  let ?s = "snd (take_exited s)"
  have "workers_ok ?s" "av_current ?s = None"
    using assms None by (auto elim: workers_ok_cong simp: take_exited_def)
  from workers_ok_more [OF this] this(2) show ?thesis
    by (cases "take_exited s") (simp add: startAutoValidation_def Let_def)
qed (use assms in \<open>auto elim: workers_ok_cong simp: startAutoValidation_def take_exited_def\<close>)

lemma workers_ok_stop:
  assumes "workers_ok s"
  shows "workers_ok (snd (stopAutoValidation s))"
proof (cases "av_current s")
  case (Some w)
  then show ?thesis
    using workers_ok_retire [OF assms, of "filter (\<lambda>w. \<not> is_done s w) (av_retired s) @ [w]"]
    by (auto elim!: workers_ok_cong simp: stopAutoValidation_def take_exited_def section_fields)
qed (use assms in \<open>auto elim: workers_ok_cong simp: stopAutoValidation_def take_exited_def\<close>)

lemma workers_ok_next:
  assumes "av_next i idle s e = Some s'" "workers_ok s"
  shows "workers_ok s'"
  using assms(1)
proof (cases rule: av_next_cases)
  case (start c ok)
  from workers_ok_start [OF assms(2), of ok] show ?thesis
    by (rule workers_ok_cong) (simp_all add: start enter_fields)
next
  case (stop c)
  from workers_ok_stop [OF assms(2)] show ?thesis
    by (rule workers_ok_cong) (simp_all add: stop enter_fields)
next
  case destroy
  from workers_ok_retire [OF assms(2), of "[]"] show ?thesis
    by (rule workers_ok_cong) (simp_all add: destroy retire_all_def)
next
  case (run w t t')
  have ok: "worker_ok s w t" and ep: "av_epoch s = of_nat (bumps s)" using assms(2) run(2) by (auto simp: workers_ok_def)
  have t': "worker_ok s w t'" "born t' = born t"
      "av_epoch s = w_epoch t \<longrightarrow> w_pc t \<notin> {Leaving, Published, Finished} \<longrightarrow> w_pc t' \<notin> {Leaving, Published, Finished}"
    using run(3) ok by (cases rule: av_loop_cases; simp add: worker_ok_def)+
  have "worker_ok s' v u" if "workers s' v = Some u" for v u
  proof -
    have "worker_ok s v u"
      using that t'(1) assms(2) by (cases "v = w") (simp_all add: run(4) workers_ok_def)
    then show ?thesis by (simp add: worker_ok_def run(4))
  qed
  moreover have "current_ok s'"
    unfolding current_ok_def
  proof (intro allI impI)
    fix v assume "av_current s' = Some v"
    with assms(2) obtain u where u: "workers s v = Some u" "born u = bumps s" "w_pc u \<notin> {Leaving, Published, Finished}"
      by (auto simp: run(4) workers_ok_def current_ok_def)
    then show "\<exists>u. workers s' v = Some u \<and> born u = bumps s' \<and> w_pc u \<notin> {Leaving, Published, Finished}"
      using t'(2,3) ok ep run(2) by (cases "v = w") (auto simp: run(4) worker_ok_def)
  qed
  ultimately show ?thesis
    using ep unfolding run(4) by (simp add: workers_ok_def)
next
  case time
  show ?thesis by (rule workers_ok_cong [OF assms(2)]) (simp_all add: time)
next
  case end_members
  show ?thesis by (rule workers_ok_cong [OF assms(2)]) (simp_all add: end_members)
next
  case join
  show ?thesis by (rule workers_ok_cong [OF assms(2)]) (simp_all add: join)
next
  case return
  show ?thesis by (rule workers_ok_cong [OF assms(2)]) (simp_all add: return)
next
  case reap
  show ?thesis by (rule workers_ok_cong [OF assms(2)]) (simp_all add: reap)
qed

text \<open>Ownership: a thread that has not ended has an owner, and only one; a \<open>Reaper\<close> of start or stop
  holds only workers that published \<open>done\<close>.\<close>

definition finishing :: "(nat \<Rightarrow> av_worker option) \<Rightarrow> nat \<Rightarrow> bool" where
  "finishing ws w \<longleftrightarrow> (\<exists>t. ws w = Some t \<and> w_done t)"

definition owned_by :: "(owner \<Rightarrow> nat list) \<Rightarrow> (nat \<Rightarrow> av_worker option) \<Rightarrow> bool" where
  "owned_by h ws \<longleftrightarrow> one_owner h
     \<and> (\<forall>p w. w \<in> set (h p) \<longrightarrow> ws w \<noteq> None)
     \<and> (\<forall>w t. ws w = Some t \<longrightarrow> w_pc t = Finished \<or> (\<exists>p. w \<in> set (h p)))
     \<and> (\<forall>c w. w \<in> set (h (In_reaper c)) \<longrightarrow> finishing ws w)"

lemma is_done_finishing: "is_done s w \<longleftrightarrow> finishing (workers s) w"
  by (simp add: is_done_def finishing_def split: option.split)

lemma owned_by_moved:
  assumes "owned_by h ws" "one_owner k" "\<And>w. (\<exists>p. w \<in> set (k p)) \<longleftrightarrow> (\<exists>p. w \<in> set (h p))"
    and "\<And>c w. w \<in> set (k (In_reaper c)) \<Longrightarrow> finishing ws w"
  shows "owned_by k ws"
  using assms unfolding owned_by_def by blast

lemma owned_byI:
  assumes "one_owner h" "\<And>p w. w \<in> set (h p) \<Longrightarrow> ws w \<noteq> None"
    "\<And>w t. ws w = Some t \<Longrightarrow> w_pc t \<noteq> Finished \<Longrightarrow> \<exists>p. w \<in> set (h p)"
    "\<And>c w. w \<in> set (h (In_reaper c)) \<Longrightarrow> finishing ws w"
  shows "owned_by h ws"
  using assms unfolding owned_by_def by blast

lemma owned_byD:
  assumes "owned_by h ws"
  shows "one_owner h" "w \<in> set (h p) \<Longrightarrow> \<exists>t. ws w = Some t"
    "ws w = Some t \<Longrightarrow> w_pc t \<noteq> Finished \<Longrightarrow> \<exists>p. w \<in> set (h p)"
    "w \<in> set (h (In_reaper c)) \<Longrightarrow> finishing ws w"
  using assms unfolding owned_by_def by blast+

lemma owned_by_fresh:
  assumes h: "owned_by h ws" and w: "ws w = None" "h In_current = []"
  shows "owned_by (h(In_current := [w])) (ws(w \<mapsto> t))"
proof (rule owned_byI)
  have new: "w \<notin> set (h p)" for p using owned_byD(2) [OF h, of w p] w(1) by auto
  show "one_owner (h(In_current := [w]))" by (rule one_owner_fresh [where h = h, OF owned_byD(1) [OF h] new w(2)])
  show "(ws(w \<mapsto> t)) v \<noteq> None" if "v \<in> set ((h(In_current := [w])) p)" for v p
    using that owned_byD(2) [OF h, of v p] by (cases "p = In_current") auto
  show "\<exists>p. v \<in> set ((h(In_current := [w])) p)" if v: "(ws(w \<mapsto> t)) v = Some u" "w_pc u \<noteq> Finished" for v u
  proof (cases "v = w")
    case True
    then show ?thesis by (intro exI [of _ In_current]) simp
  next
    case False
    then obtain p where "v \<in> set (h p)" using owned_byD(3) [OF h, of v u] v by auto
    then show ?thesis using w(2) by (intro exI [of _ p]) auto
  qed
  show "finishing (ws(w \<mapsto> t)) v" if "v \<in> set ((h(In_current := [w])) (In_reaper c))" for v c
    using that owned_byD(4) [OF h, of v c] new [of "In_reaper c"] by (auto simp: finishing_def)
qed

lemma owned_by_release:
  assumes h: "owned_by h ws" and p: "h p = w # vs" and fin: "ws w = Some t" "w_pc t = Finished"
  shows "owned_by (h(p := vs)) ws"
proof (rule owned_byI)
  have sub: "set ((h(p := vs)) q) \<subseteq> set (h q)" for q using p by auto
  have "distinct vs" using owned_byD(1) [OF h] p unfolding one_owner_def by (metis distinct.simps(2))
  then show "one_owner (h(p := vs))"
    by (intro one_owner_less [OF owned_byD(1) [OF h] _ sub]) (use owned_byD(1) [OF h] in \<open>simp add: one_owner_def\<close>)
  show "ws v \<noteq> None" if "v \<in> set ((h(p := vs)) q)" for v q
    using that sub [of q] owned_byD(2) [OF h, of v q] by auto
  show "\<exists>q. v \<in> set ((h(p := vs)) q)" if v: "ws v = Some u" "w_pc u \<noteq> Finished" for v u
  proof -
    obtain q where "v \<in> set (h q)" using owned_byD(3) [OF h v] ..
    moreover have "v \<noteq> w" using v fin by auto
    ultimately show ?thesis using p by (intro exI [of _ q]) auto
  qed
  show "finishing ws v" if "v \<in> set ((h(p := vs)) (In_reaper c))" for v c
    using that sub [of "In_reaper c"] owned_byD(4) [OF h, of v c] by auto
qed

lemma owned_by_run:
  assumes h: "owned_by h ws" and w: "ws w = Some t" "w_done t \<longrightarrow> w_done t'" "w_pc t \<noteq> Finished"
  shows "owned_by h (ws(w \<mapsto> t'))"
proof (rule owned_byI)
  show "\<exists>p. v \<in> set (h p)" if "(ws(w \<mapsto> t')) v = Some u" "w_pc u \<noteq> Finished" for v u
    using that owned_byD(3) [OF h, of v] w by (auto split: if_splits)
  show "finishing (ws(w \<mapsto> t')) v" if "v \<in> set (h (In_reaper c))" for v c
    using owned_byD(4) [OF h that] w by (auto simp: finishing_def)
qed (use owned_byD [OF h] in auto)

definition owners_ok :: "av_state \<Rightarrow> bool" where
  "owners_ok s \<longleftrightarrow> owned_by (held s) (workers s)"

lemma owners_take_exited:
  assumes ok: "owned_by (held s) (workers s)" and c: "reaping s c = None"
  shows "owned_by ((held s)(In_retired := filter (\<lambda>w. \<not> is_done s w) (av_retired s),
                            In_reaper c := filter (is_done s) (av_retired s))) (workers s)"
proof (rule owned_by_moved [OF ok])
  let ?h = "(held s)(In_retired := filter (\<lambda>w. \<not> is_done s w) (av_retired s),
                     In_reaper c := filter (is_done s) (av_retired s))"
  have "distinct (held s In_retired)" using owned_byD(1) [OF ok] unfolding one_owner_def by blast
  then show "one_owner ?h"
    by (intro one_owner_give [OF owned_byD(1) [OF ok]]) (use c in auto)
  show "(\<exists>p. w \<in> set (?h p)) \<longleftrightarrow> (\<exists>p. w \<in> set (held s p))" for w
    by (rule owned_give) (use c in auto)
  show "finishing (workers s) w" if "w \<in> set (?h (In_reaper d))" for w d
    using that owned_byD(4) [OF ok, of w d] by (auto simp: is_done_finishing split: if_splits)
qed

lemma owned_by_merge:
  assumes "owned_by h ws" "a \<noteq> b" "\<And>c. a \<noteq> In_reaper c"
  shows "owned_by (h(a := h a @ h b, b := [])) ws"
proof (rule owned_by_moved [OF assms(1)])
  show "finishing ws w" if "w \<in> set ((h(a := h a @ h b, b := [])) (In_reaper c))" for c w
    using that assms(2) assms(3) [of c] owned_byD(4) [OF assms(1), of w c] by (auto split: if_splits)
qed (rule one_owner_merge [OF owned_byD(1) [OF assms(1)] assms(2)], rule owned_merge [OF assms(2)])

lemma owners_ok_start:
  assumes ok: "owners_ok s" and w: "workers_ok s" and c: "reaping s c = None"
  shows "owners_ok (enter c (startAutoValidation can_spawn s))" (is "owners_ok ?s'")
proof -
  note out = owners_take_exited [OF ok [unfolded owners_ok_def] c]
  show ?thesis
  proof (cases "av_current s = None \<and> can_spawn")
    case False
    then have "workers ?s' = workers s"
      by (auto simp: enter_fields startAutoValidation_def take_exited_def section_fields Let_def)
    moreover have "held ?s' = (held s)(In_retired := filter (\<lambda>w. \<not> is_done s w) (av_retired s),
        In_reaper c := filter (is_done s) (av_retired s))"
      using False by (simp add: held_start [OF c] fun_eq_iff)
    ultimately show ?thesis using out by (simp add: owners_ok_def)
  next
    case True
    have "workers s (spawned s) = None"
      using w by (cases "workers s (spawned s)") (auto simp: workers_ok_def worker_ok_def)
    from owned_by_fresh [OF out this] True show ?thesis
      by (simp add: owners_ok_def held_start [OF c])
        (simp add: enter_fields startAutoValidation_def take_exited_def section_fields spawn_worker_def Let_def)
  qed
qed

lemma owners_ok_stop:
  assumes ok: "owners_ok s" and w: "workers_ok s" and c: "reaping s c = None"
  shows "owners_ok (enter c (stopAutoValidation s))" (is "owners_ok ?s'")
proof -
  let ?h = "(held s)(In_retired := filter (\<lambda>w. \<not> is_done s w) (av_retired s),
                     In_reaper c := filter (is_done s) (av_retired s))"
  have "owned_by (?h(In_retired := ?h In_retired @ ?h In_current, In_current := [])) (workers s)"
    by (rule owned_by_merge [OF owners_take_exited [OF ok [unfolded owners_ok_def] c]]) simp_all
  moreover have "held ?s' = ?h(In_retired := ?h In_retired @ ?h In_current, In_current := [])"
    by (simp add: held_stop [OF c] fun_eq_iff)
  moreover have "workers ?s' = workers s"
    by (simp add: enter_fields stopAutoValidation_def take_exited_def section_fields Let_def split: option.split)
  ultimately show ?thesis by (simp add: owners_ok_def)
qed

lemma owners_ok_destroy:
  assumes ok: "owners_ok s" and alive: "lifetime s = Alive"
  shows "owners_ok ((snd (retire_all s))\<lparr>lifetime := Joining (fst (retire_all s))\<rparr>)" (is "owners_ok ?s'")
proof -
  let ?h = "held s" let ?k = "?h(In_destructor := ?h In_destructor @ ?h In_current, In_current := [])"
  have k: "owned_by ?k (workers s)"
    by (rule owned_by_merge) (use ok in \<open>simp_all add: owners_ok_def\<close>)
  have "owned_by (?k(In_destructor := ?k In_destructor @ ?k In_retired, In_retired := [])) (workers s)"
    by (rule owned_by_merge [OF k]) simp_all
  moreover have "held ?s' = ?k(In_destructor := ?k In_destructor @ ?k In_retired, In_retired := [])"
    using alive held_destroy [of s "fst (retire_all s)" "snd (retire_all s)"] by (simp add: fun_eq_iff)
  moreover have "workers ?s' = workers s" by (simp add: retire_all_def section_fields)
  ultimately show ?thesis by (simp add: owners_ok_def)
qed

lemma owners_ok_next:
  assumes step: "av_next i idle s e = Some s'" and w: "workers_ok s" and ok: "owners_ok s"
  shows "owners_ok s'"
  using step
proof (cases rule: av_next_cases)
  case start
  then show ?thesis using owners_ok_start [OF ok w] by (simp add: may_call_def)
next
  case stop
  then show ?thesis using owners_ok_stop [OF ok w] by (simp add: may_call_def)
next
  case (reap c v vs)
  from reap(3) obtain t where "workers s v = Some t" "w_pc t = Finished"
    by (auto simp: ended_def split: option.splits)
  from owned_by_release [OF ok [unfolded owners_ok_def] _ this, of "In_reaper c" vs]
  have "owned_by ((held s)(In_reaper c := vs)) (workers s)" using reap(2) by simp
  moreover have "held s' = (held s)(In_reaper c := vs)"
    by (rule ext, case_tac x) (simp_all add: reap(4))
  ultimately show ?thesis by (simp add: owners_ok_def reap(4))
next
  case (return c)
  have "held s' = held s" by (rule ext, case_tac x) (auto simp: return)
  then show ?thesis using ok by (simp add: owners_ok_def return)
next
  case destroy
  then show ?thesis using owners_ok_destroy [OF ok] by simp
next
  case (join v vs)
  from join(3) obtain t where "workers s v = Some t" "w_pc t = Finished"
    by (auto simp: ended_def split: option.splits)
  from owned_by_release [OF ok [unfolded owners_ok_def] _ this, of In_destructor vs]
  have "owned_by ((held s)(In_destructor := vs)) (workers s)" using join(2) by simp
  moreover have "held s' = (held s)(In_destructor := vs)"
    by (rule ext, case_tac x) (simp_all add: join(4))
  ultimately show ?thesis by (simp add: owners_ok_def join(4))
next
  case end_members
  have "held s' = held s" by (rule ext, case_tac x) (auto simp: end_members)
  then show ?thesis using ok by (simp add: owners_ok_def end_members)
next
  case (run v t t')
  have "w_done t \<longrightarrow> w_done t'" "w_pc t \<noteq> Finished"
    using run(3) by (cases rule: av_loop_cases; simp)+
  from owned_by_run [OF ok [unfolded owners_ok_def] run(2) this]
  have "owned_by (held s) ((workers s)(v \<mapsto> t'))" .
  moreover have "held s' = held s" by (rule ext, case_tac x) (auto simp: run)
  ultimately show ?thesis by (simp add: owners_ok_def run)
next
  case time
  have "held s' = held s" by (rule ext, case_tac x) (auto simp: time)
  then show ?thesis using ok by (simp add: owners_ok_def time)
qed

text \<open>Who is inside a call, and what the destructor left.\<close>

definition calls_ok :: "av_state \<Rightarrow> bool" where
  "calls_ok s \<longleftrightarrow>
     (\<forall>w. reaping s (Listener w) \<noteq> None \<longrightarrow> (\<exists>t. workers s w = Some t \<and> w_pc t = Cycling))
     \<and> (lifetime s \<noteq> Alive \<longrightarrow> apps_idle s)"

lemma calls_ok_next:
  assumes step: "av_next i (apps_idle s) s e = Some s'" and w: "workers_ok s" and ok: "calls_ok s"
  shows "calls_ok s'"
proof -
  have same: "workers (enter c (startAutoValidation b s)) v = workers s v" if "v \<noteq> spawned s" for c b v
    using that by (auto simp: enter_fields startAutoValidation_def take_exited_def section_fields spawn_worker_def Let_def)
  show ?thesis using step
  proof (cases rule: av_next_cases)
    case (start c b)
    have "reaping s' = (reaping s)(c := Some (filter (is_done s) (av_retired s)))" "lifetime s' = lifetime s"
      by (auto simp: start enter_fields startAutoValidation_def take_exited_def section_fields spawn_worker_def Let_def)
    moreover have "v < spawned s" if "workers s v = Some t" for v t using w that by (auto simp: workers_ok_def worker_ok_def)
    ultimately show ?thesis
      using start same ok unfolding calls_ok_def apps_idle_def may_call_def
      by (auto split: caller.splits option.splits) (metis less_irrefl)+
  next
    case (stop c)
    have "reaping s' = (reaping s)(c := Some (filter (is_done s) (av_retired s)))" "lifetime s' = lifetime s"
        "workers s' = workers s"
      by (auto simp: stop enter_fields stopAutoValidation_def take_exited_def section_fields Let_def split: option.splits)
    then show ?thesis
      using stop ok unfolding calls_ok_def apps_idle_def may_call_def by (auto split: caller.splits option.splits)
  next
    case (run v t t')
    have "w_pc t' = Cycling" if "reaping s (Listener v) \<noteq> None"
      using run(3) run(2) that ok by (cases rule: av_loop_cases) (auto simp: calls_ok_def)
    then show ?thesis using ok run by (auto simp: calls_ok_def apps_idle_def)
  qed (use ok in \<open>auto simp: calls_ok_def apps_idle_def retire_all_def section_fields\<close>)
qed

text \<open>The pace: a worker begins its cycles at least one interval apart.\<close>

definition pace :: "nat \<Rightarrow> nat \<Rightarrow> av_worker \<Rightarrow> bool" where
  "pace i clock t \<longleftrightarrow> began t + cycles t * i \<le> clock
     \<and> (case w_pc t of Waiting d \<Rightarrow> began t + cycles t * i + i \<le> d | _ \<Rightarrow> True)"

definition pace_ok :: "nat \<Rightarrow> av_state \<Rightarrow> bool" where
  "pace_ok i s \<longleftrightarrow> (\<forall>w t. workers s w = Some t \<longrightarrow> pace i (av_clock s) t)"

lemma pace_ok_next:
  assumes step: "av_next i idle s e = Some s'" and ok: "pace_ok i s"
  shows "pace_ok i s'"
  using step
proof (cases rule: av_next_cases)
  case (start c b)
  then show ?thesis using ok
    by (auto simp: pace_ok_def enter_fields startAutoValidation_def take_exited_def section_fields spawn_worker_def
        Let_def pace_def split: if_splits)
next
  case (stop c)
  then show ?thesis using ok
    by (auto simp: pace_ok_def enter_fields stopAutoValidation_def take_exited_def section_fields Let_def split: option.split)
next
  case (run v t t')
  have "pace i (av_clock s) t" using ok run(2) by (simp add: pace_ok_def)
  with run(3) have "pace i (av_clock s) t'"
    by (cases rule: av_loop_cases) (simp_all add: pace_def)
  then show ?thesis using ok by (simp add: pace_ok_def run(4))
next
  case (time d)
  have "pace i (av_clock s + d) t" if "pace i (av_clock s) t" for t
    using that by (auto simp: pace_def split: av_pc.splits)
  then show ?thesis using ok by (simp add: pace_ok_def time)
qed (use ok in \<open>auto simp: pace_ok_def retire_all_def section_fields\<close>)

section \<open>Reachable states\<close>

abbreviation av_interval :: "Config \<Rightarrow> nat" where
  "av_interval g \<equiv> positive_interval (autoValidationIntervalMs g)"

lemma av_reachable_ok:
  assumes "av_reachable g s"
  shows "workers_ok s" "owners_ok s" "calls_ok s" "pace_ok (av_interval g) s"
proof -
  have "workers_ok s \<and> owners_ok s \<and> calls_ok s \<and> pace_ok (av_interval g) s"
    using assms
  proof (induction)
    case av_start
    have "held av_init p = []" for p by (cases p) (simp_all add: av_init_def)
    then show ?case
      by (auto simp: workers_ok_def current_ok_def owners_ok_def owned_by_def one_owner_def calls_ok_def pace_ok_def)
        (simp_all add: av_init_def)
  next
    case (av_more s e s')
    then show ?case
      using workers_ok_next owners_ok_next calls_ok_next pace_ok_next by blast
  qed
  then show "workers_ok s" "owners_ok s" "calls_ok s" "pace_ok (av_interval g) s" by simp_all
qed

fun av_run :: "Config \<Rightarrow> av_state \<Rightarrow> av_event list \<Rightarrow> av_state option" where
  "av_run g s [] = Some s"
| "av_run g s (e # es) =
     (case av_next (av_interval g) (apps_idle s) s e of None \<Rightarrow> None | Some s' \<Rightarrow> av_run g s' es)"

lemma av_run_reachable: "av_run g s es = Some s' \<Longrightarrow> av_reachable g s \<Longrightarrow> av_reachable g s'"
  by (induction es arbitrary: s) (auto intro: av_more split: option.splits)

lemma av_run_append:
  "av_run g s (es @ fs) = (case av_run g s es of None \<Rightarrow> None | Some s' \<Rightarrow> av_run g s' fs)"
  by (induction es arbitrary: s) (simp_all split: option.split)

lemma reaped_finishing:
  assumes "av_reachable g s" "reaping s c = Some ws" "w \<in> set ws"
  shows "\<exists>t. workers s w = Some t \<and> (w_pc t = Published \<or> w_pc t = Finished)"
proof -
  have "finishing (workers s) w"
    using owned_byD(4) [OF av_reachable_ok(2) [OF assms(1), unfolded owners_ok_def], of w c] assms(2,3) by simp
  then show ?thesis using av_reachable_ok(1) [OF assms(1)] by (auto simp: finishing_def workers_ok_def worker_ok_def)
qed

lemma current_runs:
  assumes "av_reachable g s" "av_current s = Some w"
  shows "\<exists>t. workers s w = Some t \<and> w_epoch t = av_epoch s \<and> w_pc t \<notin> {Leaving, Published, Finished}"
proof -
  note ok = av_reachable_ok(1) [OF assms(1), unfolded workers_ok_def]
  obtain t where t: "workers s w = Some t" "born t = bumps s" "w_pc t \<notin> {Leaving, Published, Finished}"
    using ok assms(2) unfolding current_ok_def by blast
  moreover have "w_epoch t = of_nat (born t)" using ok t(1) unfolding worker_ok_def by blast
  ultimately show ?thesis using ok by simp
qed

lemma epoch_is_current:
  assumes "av_reachable g s" "bumps s < 2 ^ 64" "workers s w = Some t" "w_epoch t = av_epoch s"
  shows "av_current s = Some w"
proof -
  have w: "w_epoch t = of_nat (born t)" "born t \<le> bumps s" "born t = bumps s \<longrightarrow> av_current s = Some w"
      "av_epoch s = of_nat (bumps s)"
    using av_reachable_ok(1) [OF assms(1)] assms(3) by (auto simp: workers_ok_def worker_ok_def)
  have "unat (of_nat (born t) :: 64 word) = unat (of_nat (bumps s) :: 64 word)" using assms(4) w by simp
  then have "born t = bumps s" using assms(2) w(2) by (simp add: unat_of_nat)
  then show ?thesis using w(3) by simp
qed

text \<open>
  C21. Ownership of the background threads, in every interleaving of start, stop, the destructor and the
  workers: a worker thread that has not ended is held by exactly one of the current slot, the retired list,
  the \<open>Reaper\<close> of one call, and the destructor, so none is leaked and none joined twice; a call of start or
  stop only ever waits for workers that are past their last action; the current slot holds a worker that is
  still in its loop and runs the current epoch, and (for fewer than \<open>2^64\<close> starts and stops) no other does.
\<close>
theorem workers_are_owned:
  assumes "av_reachable g s"
  shows "(\<forall>w t. workers s w = Some t \<and> w_pc t \<noteq> Finished \<longrightarrow> (\<exists>!p. w \<in> set (held s p)))
    \<and> (\<forall>c ws w. reaping s c = Some ws \<and> w \<in> set ws
          \<longrightarrow> (\<exists>t. workers s w = Some t \<and> (w_pc t = Published \<or> w_pc t = Finished)))
    \<and> (\<forall>w. av_current s = Some w
          \<longrightarrow> (\<exists>t. workers s w = Some t \<and> w_epoch t = av_epoch s \<and> w_pc t \<notin> {Leaving, Published, Finished}))
    \<and> (bumps s < 2 ^ 64 \<longrightarrow> (\<forall>w t. workers s w = Some t \<and> w_epoch t = av_epoch s \<longrightarrow> av_current s = Some w))"
proof (intro conjI allI impI)
  note ok = av_reachable_ok [OF assms]
  fix w t assume t: "workers s w = Some t \<and> w_pc t \<noteq> Finished"
  show "\<exists>!p. w \<in> set (held s p)"
    using owned_byD(1,3) [OF ok(2) [unfolded owners_ok_def]] t unfolding one_owner_def by blast
next
  fix c ws w assume "reaping s c = Some ws \<and> w \<in> set ws"
  then show "\<exists>t. workers s w = Some t \<and> (w_pc t = Published \<or> w_pc t = Finished)"
    using reaped_finishing [OF assms] by blast
next
  fix w assume "av_current s = Some w"
  then show "\<exists>t. workers s w = Some t \<and> w_epoch t = av_epoch s \<and> w_pc t \<notin> {Leaving, Published, Finished}"
    by (rule current_runs [OF assms])
next
  fix w t assume "bumps s < 2 ^ 64" "workers s w = Some t \<and> w_epoch t = av_epoch s"
  then show "av_current s = Some w" using epoch_is_current [OF assms] by blast
qed

text \<open>However the interval is configured, the worker polls at a rate and does not spin.\<close>

lemma cycles_are_paced:
  assumes "av_reachable g s" "workers s w = Some t"
  shows "cycles t * av_interval g \<le> av_clock s - began t" "cycles t \<le> av_clock s"
proof -
  have "began t + cycles t * av_interval g \<le> av_clock s"
    using av_reachable_ok(4) [OF assms(1)] assms(2) by (auto simp: pace_ok_def pace_def)
  moreover have "cycles t * 1 \<le> cycles t * av_interval g"
    using positive_interval_pos [of "autoValidationIntervalMs g"] by (intro mult_le_mono2) linarith
  ultimately show "cycles t * av_interval g \<le> av_clock s - began t" "cycles t \<le> av_clock s" by linarith+
qed

section \<open>A retired worker\<close>

text \<open>How many more steps of its own a worker has once its epoch is over.\<close>

fun steps_left :: "av_pc \<Rightarrow> nat" where
  "steps_left Cycling = 4"
| "steps_left Head = 3"
| "steps_left (Waiting d) = 3"
| "steps_left Leaving = 2"
| "steps_left Published = 1"
| "steps_left Finished = 0"

lemma start_keeps_worker:
  assumes "workers_ok s" "workers s w = Some t"
  shows "workers (enter c (startAutoValidation b s)) w = Some t"
    "av_current s \<noteq> Some w \<Longrightarrow> av_current (enter c (startAutoValidation b s)) \<noteq> Some w"
proof -
  have "w \<noteq> spawned s" using assms by (auto simp: workers_ok_def worker_ok_def)
  then show "workers (enter c (startAutoValidation b s)) w = Some t"
    using assms(2) by (auto simp: enter_fields startAutoValidation_def take_exited_def section_fields spawn_worker_def Let_def)
  show "av_current (enter c (startAutoValidation b s)) \<noteq> Some w" if "av_current s \<noteq> Some w"
    using that \<open>w \<noteq> spawned s\<close>
    by (auto simp: enter_fields startAutoValidation_def take_exited_def section_fields spawn_worker_def Let_def)
qed

lemma stop_keeps_worker:
  "workers (enter c (stopAutoValidation s)) = workers s" "av_current (enter c (stopAutoValidation s)) = None"
  by (simp_all add: enter_fields stopAutoValidation_def take_exited_def section_fields Let_def split: option.split)

lemma bumps_grow: "av_next i idle s e = Some s' \<Longrightarrow> bumps s \<le> bumps s'"
  by (cases rule: av_next_cases, assumption)
    (auto simp: enter_fields startAutoValidation_def stopAutoValidation_def take_exited_def section_fields
      spawn_worker_def retire_all_def Let_def split: option.split)

lemma bumps_grow_run: "av_run g s es = Some s' \<Longrightarrow> bumps s \<le> bumps s'"
  by (induction es arbitrary: s) (auto split: option.splits dest: bumps_grow intro: order_trans)

lemma retired_step:
  assumes step: "av_next i idle s e = Some s'" and r: "av_reachable g s" "bumps s < 2 ^ 64"
    and w: "workers s w = Some t" "av_current s \<noteq> Some w"
  shows "\<exists>t'. workers s' w = Some t' \<and> av_current s' \<noteq> Some w \<and> cycles t' = cycles t
    \<and> steps_left (w_pc t') + (if e = Run w then 1 else 0) = steps_left (w_pc t)"
  using step
proof (cases rule: av_next_cases)
  case (start c b)
  then show ?thesis using start_keeps_worker [OF av_reachable_ok(1) [OF r(1)] w(1)] w(2) by simp
next
  case (stop c)
  then show ?thesis using w by (simp add: stop_keeps_worker)
next
  case (run v u u')
  have "cycles u' = cycles u \<and> Suc (steps_left (w_pc u')) = steps_left (w_pc u)" if "v = w"
  proof -
    have "w_epoch u \<noteq> av_epoch s" using epoch_is_current [OF r w(1)] w run(2) that by auto
    with run(3) show ?thesis by (cases rule: av_loop_cases) auto
  qed
  then show ?thesis using w run by auto
qed (use w in \<open>auto simp: retire_all_def section_fields\<close>)

lemma retired_run:
  "av_run g s es = Some s' \<Longrightarrow> av_reachable g s \<Longrightarrow> bumps s' < 2 ^ 64 \<Longrightarrow> workers s w = Some t
    \<Longrightarrow> av_current s \<noteq> Some w \<Longrightarrow>
    \<exists>t'. workers s' w = Some t' \<and> av_current s' \<noteq> Some w \<and> cycles t' = cycles t
      \<and> steps_left (w_pc t') + count_list es (Run w) = steps_left (w_pc t)"
proof (induction es arbitrary: s t)
  case (Cons e es)
  then obtain s1 where s1: "av_next (av_interval g) (apps_idle s) s e = Some s1" "av_run g s1 es = Some s'"
    by (auto split: option.splits)
  have b: "bumps s < 2 ^ 64" using bumps_grow [OF s1(1)] bumps_grow_run [OF s1(2)] Cons.prems(3) by simp
  from retired_step [OF s1(1) Cons.prems(2) b Cons.prems(4,5)] obtain t1 where
    t1: "workers s1 w = Some t1" "av_current s1 \<noteq> Some w" "cycles t1 = cycles t"
      "steps_left (w_pc t1) + (if e = Run w then 1 else 0) = steps_left (w_pc t)" by blast
  from Cons.IH [OF s1(2) av_more [OF Cons.prems(2) s1(1)] Cons.prems(3) t1(1,2)] t1(3,4) show ?case by auto
qed simp

lemma retired_can_run:
  assumes "av_reachable g s" "bumps s < 2 ^ 64" "workers s w = Some t" "av_current s \<noteq> Some w"
    "w_pc t \<noteq> Finished" "w_pc t = Cycling \<longrightarrow> reaping s (Listener w) = None"
  shows "av_next i idle s (Run w) \<noteq> None"
proof -
  have "w_epoch t \<noteq> av_epoch s" using epoch_is_current [OF assms(1-3)] assms(4) by auto
  then show ?thesis using assms by (auto simp: av_loop_def wait_for_def split: av_pc.split)
qed

text \<open>
  C22. Stopping without joining is enough: a worker that no longer is the current one never begins another
  refresh, whatever is started and stopped later; it has at most four steps of its own left, none of which
  waits for a timer, and only the refresh it may be in, its listeners' own calls included, can hold it up.
\<close>
theorem retired_worker_stops:
  assumes "av_reachable g s" "workers s w = Some t" "av_current s \<noteq> Some w"
    "av_run g s es = Some s'" "bumps s' < 2 ^ 64"
  shows "\<exists>t'. workers s' w = Some t' \<and> cycles t' = cycles t
    \<and> steps_left (w_pc t') + count_list es (Run w) = steps_left (w_pc t)
    \<and> (w_pc t' \<notin> {Cycling, Finished} \<longrightarrow> av_next (av_interval g) (apps_idle s') s' (Run w) \<noteq> None)"
  using retired_run [OF assms(4,1,5,2,3)] retired_can_run [OF av_run_reachable [OF assms(4,1)] assms(5)]
  by blast

section \<open>Start and stop return\<close>

lemma av_next_reap:
  assumes "reaping s c = Some (w # ws)" "workers s w = Some t" "w_pc t = Finished"
  shows "av_next i idle s (Reap c) = Some (s\<lparr>reaping := (reaping s)(c \<mapsto> ws)\<rparr>)"
  using assms by (simp add: ended_def)

lemma av_next_finish:
  assumes "workers s w = Some t" "w_pc t = Published"
  shows "av_next i idle s (Run w) = Some (s\<lparr>workers := (workers s)(w \<mapsto> t\<lparr>w_pc := Finished\<rparr>)\<rparr>)"
  using assms by (simp add: av_loop_def)

lemma reaper_ends:
  assumes "av_reachable g s" "reaping s c = Some ws"
  shows "\<exists>es s'. av_run g s es = Some s' \<and> reaping s' c = None \<and> length es \<le> 2 * length ws + 1
    \<and> set es \<subseteq> {Reap c, Return_from c} \<union> Run ` set ws"
  using assms
proof (induction ws arbitrary: s)
  case Nil
  then show ?case
    by (intro exI [of _ "[Return_from c]"] exI [of _ "s\<lparr>reaping := (reaping s)(c := None)\<rparr>"]) simp
next
  case (Cons w ws)
  obtain t where t: "workers s w = Some t" "w_pc t = Published \<or> w_pc t = Finished"
    using reaped_finishing [OF Cons.prems, of w] by auto
  have "\<exists>es s1. av_run g s es = Some s1 \<and> reaping s1 c = Some ws \<and> length es \<le> 2 \<and> set es \<subseteq> {Reap c, Run w}"
  proof (cases "w_pc t = Finished")
    case True
    from av_next_reap [OF Cons.prems(2) t(1) this] show ?thesis
      by (intro exI [of _ "[Reap c]"] exI [of _ "s\<lparr>reaping := (reaping s)(c \<mapsto> ws)\<rparr>"]) (simp del: av_next.simps)
  next
    case False
    let ?s = "s\<lparr>workers := (workers s)(w \<mapsto> t\<lparr>w_pc := Finished\<rparr>)\<rparr>"
    have "av_next i idle s (Run w) = Some ?s" for i idle using av_next_finish t False by blast
    moreover have "av_next i idle ?s (Reap c) = Some (?s\<lparr>reaping := (reaping s)(c \<mapsto> ws)\<rparr>)" for i idle
      using av_next_reap [of ?s c w ws] Cons.prems(2) by simp
    ultimately show ?thesis
      by (intro exI [of _ "[Run w, Reap c]"] exI [of _ "?s\<lparr>reaping := (reaping s)(c \<mapsto> ws)\<rparr>"])
        (simp del: av_next.simps)
  qed
  then obtain es s1 where s1: "av_run g s es = Some s1" "reaping s1 c = Some ws" "length es \<le> 2"
    "set es \<subseteq> {Reap c, Run w}" by blast
  from Cons.IH [OF av_run_reachable [OF s1(1) Cons.prems(1)] s1(2)] obtain fs s' where
    "av_run g s1 fs = Some s'" "reaping s' c = None" "length fs \<le> 2 * length ws + 1"
    "set fs \<subseteq> {Reap c, Return_from c} \<union> Run ` set ws" by blast
  with s1 show ?case
    by (intro exI [of _ "es @ fs"] exI [of _ s']) (auto simp: av_run_append)
qed

text \<open>
  C23. Start and stop return without waiting for anybody's work: from every reachable state a call that is
  allowed enters at once (its section never waits for a worker), and then needs at most two steps per
  worker it reaps, made by itself and by threads that only have to return from their thread function; no
  refresh, no timer, no listener and no other caller has to move.
\<close>
theorem start_and_stop_return:
  assumes "av_reachable g s" "may_call s c"
  shows "\<forall>e \<in> {Start c True, Start c False, Stop c}. \<exists>s1 ws. av_next (av_interval g) (apps_idle s) s e = Some s1
    \<and> reaping s1 c = Some ws \<and> length ws \<le> length (av_retired s)
    \<and> (\<exists>es s'. av_run g s1 es = Some s' \<and> reaping s' c = None \<and> length es \<le> 2 * length ws + 1
         \<and> set es \<subseteq> {Reap c, Return_from c} \<union> Run ` set ws)"
proof
  fix e assume e: "e \<in> {Start c True, Start c False, Stop c}"
  let ?out = "filter (is_done s) (av_retired s)"
  obtain s1 where s1: "av_next (av_interval g) (apps_idle s) s e = Some s1" "reaping s1 c = Some ?out"
    using e assms(2)
    by (auto simp: enter_fields startAutoValidation_def stopAutoValidation_def take_exited_def Let_def)
  from reaper_ends [OF av_more [OF assms(1) s1(1)] s1(2)] s1
  show "\<exists>s1 ws. av_next (av_interval g) (apps_idle s) s e = Some s1
    \<and> reaping s1 c = Some ws \<and> length ws \<le> length (av_retired s)
    \<and> (\<exists>es s'. av_run g s1 es = Some s' \<and> reaping s' c = None \<and> length es \<le> 2 * length ws + 1
         \<and> set es \<subseteq> {Reap c, Return_from c} \<union> Run ` set ws)"
    using length_filter_le [of "is_done s" "av_retired s"] by blast
qed

section \<open>The destructor\<close>

definition closing :: "av_state \<Rightarrow> bool" where
  "closing s \<longleftrightarrow> lifetime s \<noteq> Alive \<and> lifetime s \<noteq> Aborted \<and> av_current s = None \<and> av_retired s = []"

definition starts_worker :: "av_event \<Rightarrow> bool" where
  "starts_worker e = (case e of Start c b \<Rightarrow> True | _ \<Rightarrow> False)"

lemma closing_next:
  assumes "av_next i idle s e = Some s'" "closing s" "\<not> starts_worker e"
  shows "closing s' \<and> spawned s' = spawned s"
  using assms(1)
proof (cases rule: av_next_cases)
  case stop
  then show ?thesis using assms(2)
    by (simp add: closing_def enter_fields stopAutoValidation_def take_exited_def Let_def)
qed (use assms(2,3) in \<open>auto simp: closing_def starts_worker_def\<close>)

lemma closing_run:
  "av_run g s es = Some s' \<Longrightarrow> closing s \<Longrightarrow> list_all (\<lambda>e. \<not> starts_worker e) es
    \<Longrightarrow> closing s' \<and> spawned s' = spawned s"
  by (induction es arbitrary: s) (auto split: option.splits dest!: closing_next)

lemma destroyed_ended:
  assumes r: "av_reachable g s" and "closing s" "lifetime s = Destroyed" and w: "workers s w = Some t"
  shows "w_pc t = Finished"
proof (rule ccontr)
  note own = owned_byD [OF av_reachable_ok(2) [OF r, unfolded owners_ok_def]]
  have only: "\<exists>u. p = In_reaper (Listener u)" if "v \<in> set (held s p)" for v p
  proof (cases p)
    case (In_reaper c)
    have "reaping s c \<noteq> None" using that In_reaper by (cases "reaping s c") auto
    then show ?thesis
      using av_reachable_ok(3) [OF r] assms(3) In_reaper by (cases c) (auto simp: calls_ok_def apps_idle_def)
  qed (use that assms(2,3) in \<open>auto simp: closing_def\<close>)
  assume "w_pc t \<noteq> Finished"
  from own(3) [OF w this] only obtain u where "w \<in> set (held s (In_reaper (Listener u)))" by blast
  then have "reaping s (Listener u) \<noteq> None" by (cases "reaping s (Listener u)") auto
  then obtain tu where tu: "workers s u = Some tu" "w_pc tu = Cycling"
    using av_reachable_ok(3) [OF r] unfolding calls_ok_def by blast
  have "w_pc tu \<noteq> Finished" using tu(2) by simp
  from own(3) [OF tu(1) this] only obtain x where "u \<in> set (held s (In_reaper (Listener x)))" by blast
  then have "finishing (workers s) u" by (rule own(4))
  then show False
    using tu av_reachable_ok(1) [OF r] by (auto simp: finishing_def workers_ok_def worker_ok_def)
qed

text \<open>
  C24. The destructor takes every background thread down with it: once it has begun, and as long as no
  listener starts a worker meanwhile, the members are never destroyed while a thread is joinable, no thread
  is added, and when it is over every worker ever created has ended, so none can touch the dead client.
\<close>
theorem destructor_joins_everything:
  assumes "av_reachable g s" "av_run g s (Destroy # es) = Some s'" "list_all (\<lambda>e. \<not> starts_worker e) es"
  shows "lifetime s' \<noteq> Aborted \<and> spawned s' = spawned s
    \<and> (lifetime s' = Destroyed \<longrightarrow> (\<forall>w t. workers s' w = Some t \<longrightarrow> w_pc t = Finished))"
proof -
  obtain s1 where s1: "av_next (av_interval g) (apps_idle s) s Destroy = Some s1" "av_run g s1 es = Some s'"
    using assms(2) by (auto simp del: av_next.simps split: option.splits)
  have "closing s1 \<and> spawned s1 = spawned s"
    using s1(1) by (auto simp: closing_def retire_all_def section_fields split: if_splits)
  with closing_run [OF s1(2) _ assms(3)] have "closing s'" "spawned s' = spawned s" by auto
  moreover have "av_reachable g s'" by (rule av_run_reachable [OF assms(2,1)])
  ultimately show ?thesis using destroyed_ended by (auto simp: closing_def)
qed

section \<open>A concrete interleaving\<close>

text \<open>Stopped and started again while the first worker is still in its refresh: two workers live.\<close>

definition overlap_run :: "av_event list" where
  "overlap_run =
     [Start (App 0) True, Return_from (App 0), Run 0, Time 1800000, Run 0,
      Stop (App 1), Return_from (App 1), Start (App 0) True, Return_from (App 0)]"

definition overlap :: av_state where
  "overlap =
     \<lparr>av_epoch = 3, av_current = Some 1, av_retired = [0],
      workers =
        [0 \<mapsto> \<lparr>w_epoch = 1, w_done = False, w_pc = Cycling, born = 1, began = 0, cycles = 1\<rparr>,
         1 \<mapsto> \<lparr>w_epoch = 3, w_done = False, w_pc = Head, born = 3, began = 1800000, cycles = 0\<rparr>],
      spawned = 2, reaping = Map.empty, lifetime = Alive, av_clock = 1800000, bumps = 3\<rparr>"

lemmas av_section_defs = may_call_def startAutoValidation_def stopAutoValidation_def take_exited_def enter_def
  bump_def spawn_worker_def retire_all_def av_loop_def wait_for_def ended_def is_done_def Let_def

lemma overlap_reached: "av_run default_config av_init overlap_run = Some overlap"
  by (simp add: overlap_run_def overlap_def av_init_def av_section_defs default_config_def positive_interval_def
      fun_eq_iff)

lemma overlap_reachable: "av_reachable default_config overlap"
  by (rule av_run_reachable [OF overlap_reached av_start])

theorem workers_are_owned_witness:
  "(\<exists>!p. (0 :: nat) \<in> set (held overlap p)) \<and> (\<exists>!p. (1 :: nat) \<in> set (held overlap p))"
  using workers_are_owned [OF overlap_reachable, THEN conjunct1] by (simp add: overlap_def)

theorem retired_worker_stops_witness:
  "\<exists>s' t'. av_run default_config overlap [Run 0, Run 0, Run 0, Run 0] = Some s' \<and> workers s' 0 = Some t'
    \<and> cycles t' = 1 \<and> steps_left (w_pc t') = 0"
proof -
  let ?es = "[Run 0, Run 0, Run 0, Run 0]"
  have "\<exists>s'. av_run default_config overlap ?es = Some s' \<and> bumps s' < 2 ^ 64"
    by (simp add: overlap_def av_section_defs)
  then obtain s' where s': "av_run default_config overlap ?es = Some s'" "bumps s' < 2 ^ 64" by blast
  have t: "workers overlap 0 = Some \<lparr>w_epoch = 1, w_done = False, w_pc = Cycling, born = 1, began = 0, cycles = 1\<rparr>"
      "av_current overlap \<noteq> Some 0" by (simp_all add: overlap_def)
  show ?thesis using retired_worker_stops [OF overlap_reachable t s'] s'(1) by auto
qed

theorem start_and_stop_return_witness:
  "\<exists>s1 es s'. av_next (av_interval default_config) (apps_idle overlap) overlap (Stop (Listener 0)) = Some s1
    \<and> av_run default_config s1 es = Some s' \<and> reaping s' (Listener 0) = None \<and> length es \<le> 3"
proof -
  have "may_call overlap (Listener 0)" by (simp add: may_call_def overlap_def)
  from start_and_stop_return [OF overlap_reachable this, THEN bspec, OF insertI2 [OF insertI2 [OF insertI1]]]
  show ?thesis
  proof (elim exE conjE)
    fix s1 ws es s'
    assume run: "av_next (av_interval default_config) (apps_idle overlap) overlap (Stop (Listener 0)) = Some s1"
      "av_run default_config s1 es = Some s'" "reaping s' (Listener 0) = None"
    assume "length ws \<le> length (av_retired overlap)" "length es \<le> 2 * length ws + 1"
    then have "length es \<le> 3" by (simp add: overlap_def)
    with run show ?thesis by blast
  qed
qed

theorem destructor_joins_everything_witness:
  "\<exists>s'. av_run default_config overlap (Destroy # [Run 1, Run 1, Run 1, Run 0, Run 0, Run 0, Run 0,
      Join_next, Join_next, End_members]) = Some s' \<and> lifetime s' = Destroyed
    \<and> (\<forall>w t. workers s' w = Some t \<longrightarrow> w_pc t = Finished)"
proof -
  let ?es = "[Run 1, Run 1, Run 1, Run 0, Run 0, Run 0, Run 0, Join_next, Join_next, End_members]"
  have "\<exists>s'. av_run default_config overlap (Destroy # ?es) = Some s' \<and> lifetime s' = Destroyed"
    by (simp add: overlap_def av_section_defs apps_idle_def)
  then obtain s' where s': "av_run default_config overlap (Destroy # ?es) = Some s'" "lifetime s' = Destroyed"
    by blast
  have "list_all (\<lambda>e. \<not> starts_worker e) ?es" by (simp add: starts_worker_def)
  from destructor_joins_everything [OF overlap_reachable s'(1) this] s' show ?thesis by blast
qed

section \<open>A worker started during destruction\<close>

text \<open>What needs no decision of the application: threads move, calls already begun come to an end.\<close>

fun automatic :: "av_event \<Rightarrow> bool" where
  "automatic (Reap c) = True"
| "automatic (Return_from c) = True"
| "automatic (Run w) = True"
| "automatic (Time d) = True"
| "automatic _ = False"

definition same_life :: "av_state \<Rightarrow> av_state \<Rightarrow> bool" where
  "same_life s s' \<longleftrightarrow> lifetime s' = lifetime s \<and> av_current s' = av_current s \<and> bumps s' = bumps s"

lemma same_life_refl [simp]: "same_life s s"
  by (simp add: same_life_def)

lemma same_life_trans: "same_life s s' \<Longrightarrow> same_life s' s'' \<Longrightarrow> same_life s s''"
  by (simp add: same_life_def)

lemma automatic_next: "av_next i idle s e = Some s' \<Longrightarrow> automatic e \<Longrightarrow> same_life s s'"
  by (cases rule: av_next_cases, assumption) (auto simp: same_life_def)

lemma automatic_run: "av_run g s es = Some s' \<Longrightarrow> list_all automatic es \<Longrightarrow> same_life s s'"
  by (induction es arbitrary: s) (auto split: option.splits intro: same_life_trans dest: automatic_next)

text \<open>A worker that is no longer current runs out by itself, once its listener's own call has returned.\<close>

lemma worker_runs_out:
  assumes "av_reachable g s" "bumps s < 2 ^ 64" "workers s w = Some t" "av_current s \<noteq> Some w"
    "w_pc t = Cycling \<longrightarrow> reaping s (Listener w) = None"
  shows "\<exists>es s'. av_run g s es = Some s' \<and> list_all automatic es \<and> ended s' w"
  using assms
proof (induction "steps_left (w_pc t)" arbitrary: s t)
  case 0
  then have "w_pc t = Finished" by (cases "w_pc t") simp_all
  then show ?case using 0 by (intro exI [of _ "[]"] exI [of _ s]) (simp add: ended_def)
next
  case (Suc k)
  have "w_pc t \<noteq> Finished" using Suc.hyps(2) by auto
  from retired_can_run [OF Suc.prems(1-4) this Suc.prems(5)] obtain s1 where
    s1: "av_next (av_interval g) (apps_idle s) s (Run w) = Some s1" by blast
  from retired_step [OF s1 Suc.prems(1-4)] obtain t1 where
    t1: "workers s1 w = Some t1" "av_current s1 \<noteq> Some w" "Suc (steps_left (w_pc t1)) = steps_left (w_pc t)" by auto
  have "steps_left (w_pc t) \<le> 4" by (cases "w_pc t") simp_all
  then have "w_pc t1 \<noteq> Cycling" "k = steps_left (w_pc t1)" using t1(3) Suc.hyps(2) by auto
  moreover have "bumps s1 < 2 ^ 64" using automatic_next [OF s1] Suc.prems(2) by (simp add: same_life_def)
  ultimately obtain es s' where "av_run g s1 es = Some s'" "list_all automatic es" "ended s' w"
    using Suc.hyps(1) [of t1 s1] av_more [OF Suc.prems(1) s1] t1 by blast
  then show ?case using s1 by (intro exI [of _ "Run w # es"] exI [of _ s']) (simp del: av_next.simps)
qed

lemma worker_can_end:
  assumes "av_reachable g s" "bumps s < 2 ^ 64" "workers s w = Some t" "av_current s \<noteq> Some w"
  shows "\<exists>es s'. av_run g s es = Some s' \<and> list_all automatic es \<and> ended s' w"
proof -
  obtain es s1 where s1: "av_run g s es = Some s1" "reaping s1 (Listener w) = None" "list_all automatic es"
  proof (cases "reaping s (Listener w)")
    case None
    then show ?thesis using that [of "[]" s] by simp
  next
    case (Some ws)
    from reaper_ends [OF assms(1) this] obtain es s1 where "av_run g s es = Some s1" "reaping s1 (Listener w) = None"
      "set es \<subseteq> {Reap (Listener w), Return_from (Listener w)} \<union> Run ` set ws" by blast
    moreover from this(3) have "list_all automatic es" by (fastforce simp: list_all_iff)
    ultimately show ?thesis using that by blast
  qed
  have b: "bumps s1 < 2 ^ 64" "av_current s1 \<noteq> Some w"
    using automatic_run [OF s1(1,3)] assms(2,4) by (simp_all add: same_life_def)
  from retired_run [OF s1(1) assms(1) b(1) assms(3,4)] obtain t1 where t1: "workers s1 w = Some t1" by blast
  from worker_runs_out [OF av_run_reachable [OF s1(1) assms(1)] b(1) t1 b(2)] s1(2) obtain fs s' where
    "av_run g s1 fs = Some s'" "list_all automatic fs" "ended s' w" by blast
  with s1 show ?thesis by (intro exI [of _ "es @ fs"] exI [of _ s']) (simp add: av_run_append)
qed

text \<open>So the joins of the destructor come to an end.\<close>

lemma joins_end:
  assumes "av_reachable g s" "bumps s < 2 ^ 64" "lifetime s = Joining ws"
  shows "\<exists>es s'. av_run g s es = Some s' \<and> list_all (\<lambda>e. automatic e \<or> e = Join_next) es
    \<and> lifetime s' = Joining [] \<and> av_current s' = av_current s"
  using assms
proof (induction ws arbitrary: s)
  case Nil
  then show ?case by (intro exI [of _ "[]"] exI [of _ s]) simp
next
  case (Cons w ws)
  note own = owned_byD [OF av_reachable_ok(2) [OF Cons.prems(1), unfolded owners_ok_def]]
  have held: "w \<in> set (held s In_destructor)" using Cons.prems(3) by simp
  obtain t where t: "workers s w = Some t" using own(2) [OF held] by blast
  have "w \<notin> set (held s In_current)" using own(1) held unfolding one_owner_def by blast
  then have "av_current s \<noteq> Some w" by auto
  from worker_can_end [OF Cons.prems(1,2) t this] obtain es s1 where
    s1: "av_run g s es = Some s1" "list_all automatic es" "ended s1 w" by blast
  note life = automatic_run [OF s1(1,2), unfolded same_life_def]
  let ?s2 = "s1\<lparr>lifetime := Joining ws\<rparr>"
  have step: "av_next i idle s1 Join_next = Some ?s2" for i idle using life Cons.prems(3) s1(3) by simp
  have "av_reachable g ?s2" by (rule av_more [OF av_run_reachable [OF s1(1) Cons.prems(1)] step])
  from Cons.IH [OF this] life Cons.prems(2) obtain fs s' where
    "av_run g ?s2 fs = Some s'" "list_all (\<lambda>e. automatic e \<or> e = Join_next) fs"
    "lifetime s' = Joining []" "av_current s' = av_current ?s2" by auto
  with s1 step life show ?case
    by (intro exI [of _ "es @ Join_next # fs"] exI [of _ s'])
      (auto simp: av_run_append list_all_iff simp del: av_next.simps)
qed

definition doomed :: "av_state \<Rightarrow> bool" where
  "doomed s \<longleftrightarrow> av_current s \<noteq> None \<and> lifetime s \<notin> {Alive, Destroyed}"

definition stops_worker :: "av_event \<Rightarrow> bool" where
  "stops_worker e = (case e of Stop c \<Rightarrow> True | _ \<Rightarrow> False)"

lemma doomed_next:
  assumes "av_next i idle s e = Some s'" "doomed s" "\<not> stops_worker e"
  shows "doomed s'"
  using assms(1)
proof (cases rule: av_next_cases)
  case start
  then show ?thesis using assms(2)
    by (auto simp: doomed_def enter_fields startAutoValidation_def take_exited_def Let_def)
qed (use assms(2,3) in \<open>auto simp: doomed_def stops_worker_def\<close>)

lemma doomed_run:
  "av_run g s es = Some s' \<Longrightarrow> doomed s \<Longrightarrow> list_all (\<lambda>e. \<not> stops_worker e) es \<Longrightarrow> doomed s'"
  by (induction es arbitrary: s) (auto split: option.splits dest!: doomed_next)

text \<open>
  C25. The one way the destructor fails: nothing latches the workers off the way
  \<open>kh_shutdown_\<close> does for the heartbeat. If any listener starts auto-validation (which its
  contract allows) while the destructor waits for its joins, in whatever state (fewer than
  \<open>2^64\<close> starts and stops), then unless a listener stops it again the members are never
  destroyed in an orderly way; and the threads and the destructor alone, no application thread and no
  further listener's call being needed, come to the point where the members are destroyed with a
  joinable thread in \<open>av_current_\<close> that is still in its loop:
  \<open>std::terminate\<close>.
\<close>
theorem restart_during_destruction_aborts:
  assumes "av_reachable g s" "lifetime s = Joining ws" "bumps s1 < 2 ^ 64"
    "av_next (av_interval g) (apps_idle s) s (Start (Listener w) True) = Some s1"
  shows "(\<forall>es s'. av_run g s1 es = Some s' \<and> list_all (\<lambda>e. \<not> stops_worker e) es \<longrightarrow> lifetime s' \<noteq> Destroyed)
    \<and> (\<exists>es s' v t. av_run g s1 es = Some s'
         \<and> list_all (\<lambda>e. automatic e \<or> e = Join_next \<or> e = End_members) es
         \<and> lifetime s' = Aborted \<and> av_current s' = Some v
         \<and> workers s' v = Some t \<and> w_pc t \<notin> {Leaving, Published, Finished})"
proof
  have s1: "s1 = enter (Listener w) (startAutoValidation True s)"
    using assms(4) by (auto split: if_splits)
  have life: "lifetime s1 = Joining ws" "av_current s1 \<noteq> None"
    by (auto simp: s1 assms(2) enter_fields startAutoValidation_def take_exited_def section_fields spawn_worker_def Let_def)
  have "doomed s1" using life by (simp add: doomed_def)
  then show "\<forall>es s'. av_run g s1 es = Some s' \<and> list_all (\<lambda>e. \<not> stops_worker e) es \<longrightarrow> lifetime s' \<noteq> Destroyed"
    using doomed_run by (auto simp: doomed_def)
  have r: "av_reachable g s1" by (rule av_more [OF assms(1,4)])
  from joins_end [OF r assms(3) life(1)] obtain es s2 where s2: "av_run g s1 es = Some s2"
    "list_all (\<lambda>e. automatic e \<or> e = Join_next) es" "lifetime s2 = Joining []" "av_current s2 = av_current s1" by blast
  obtain v where v: "av_current s2 = Some v" using s2(4) life(2) by auto
  from current_runs [OF av_run_reachable [OF s2(1) r] v] obtain t where
    t: "workers s2 v = Some t" "w_pc t \<notin> {Leaving, Published, Finished}" by blast
  have "av_next i idle s2 End_members = Some (s2\<lparr>lifetime := Aborted\<rparr>)" for i idle using s2(3) v by simp
  with s2 v t show "\<exists>es s' v t. av_run g s1 es = Some s'
         \<and> list_all (\<lambda>e. automatic e \<or> e = Join_next \<or> e = End_members) es
         \<and> lifetime s' = Aborted \<and> av_current s' = Some v
         \<and> workers s' v = Some t \<and> w_pc t \<notin> {Leaving, Published, Finished}"
    by (intro exI [of _ "es @ [End_members]"] exI [of _ "s2\<lparr>lifetime := Aborted\<rparr>"] exI [of _ v] exI [of _ t])
      (auto simp: av_run_append list_all_iff simp del: av_next.simps)
qed

text \<open>Two workers are in the destructor's hands, the older one inside its refresh.\<close>

theorem restart_during_destruction_aborts_witness:
  "\<exists>s s1 es s'. av_run default_config overlap [Destroy] = Some s
    \<and> av_run default_config s [Start (Listener 0) True] = Some s1
    \<and> av_run default_config s1 es = Some s' \<and> lifetime s' = Aborted"
proof -
  have "\<exists>s. av_run default_config overlap [Destroy] = Some s \<and> lifetime s = Joining [1, 0] \<and> workers s = workers overlap
      \<and> reaping s = reaping overlap \<and> bumps s = 4 \<and> av_current s = None"
    by (simp add: overlap_def av_section_defs apps_idle_def)
  then obtain s where s: "av_run default_config overlap [Destroy] = Some s" "lifetime s = Joining [1, 0]"
    "workers s = workers overlap" "reaping s = reaping overlap" "bumps s = 4" "av_current s = None" by blast
  have "may_call s (Listener 0)" using s(3,4) by (simp add: may_call_def overlap_def)
  then obtain s1 where s1: "av_next (av_interval default_config) (apps_idle s) s (Start (Listener 0) True) = Some s1"
      "bumps s1 = 5"
    using s(5,6) by (simp add: av_section_defs)
  from restart_during_destruction_aborts [OF av_run_reachable [OF s(1) overlap_reachable] s(2) _ s1(1)] s1(2)
  obtain es s' where "av_run default_config s1 es = Some s'" "lifetime s' = Aborted" by auto
  with s(1) s1(1) show ?thesis by (auto simp del: av_next.simps)
qed

end
