(* ===== verification/Client_Heartbeat.thy ===== *)
theory Client_Heartbeat
  imports Client_Workers
begin

text \<open>
  The keyless heartbeat thread of \<open>Client\<close> (\<open>start_heartbeat_\<close>, \<open>stop_heartbeat_\<close>, \<open>kh_loop_\<close> in
  \<open>client.hpp\<close>) with the threads that start it and the destructor that stops it. A section under
  \<open>kh_mutex_\<close> is one step. Any thread may call \<open>start_heartbeat_\<close> at any time (it runs at every state
  resolution, on workers and on the heartbeat thread itself). What one beacon does is \<open>heartbeat_tick\<close>.
\<close>

datatype kh_pc =
    Kh_head \<comment> \<open>about to wait\<close>
  | Kh_wait nat \<comment> \<open>in \<open>wait_for\<close>, until this time at most\<close>
  | Kh_beacon \<comment> \<open>outside the lock, at the network\<close>
  | Kh_done \<comment> \<open>the thread has ended\<close>

record kh_thread_state =
  kh_pc :: kh_pc
  kh_began :: nat
  beacons :: nat

record kh_state =
  kh_stop_flag :: bool
  kh_latch :: bool
  kh_slot :: "nat option"
  kh_victim :: "nat option"
  kh_threads :: "nat \<Rightarrow> kh_thread_state option"
  kh_spawned :: nat
  kh_clock :: nat

definition kh_init :: kh_state where
  "kh_init = \<lparr>kh_stop_flag = False, kh_latch = False, kh_slot = None, kh_victim = None, kh_threads = Map.empty,
     kh_spawned = 0, kh_clock = 0\<rparr>"

text \<open>\<open>can_spawn\<close>: whether the thread constructor returns; its exception is caught.\<close>

definition kh_start :: "Config \<Rightarrow> bool \<Rightarrow> kh_state \<Rightarrow> kh_state" where
  "kh_start g can_spawn s =
     (if keylessHeartbeatIntervalMs g \<le> 0 then s
      else if kh_latch s then s
      else if kh_slot s \<noteq> None then s
      else (let s1 = s\<lparr>kh_stop_flag := False\<rparr>
            in if can_spawn
               then s1\<lparr>kh_slot := Some (kh_spawned s), kh_spawned := Suc (kh_spawned s),
                       kh_threads := (kh_threads s)(kh_spawned s \<mapsto>
                         \<lparr>kh_pc = Kh_head, kh_began = kh_clock s, beacons = 0\<rparr>)\<rparr>
               else s1))"

text \<open>Only the destructor calls it; the thread it moves out is joined by \<open>K_join\<close>.\<close>

definition kh_stop :: "kh_state \<Rightarrow> kh_state" where
  "kh_stop s = s\<lparr>kh_stop_flag := True, kh_latch := True, kh_victim := kh_slot s, kh_slot := None\<rparr>"

definition kh_loop :: "nat \<Rightarrow> bool \<Rightarrow> nat \<Rightarrow> kh_thread_state \<Rightarrow> kh_thread_state option" where
  "kh_loop interval stop clock t =
     (case kh_pc t of
        Kh_head \<Rightarrow> Some (t\<lparr>kh_pc := if stop then Kh_done else Kh_wait (clock + interval)\<rparr>)
      | Kh_wait deadline \<Rightarrow>
          (case wait_for stop (deadline \<le> clock) of
             None \<Rightarrow> None
           | Some True \<Rightarrow> Some (t\<lparr>kh_pc := Kh_done\<rparr>)
           | Some False \<Rightarrow> Some (t\<lparr>kh_pc := Kh_beacon, beacons := Suc (beacons t)\<rparr>))
      | Kh_beacon \<Rightarrow> Some (t\<lparr>kh_pc := Kh_head\<rparr>)
      | Kh_done \<Rightarrow> None)"

datatype kh_event = K_start bool | K_stop | K_join | K_run nat | K_time nat

fun kh_next :: "Config \<Rightarrow> kh_state \<Rightarrow> kh_event \<Rightarrow> kh_state option" where
  "kh_next g s (K_start can_spawn) = Some (kh_start g can_spawn s)"
| "kh_next g s K_stop = (if kh_latch s then None else Some (kh_stop s))"
| "kh_next g s K_join =
     (case kh_victim s of
        None \<Rightarrow> None
      | Some w \<Rightarrow> (case kh_threads s w of
                    None \<Rightarrow> None
                  | Some t \<Rightarrow> if kh_pc t = Kh_done then Some (s\<lparr>kh_victim := None\<rparr>) else None))"
| "kh_next g s (K_run w) =
     (case kh_threads s w of
        None \<Rightarrow> None
      | Some t \<Rightarrow>
          (case kh_loop (positive_interval (keylessHeartbeatIntervalMs g)) (kh_stop_flag s) (kh_clock s) t of
             None \<Rightarrow> None
           | Some t' \<Rightarrow> Some (s\<lparr>kh_threads := (kh_threads s)(w \<mapsto> t')\<rparr>)))"
| "kh_next g s (K_time d) = Some (s\<lparr>kh_clock := kh_clock s + d\<rparr>)"

inductive kh_reachable :: "Config \<Rightarrow> kh_state \<Rightarrow> bool" for g :: Config where
  kh_begin: "kh_reachable g kh_init"
| kh_more: "kh_reachable g s \<Longrightarrow> kh_next g s e = Some s' \<Longrightarrow> kh_reachable g s'"

fun kh_run :: "Config \<Rightarrow> kh_state \<Rightarrow> kh_event list \<Rightarrow> kh_state option" where
  "kh_run g s [] = Some s"
| "kh_run g s (e # es) = (case kh_next g s e of None \<Rightarrow> None | Some s' \<Rightarrow> kh_run g s' es)"

lemma kh_run_reachable: "kh_run g s es = Some s' \<Longrightarrow> kh_reachable g s \<Longrightarrow> kh_reachable g s'"
  by (induction es arbitrary: s) (auto intro: kh_more split: option.splits)

text \<open>The sequential model of the client sees the same start and stop through two flags.\<close>

definition kh_agrees :: "kh_state \<Rightarrow> 'w client \<Rightarrow> bool" where
  "kh_agrees s c \<longleftrightarrow> kh_shutdown c = kh_latch s \<and> kh_running c = (kh_slot s \<noteq> None)"

lemma kh_start_refines:
  "kh_agrees s c \<Longrightarrow>
     kh_agrees (kh_start (cfg c) (e_spawn E (world c)) s) (snd (run_state (start_heartbeat E) c))"
  by (auto simp: kh_agrees_def kh_start_def start_heartbeat_def Let_def)

lemma kh_stop_refines: "kh_agrees s c \<Longrightarrow> kh_agrees (kh_stop s) (snd (run_state stop_heartbeat c))"
  by (simp add: kh_agrees_def kh_stop_def stop_heartbeat_def)

section \<open>Invariant\<close>

definition kh_pace :: "nat \<Rightarrow> nat \<Rightarrow> kh_thread_state \<Rightarrow> bool" where
  "kh_pace i clock t \<longleftrightarrow> kh_began t + beacons t * i \<le> clock
     \<and> (case kh_pc t of Kh_wait d \<Rightarrow> kh_began t + beacons t * i + i \<le> d | _ \<Rightarrow> True)"

definition kh_thread_ok :: "nat \<Rightarrow> kh_state \<Rightarrow> nat \<Rightarrow> kh_thread_state \<Rightarrow> bool" where
  "kh_thread_ok i s w t \<longleftrightarrow> w < kh_spawned s \<and> kh_pace i (kh_clock s) t
     \<and> (kh_pc t \<noteq> Kh_done \<longrightarrow> kh_slot s = Some w \<or> kh_victim s = Some w)
     \<and> (kh_slot s = Some w \<longrightarrow> kh_pc t \<noteq> Kh_done)"

definition kh_flags_ok :: "kh_state \<Rightarrow> bool" where
  "kh_flags_ok s \<longleftrightarrow>
     (\<forall>w. kh_slot s = Some w \<or> kh_victim s = Some w \<longrightarrow> kh_threads s w \<noteq> None)
     \<and> (if kh_latch s then kh_stop_flag s \<and> kh_slot s = None else \<not> kh_stop_flag s \<and> kh_victim s = None)"

definition kh_ok :: "nat \<Rightarrow> kh_state \<Rightarrow> bool" where
  "kh_ok i s \<longleftrightarrow> kh_flags_ok s \<and> (\<forall>w t. kh_threads s w = Some t \<longrightarrow> kh_thread_ok i s w t)"

lemma kh_loop_cases [consumes 1, case_names ends sleeps beacon again]:
  assumes "kh_loop i stop clock t = Some t'"
  obtains "kh_pc t = Kh_head \<or> (\<exists>d. kh_pc t = Kh_wait d)" "stop" "t' = t\<lparr>kh_pc := Kh_done\<rparr>"
  | "kh_pc t = Kh_head" "\<not> stop" "t' = t\<lparr>kh_pc := Kh_wait (clock + i)\<rparr>"
  | d where "kh_pc t = Kh_wait d" "\<not> stop" "d \<le> clock" "t' = t\<lparr>kh_pc := Kh_beacon, beacons := Suc (beacons t)\<rparr>"
  | "kh_pc t = Kh_beacon" "t' = t\<lparr>kh_pc := Kh_head\<rparr>"
  using assms by (cases "kh_pc t") (auto simp: kh_loop_def wait_for_def split: if_splits)

lemma kh_ok_run:
  assumes ok: "kh_ok i s" and t: "kh_threads s w = Some t"
    and run: "kh_loop i (kh_stop_flag s) (kh_clock s) t = Some t'"
  shows "kh_ok i (s\<lparr>kh_threads := (kh_threads s)(w \<mapsto> t')\<rparr>)" (is "kh_ok i ?s'")
proof -
  have old: "kh_thread_ok i s w t" and flags: "kh_flags_ok s" using ok t by (simp_all add: kh_ok_def)
  have stopped: "kh_stop_flag s \<longrightarrow> kh_slot s = None" using flags by (auto simp: kh_flags_ok_def split: if_splits)
  have pace: "kh_pace i (kh_clock s) t" using old by (simp add: kh_thread_ok_def)
  have "kh_pace i (kh_clock s) t' \<and> (kh_pc t' = Kh_done \<longrightarrow> kh_stop_flag s) \<and> kh_pc t \<noteq> Kh_done"
    using run pace by (cases rule: kh_loop_cases) (auto simp: kh_pace_def)
  then have new: "kh_thread_ok i ?s' w t'" using old stopped by (auto simp: kh_thread_ok_def)
  have "kh_thread_ok i ?s' v u" if "kh_threads ?s' v = Some u" for v u
  proof (cases "v = w")
    case True
    then show ?thesis using that new by simp
  next
    case False
    then have "kh_thread_ok i s v u" using that ok by (simp add: kh_ok_def)
    then show ?thesis by (simp add: kh_thread_ok_def)
  qed
  moreover have "kh_flags_ok ?s'" using flags by (simp add: kh_flags_ok_def)
  ultimately show ?thesis by (simp add: kh_ok_def)
qed

lemma kh_ok_start:
  assumes ok: "kh_ok i s"
  shows "kh_ok i (kh_start g b s)"
proof (cases "keylessHeartbeatIntervalMs g \<le> 0 \<or> kh_latch s \<or> kh_slot s \<noteq> None")
  case True
  then have "kh_start g b s = s" by (auto simp: kh_start_def)
  with ok show ?thesis by simp
next
  case False
  have flags: "\<not> kh_stop_flag s" "kh_victim s = None" "kh_slot s = None" "\<not> kh_latch s"
    using ok False by (auto simp: kh_ok_def kh_flags_ok_def)
  have old: "w < kh_spawned s \<and> kh_pace i (kh_clock s) t \<and> kh_pc t = Kh_done" if "kh_threads s w = Some t" for w t
    using ok that flags by (auto simp: kh_ok_def kh_thread_ok_def)
  let ?s' = "kh_start g b s"
  have "kh_thread_ok i ?s' w t" if "kh_threads ?s' w = Some t" for w t
    using that old [of w t] False flags
    by (auto simp: kh_start_def kh_thread_ok_def kh_pace_def Let_def split: if_splits)
  moreover have "kh_flags_ok ?s'"
    using False flags by (simp add: kh_start_def kh_flags_ok_def Let_def)
  ultimately show ?thesis by (simp add: kh_ok_def)
qed

lemma kh_ok_stop:
  assumes ok: "kh_ok i s" and "\<not> kh_latch s"
  shows "kh_ok i (kh_stop s)"
proof -
  have "kh_victim s = None" "kh_flags_ok s" using assms by (auto simp: kh_ok_def kh_flags_ok_def)
  moreover have "kh_thread_ok i (kh_stop s) w t" if "kh_threads s w = Some t" for w t
  proof -
    have "kh_thread_ok i s w t" using ok that by (simp add: kh_ok_def)
    then show ?thesis using \<open>kh_victim s = None\<close> by (simp add: kh_thread_ok_def kh_stop_def)
  qed
  ultimately show ?thesis by (simp add: kh_ok_def kh_flags_ok_def kh_stop_def)
qed

lemma kh_ok_next:
  assumes "kh_next g s e = Some s'" "kh_ok (positive_interval (keylessHeartbeatIntervalMs g)) s" (is "kh_ok ?i s")
  shows "kh_ok ?i s'"
proof (cases e)
  case (K_start b)
  then show ?thesis using assms kh_ok_start by auto
next
  case K_stop
  then show ?thesis using assms kh_ok_stop by (auto split: if_splits)
next
  case K_join
  with assms(1) obtain w t where w: "kh_victim s = Some w" "kh_threads s w = Some t" "kh_pc t = Kh_done"
      and s': "s' = s\<lparr>kh_victim := None\<rparr>" by (auto split: option.splits if_splits)
  have "kh_thread_ok ?i s' v u" if u: "kh_threads s v = Some u" for v u
  proof -
    have "kh_thread_ok ?i s v u" using u assms(2) by (simp add: kh_ok_def)
    moreover have "v = w \<longrightarrow> kh_pc u = Kh_done" using u w(2,3) by auto
    ultimately show ?thesis using w(1) by (auto simp: kh_thread_ok_def s')
  qed
  moreover have "kh_flags_ok s'" using assms(2) by (auto simp: kh_ok_def kh_flags_ok_def s' split: if_splits)
  ultimately show ?thesis by (simp add: kh_ok_def s')
next
  case (K_run w)
  with assms(1) obtain t t' where "kh_threads s w = Some t"
      "kh_loop ?i (kh_stop_flag s) (kh_clock s) t = Some t'" "s' = s\<lparr>kh_threads := (kh_threads s)(w \<mapsto> t')\<rparr>"
    by (auto split: option.splits)
  with kh_ok_run [OF assms(2)] show ?thesis by simp
next
  case (K_time d)
  have "kh_pace ?i (kh_clock s + d) t" if "kh_pace ?i (kh_clock s) t" for t
    using that by (auto simp: kh_pace_def split: kh_pc.splits)
  moreover have s': "s' = s\<lparr>kh_clock := kh_clock s + d\<rparr>" using assms(1) K_time by simp
  ultimately have "kh_thread_ok ?i s' w t" if "kh_thread_ok ?i s w t" for w t
    using that unfolding kh_thread_ok_def by auto
  then show ?thesis using assms(2) by (auto simp: kh_ok_def kh_flags_ok_def s')
qed

lemma kh_reachable_ok: "kh_reachable g s \<Longrightarrow> kh_ok (positive_interval (keylessHeartbeatIntervalMs g)) s"
proof (induction rule: kh_reachable.induct)
  case kh_begin
  show ?case by (simp add: kh_ok_def kh_flags_ok_def kh_init_def)
next
  case (kh_more s e s')
  then show ?case using kh_ok_next by blast
qed

section \<open>The distance of beacons\<close>

text \<open>Since the time \<open>base\<close>, when the thread had begun \<open>n\<close> beacons and was not waiting.\<close>

definition kh_since :: "nat \<Rightarrow> nat \<Rightarrow> nat \<Rightarrow> nat \<Rightarrow> kh_thread_state \<Rightarrow> bool" where
  "kh_since i n base clock t \<longleftrightarrow> n \<le> beacons t \<and> base + (beacons t - n) * i \<le> clock
     \<and> (case kh_pc t of Kh_wait d \<Rightarrow> base + (beacons t - n) * i + i \<le> d | _ \<Rightarrow> True)"

lemma kh_since_loop:
  assumes "kh_loop i stop clock t = Some t'" "kh_since i n base clock t"
  shows "kh_since i n base clock t'"
  using assms by (cases rule: kh_loop_cases) (auto simp: kh_since_def Suc_diff_le)

lemma kh_since_next:
  assumes step: "kh_next g s e = Some s'" and t: "kh_threads s w = Some t" "w < kh_spawned s"
    and since: "kh_since (positive_interval (keylessHeartbeatIntervalMs g)) n base (kh_clock s) t"
  shows "\<exists>t'. kh_threads s' w = Some t' \<and> kh_since (positive_interval (keylessHeartbeatIntervalMs g)) n base (kh_clock s') t'"
proof (cases e)
  case (K_start b)
  then show ?thesis using assms by (auto simp: kh_start_def Let_def)
next
  case K_stop
  then show ?thesis using assms by (auto simp: kh_stop_def split: if_splits)
next
  case K_join
  then show ?thesis using assms by (auto split: option.splits if_splits)
next
  case (K_run v)
  with step obtain u u' where u: "kh_threads s v = Some u"
      "kh_loop (positive_interval (keylessHeartbeatIntervalMs g)) (kh_stop_flag s) (kh_clock s) u = Some u'"
      "s' = s\<lparr>kh_threads := (kh_threads s)(v \<mapsto> u')\<rparr>" by (auto split: option.splits)
  then show ?thesis using t since kh_since_loop [OF u(2), of n base] by (cases "v = w") auto
next
  case (K_time d)
  then have "s' = s\<lparr>kh_clock := kh_clock s + d\<rparr>" using step by simp
  then show ?thesis using t since by (auto simp: kh_since_def split: kh_pc.splits)
qed

lemma kh_since_run:
  "kh_run g s es = Some s' \<Longrightarrow> kh_reachable g s \<Longrightarrow> kh_threads s w = Some t
    \<Longrightarrow> kh_since (positive_interval (keylessHeartbeatIntervalMs g)) n base (kh_clock s) t
    \<Longrightarrow> \<exists>t'. kh_threads s' w = Some t' \<and> kh_since (positive_interval (keylessHeartbeatIntervalMs g)) n base (kh_clock s') t'"
proof (induction es arbitrary: s t)
  case (Cons e es)
  then obtain s1 where s1: "kh_next g s e = Some s1" "kh_run g s1 es = Some s'" by (auto split: option.splits)
  have "w < kh_spawned s"
    using kh_reachable_ok [OF Cons.prems(2)] Cons.prems(3) by (simp add: kh_ok_def kh_thread_ok_def)
  from kh_since_next [OF s1(1) Cons.prems(3) this Cons.prems(4)] Cons.IH [OF s1(2) kh_more [OF Cons.prems(2) s1(1)]]
  show ?case by blast
qed auto

lemma beacons_are_spaced:
  assumes "kh_reachable g s" "kh_threads s w = Some t" "kh_pc t = Kh_beacon" "kh_run g s es = Some s'"
  shows "\<exists>t'. kh_threads s' w = Some t' \<and> beacons t \<le> beacons t'
    \<and> kh_clock s + (beacons t' - beacons t) * positive_interval (keylessHeartbeatIntervalMs g) \<le> kh_clock s'"
proof -
  have "kh_since (positive_interval (keylessHeartbeatIntervalMs g)) (beacons t) (kh_clock s) (kh_clock s) t"
    using assms(3) by (simp add: kh_since_def)
  from kh_since_run [OF assms(4,1,2) this] show ?thesis by (auto simp: kh_since_def)
qed

section \<open>Lifetime\<close>

fun kh_steps_left :: "kh_pc \<Rightarrow> nat" where
  "kh_steps_left Kh_beacon = 2"
| "kh_steps_left Kh_head = 1"
| "kh_steps_left (Kh_wait d) = 1"
| "kh_steps_left Kh_done = 0"

definition kh_same_beacons :: "kh_state \<Rightarrow> kh_state \<Rightarrow> bool" where
  "kh_same_beacons s s' \<longleftrightarrow> kh_spawned s' = kh_spawned s
     \<and> (\<forall>w. map_option beacons (kh_threads s' w) = map_option beacons (kh_threads s w))"

lemma kh_latched_next:
  assumes step: "kh_next g s e = Some s'" and "kh_ok i s" "kh_latch s"
  shows "kh_latch s' \<and> kh_same_beacons s s'"
proof (cases e)
  case (K_start b)
  then have "s' = s" using assms(1,3) by (auto simp: kh_start_def)
  then show ?thesis using assms(3) by (simp add: kh_same_beacons_def)
next
  case K_join
  then show ?thesis using assms by (auto simp: kh_same_beacons_def split: option.splits if_splits)
next
  case (K_run w)
  with step obtain t t' where t: "kh_threads s w = Some t"
      "kh_loop (positive_interval (keylessHeartbeatIntervalMs g)) (kh_stop_flag s) (kh_clock s) t = Some t'"
      "s' = s\<lparr>kh_threads := (kh_threads s)(w \<mapsto> t')\<rparr>" by (auto split: option.splits)
  have "kh_stop_flag s" using assms(2,3) by (simp add: kh_ok_def kh_flags_ok_def)
  with t(2) have "beacons t' = beacons t" by (cases rule: kh_loop_cases) simp_all
  then show ?thesis using t assms(3) by (simp add: kh_same_beacons_def)
qed (use assms in \<open>auto simp: kh_same_beacons_def split: if_splits\<close>)

lemma kh_latched_runs:
  assumes "kh_ok i s" "kh_latch s" "kh_threads s w = Some t" "kh_pc t \<noteq> Kh_done"
  shows "\<exists>s' t'. kh_next g s (K_run w) = Some s' \<and> kh_threads s' w = Some t'
    \<and> Suc (kh_steps_left (kh_pc t')) = kh_steps_left (kh_pc t)"
proof -
  have "kh_stop_flag s" using assms(1,2) by (simp add: kh_ok_def kh_flags_ok_def)
  then show ?thesis using assms(3,4) by (cases "kh_pc t") (simp_all add: kh_loop_def wait_for_def)
qed

lemma kh_disabled: "kh_reachable g s \<Longrightarrow> keylessHeartbeatIntervalMs g \<le> 0 \<Longrightarrow> kh_spawned s = 0"
proof (induction rule: kh_reachable.induct)
  case kh_begin
  show ?case by (simp add: kh_init_def)
next
  case (kh_more s e s')
  then show ?case by (cases e) (auto simp: kh_start_def kh_stop_def split: if_splits option.splits)
qed

text \<open>
  C26. The heartbeat over the life of a client, in every interleaving: at most one thread beats, and none if
  the interval disables it; its first beacon comes a whole interval after its creation, so a client that is
  built and thrown away never beacons; from any moment at which a beacon is at the network, however late it
  began, the next one is at least an interval away and \<open>k\<close> more at least \<open>k\<close> intervals; once the destructor
  has latched it off, no thread is ever spawned again and no further beacon begins, the thread that was
  moved out leaves within two steps that wait for no timer, and when it has been joined none is left.
\<close>
theorem heartbeat_lifetime:
  assumes "kh_reachable g s"
  shows "(\<forall>v w t u. kh_threads s v = Some t \<and> kh_threads s w = Some u
        \<and> kh_pc t \<noteq> Kh_done \<and> kh_pc u \<noteq> Kh_done \<longrightarrow> v = w)
    \<and> (keylessHeartbeatIntervalMs g \<le> 0 \<longrightarrow> kh_spawned s = 0)
    \<and> (\<forall>w t. kh_threads s w = Some t \<longrightarrow>
          beacons t * positive_interval (keylessHeartbeatIntervalMs g) \<le> kh_clock s - kh_began t)
    \<and> (\<forall>w t es s'. kh_threads s w = Some t \<and> kh_pc t = Kh_beacon \<and> kh_run g s es = Some s' \<longrightarrow>
          (\<exists>t'. kh_threads s' w = Some t' \<and> beacons t \<le> beacons t'
             \<and> kh_clock s + (beacons t' - beacons t) * positive_interval (keylessHeartbeatIntervalMs g) \<le> kh_clock s'))
    \<and> (kh_latch s \<longrightarrow> (\<forall>e s'. kh_next g s e = Some s' \<longrightarrow> kh_latch s' \<and> kh_same_beacons s s')
         \<and> (\<forall>w t. kh_threads s w = Some t \<and> kh_pc t \<noteq> Kh_done \<longrightarrow> kh_victim s = Some w
              \<and> (\<exists>s' t'. kh_next g s (K_run w) = Some s' \<and> kh_threads s' w = Some t'
                   \<and> Suc (kh_steps_left (kh_pc t')) = kh_steps_left (kh_pc t))))"
proof -
  note ok = kh_reachable_ok [OF assms]
  have thread: "w < kh_spawned s \<and> kh_pace (positive_interval (keylessHeartbeatIntervalMs g)) (kh_clock s) t
      \<and> (kh_pc t \<noteq> Kh_done \<longrightarrow> kh_slot s = Some w \<or> kh_victim s = Some w)" if "kh_threads s w = Some t" for w t
    using ok that by (simp add: kh_ok_def kh_thread_ok_def)
  have flags: "kh_slot s = None \<or> kh_victim s = None" "kh_latch s \<longrightarrow> kh_slot s = None"
    using ok by (auto simp: kh_ok_def kh_flags_ok_def split: if_splits)
  show ?thesis
  proof (intro conjI allI impI)
    fix v w t u
    assume "kh_threads s v = Some t \<and> kh_threads s w = Some u \<and> kh_pc t \<noteq> Kh_done \<and> kh_pc u \<noteq> Kh_done"
    then show "v = w" using thread [of v t] thread [of w u] flags by auto
  next
    fix w t assume "kh_threads s w = Some t"
    then show "beacons t * positive_interval (keylessHeartbeatIntervalMs g) \<le> kh_clock s - kh_began t"
      using thread [of w t] by (auto simp: kh_pace_def)
  next
    fix w t es s' assume "kh_threads s w = Some t \<and> kh_pc t = Kh_beacon \<and> kh_run g s es = Some s'"
    then show "\<exists>t'. kh_threads s' w = Some t' \<and> beacons t \<le> beacons t'
        \<and> kh_clock s + (beacons t' - beacons t) * positive_interval (keylessHeartbeatIntervalMs g) \<le> kh_clock s'"
      using beacons_are_spaced [OF assms] by blast
  next
    fix w t assume "kh_latch s" "kh_threads s w = Some t \<and> kh_pc t \<noteq> Kh_done"
    then show "kh_victim s = Some w" using thread [of w t] flags by auto
  qed (use kh_disabled [OF assms] kh_latched_next [OF _ ok] kh_latched_runs [OF ok] in blast)+
qed

definition kh_scan :: kh_state where
  "kh_scan = \<lparr>kh_stop_flag = True, kh_latch = True, kh_slot = None, kh_victim = Some 0,
     kh_threads = [0 \<mapsto> \<lparr>kh_pc = Kh_wait 21600000, kh_began = 0, beacons = 0\<rparr>], kh_spawned = 1, kh_clock = 5000\<rparr>"

lemma kh_scan_reached: "kh_run default_config kh_init [K_start True, K_run 0, K_time 5000, K_stop] = Some kh_scan"
  by (simp add: kh_init_def kh_scan_def kh_start_def kh_stop_def kh_loop_def default_config_def positive_interval_def)

text \<open>A plugin scan: five seconds of life, and the destructor begins.\<close>

theorem heartbeat_lifetime_witness:
  "\<exists>s' t'. kh_next default_config kh_scan (K_run 0) = Some s' \<and> kh_threads s' 0 = Some t'
    \<and> kh_steps_left (kh_pc t') = 0 \<and> kh_same_beacons kh_scan s'"
proof -
  let ?t = "\<lparr>kh_pc = Kh_wait 21600000, kh_began = 0, beacons = 0\<rparr>"
  have "kh_latch kh_scan" "kh_threads kh_scan 0 = Some ?t \<and> kh_pc ?t \<noteq> Kh_done"
    by (simp_all add: kh_scan_def)
  with heartbeat_lifetime [OF kh_run_reachable [OF kh_scan_reached kh_begin]] obtain s' t' where
    "kh_next default_config kh_scan (K_run 0) = Some s'" "kh_threads s' 0 = Some t'"
    "Suc (kh_steps_left (kh_pc t')) = kh_steps_left (kh_pc ?t)" "kh_same_beacons kh_scan s'" by blast
  then show ?thesis by auto
qed

end
