(* ===== verification/Notify.thy ===== *)
theory Notify
  imports Client_Channel "HOL-Library.Sublist"
begin

text \<open>
  \<open>notify_\<close> of \<open>client.hpp\<close> under threads that overlap. Each section under \<open>notify_mutex_\<close> or
  \<open>listeners_mutex_\<close> is one step; between them, and during every callback, other threads run and a
  callback may itself come back into \<open>notify_\<close>. A thread is a stack of the calls of \<open>notify_\<close> it is in
  that hold (or believe they hold) the delivery baton. The shared fields are those of the client record,
  so the sequential \<open>notify\<close> of \<open>Client_Events\<close> can be compared with a run of these steps.

  \<open>queued\<close> and \<open>taken\<close> record the events pushed and popped so far, \<open>lost\<close> that an allocation failed after
  a pop; no step reads them.
\<close>

section \<open>The sections\<close>

definition notify_section :: "'w env \<Rightarrow> 'w client \<Rightarrow> bool \<times> 'w client" where
  "notify_section E c =
     (let reported = client_state E c
      in if last_reported c = reported then (False, c)
         else (let c1 = c\<lparr>pending := pending c @ [reported], last_reported := reported\<rparr>
               in if delivering c1 then (False, c1) else (True, c1\<lparr>delivering := True\<rparr>)))"

definition take_event :: "'w client \<Rightarrow> State option \<times> 'w client" where
  "take_event c =
     (case pending c of
        [] \<Rightarrow> (None, c\<lparr>delivering := False\<rparr>)
      | ev # evs \<Rightarrow> (Some ev, c\<lparr>pending := evs\<rparr>))"

definition baton_guard :: "'w client \<Rightarrow> 'w client" where
  "baton_guard c = c\<lparr>delivering := False\<rparr>"

section \<open>Steps\<close>

datatype frame =
    Draining \<comment> \<open>at the head of the loop\<close>
  | Fetched State \<comment> \<open>an event popped, the callbacks not copied yet\<close>
  | Telling State "nat list" \<comment> \<open>between callbacks\<close>
  | Calling State "nat list" \<comment> \<open>inside a callback, with those still to come\<close>

record 'w channel_state =
  cl :: "'w client"
  frames :: "nat \<Rightarrow> frame list"
  queued :: "State list"
  taken :: "State list"
  lost :: bool

datatype 'w chan_event =
    Notify nat | Take nat | Copy nat | Copy_fails nat | Call nat | Return nat | Change "'w client"

text \<open>Where a thread may call \<open>notify_\<close>: outside every call, or from within a callback.\<close>

fun can_notify :: "frame list \<Rightarrow> bool" where
  "can_notify [] = True"
| "can_notify (Calling ev ls # fs) = True"
| "can_notify _ = False"

text \<open>What else may happen to the client: anything that leaves the queue alone, while listener \<open>i\<close>
  stays subscribed.\<close>

definition other_change :: "nat \<Rightarrow> 'w client \<Rightarrow> 'w client \<Rightarrow> bool" where
  "other_change i c c' \<longleftrightarrow> pending c' = pending c \<and> delivering c' = delivering c
     \<and> last_reported c' = last_reported c \<and> told i c' = told i c \<and> distinct (listeners c') \<and> i \<in> set (listeners c')"

definition with_top :: "nat \<Rightarrow> frame list \<Rightarrow> 'w client \<Rightarrow> 'w channel_state \<Rightarrow> 'w channel_state" where
  "with_top t fs c s = s\<lparr>cl := c, frames := (frames s)(t := fs)\<rparr>"

fun chan_next :: "'w env \<Rightarrow> nat \<Rightarrow> 'w channel_state \<Rightarrow> 'w chan_event \<Rightarrow> 'w channel_state option" where
  "chan_next E i s (Notify t) =
     (if can_notify (frames s t)
      then (let (baton, c) = notify_section E (cl s);
                new = (if last_reported (cl s) = client_state E (cl s) then [] else [client_state E (cl s)])
            in Some (with_top t (if baton then Draining # frames s t else frames s t) c
                      (s\<lparr>queued := queued s @ new\<rparr>)))
      else None)"
| "chan_next E i s (Take t) =
     (case frames s t of
        Draining # fs \<Rightarrow>
          (case take_event (cl s) of
             (None, c) \<Rightarrow> Some (with_top t fs c s)
           | (Some ev, c) \<Rightarrow> Some (with_top t (Fetched ev # fs) c (s\<lparr>taken := taken s @ [ev]\<rparr>)))
      | _ \<Rightarrow> None)"
| "chan_next E i s (Copy t) =
     (case frames s t of
        Fetched ev # fs \<Rightarrow> Some (with_top t (Telling ev (listeners (cl s)) # fs) (cl s) s)
      | _ \<Rightarrow> None)"
| "chan_next E i s (Copy_fails t) =
     (case frames s t of
        Fetched ev # fs \<Rightarrow> Some (with_top t fs (baton_guard (cl s)) (s\<lparr>lost := True\<rparr>))
      | _ \<Rightarrow> None)"
| "chan_next E i s (Call t) =
     (case frames s t of
        Telling ev (l # ls) # fs \<Rightarrow>
          Some (with_top t (Calling ev ls # fs) ((cl s)\<lparr>delivered := delivered (cl s) @ [Told l ev]\<rparr>) s)
      | Telling ev [] # fs \<Rightarrow> Some (with_top t (Draining # fs) (cl s) s)
      | _ \<Rightarrow> None)"
| "chan_next E i s (Return t) =
     (case frames s t of
        Calling ev ls # fs \<Rightarrow> Some (with_top t (Telling ev ls # fs) (cl s) s)
      | _ \<Rightarrow> None)"
| "chan_next E i s (Change c) = (if other_change i (cl s) c then Some (s\<lparr>cl := c\<rparr>) else None)"

definition chan_start :: "'w client \<Rightarrow> 'w channel_state" where
  "chan_start c = \<lparr>cl = c, frames = (\<lambda>t. []), queued = [], taken = [], lost = False\<rparr>"

inductive chan_reachable :: "'w env \<Rightarrow> nat \<Rightarrow> 'w client \<Rightarrow> 'w channel_state \<Rightarrow> bool"
  for E :: "'w env" and i :: nat and c :: "'w client" where
  chan_begin: "quiet c \<Longrightarrow> distinct (listeners c) \<Longrightarrow> i \<in> set (listeners c) \<Longrightarrow> chan_reachable E i c (chan_start c)"
| chan_more: "chan_reachable E i c s \<Longrightarrow> chan_next E i s e = Some s' \<Longrightarrow> chan_reachable E i c s'"

fun chan_run :: "'w env \<Rightarrow> nat \<Rightarrow> 'w channel_state \<Rightarrow> 'w chan_event list \<Rightarrow> 'w channel_state option" where
  "chan_run E i s [] = Some s"
| "chan_run E i s (e # es) = (case chan_next E i s e of None \<Rightarrow> None | Some s' \<Rightarrow> chan_run E i s' es)"

section \<open>Invariant\<close>

text \<open>What the holder of the baton still owes listener \<open>i\<close> of the event it is at.\<close>

fun owes :: "nat \<Rightarrow> frame \<Rightarrow> State list" where
  "owes i Draining = []"
| "owes i (Fetched ev) = [ev]"
| "owes i (Telling ev ls) = (if i \<in> set ls then [ev] else [])"
| "owes i (Calling ev ls) = (if i \<in> set ls then [ev] else [])"

fun to_tell :: "frame \<Rightarrow> nat list" where
  "to_tell (Telling ev ls) = ls"
| "to_tell (Calling ev ls) = ls"
| "to_tell _ = []"

definition one_holder :: "'w channel_state \<Rightarrow> nat \<Rightarrow> frame \<Rightarrow> bool" where
  "one_holder s t f \<longleftrightarrow> delivering (cl s) \<and> frames s = (\<lambda>u. [])(t := [f]) \<and> distinct (to_tell f)"

definition nobody :: "'w channel_state \<Rightarrow> bool" where
  "nobody s \<longleftrightarrow> \<not> delivering (cl s) \<and> frames s = (\<lambda>u. [])"

definition hears :: "nat \<Rightarrow> 'w client \<Rightarrow> 'w channel_state \<Rightarrow> State list \<Rightarrow> bool" where
  "hears i c s x \<longleftrightarrow> subseq (told i (cl s) @ x) (told i c @ taken s)
     \<and> (\<not> lost s \<longrightarrow> told i (cl s) @ x = told i c @ taken s)"

definition queue_ok :: "nat \<Rightarrow> 'w client \<Rightarrow> 'w channel_state \<Rightarrow> bool" where
  "queue_ok i c s \<longleftrightarrow> queued s = taken s @ pending (cl s)
     \<and> distinct_adj (last_reported c # queued s) \<and> last (last_reported c # queued s) = last_reported (cl s)
     \<and> distinct (listeners (cl s)) \<and> i \<in> set (listeners (cl s))"

definition baton_ok :: "nat \<Rightarrow> 'w client \<Rightarrow> 'w channel_state \<Rightarrow> bool" where
  "baton_ok i c s \<longleftrightarrow>
     (nobody s \<and> hears i c s [] \<and> (\<not> lost s \<longrightarrow> pending (cl s) = []))
     \<or> (\<exists>t f. one_holder s t f \<and> hears i c s (owes i f))"

lemma chan_ok_cases [consumes 1, case_names idle busy]:
  assumes "baton_ok i c s"
  obtains "nobody s" "hears i c s []" "\<not> lost s \<longrightarrow> pending (cl s) = []"
  | t f where "one_holder s t f" "hears i c s (owes i f)"
  using assms by (auto simp: baton_ok_def)

lemma told_simps [simp]:
  "told i (c\<lparr>pending := p\<rparr>) = told i c" "told i (c\<lparr>delivering := b\<rparr>) = told i c"
  "told i (c\<lparr>last_reported := r\<rparr>) = told i c"
  "told i (c\<lparr>delivered := delivered c @ [Told l ev]\<rparr>) = told i c @ (if l = i then [ev] else [])"
  by (simp_all add: told_def List.map_filter_def)

lemma notify_section_told [simp]: "told i (snd (notify_section E c)) = told i c"
  by (simp add: notify_section_def Let_def)

lemma no_frames [simp]: "(\<lambda>u. [])(t := []) = (\<lambda>u. [])"
  by (simp add: fun_eq_iff)

lemma holder_frames: "one_holder s t f \<Longrightarrow> frames s u = (if u = t then [f] else [])"
  by (simp add: one_holder_def)

lemma queue_ok_next:
  assumes "chan_next E i s e = Some s'" "queue_ok i c s"
  shows "queue_ok i c s'"
proof (cases e)
  case (Notify t)
  let ?r = "client_state E (cl s)"
  show ?thesis
  proof (cases "last_reported (cl s) = ?r")
    case True
    then have s': "queued s' = queued s" "taken s' = taken s" "cl s' = cl s"
      using assms(1) Notify by (auto simp: notify_section_def with_top_def split: if_splits)
    show ?thesis using assms(2) unfolding queue_ok_def s' .
  next
    case False
    then have s': "queued s' = queued s @ [?r]" "taken s' = taken s" "pending (cl s') = pending (cl s) @ [?r]"
        "last_reported (cl s') = ?r" "listeners (cl s') = listeners (cl s)"
      using assms(1) Notify by (auto simp: notify_section_def with_top_def Let_def split: if_splits)
    have "distinct_adj ((last_reported c # queued s) @ [?r])"
      by (subst distinct_adj_append_iff) (use assms(2) False in \<open>auto simp: queue_ok_def\<close>)
    then show ?thesis using assms(2) by (simp add: queue_ok_def s')
  qed
next
  case (Take t)
  then show ?thesis using assms
    by (auto simp: queue_ok_def take_event_def with_top_def split: list.splits frame.splits)
next
  case (Change c')
  then show ?thesis using assms by (auto simp: queue_ok_def other_change_def split: if_splits)
qed (use assms in \<open>auto simp: queue_ok_def with_top_def baton_guard_def split: list.splits frame.splits\<close>)

lemma baton_ok_notify:
  assumes step: "chan_next E i s (Notify t) = Some s'" and ok: "baton_ok i c s"
  shows "baton_ok i c s'"
proof -
  have s': "lost s' = lost s" "taken s' = taken s" "told i (cl s') = told i (cl s)"
      "cl s' = snd (notify_section E (cl s))"
      "frames s' = (frames s)(t := (if fst (notify_section E (cl s)) then Draining # frames s t else frames s t))"
    using step notify_section_told [of i E "cl s"]
    by (auto simp: with_top_def simp del: notify_section_told split: if_splits prod.splits)
  have hears: "hears i c s' x \<longleftrightarrow> hears i c s x" for x by (simp add: hears_def s')
  from ok show ?thesis
  proof (cases rule: chan_ok_cases)
    case idle
    show ?thesis
    proof (cases "last_reported (cl s) = client_state E (cl s)")
      case True
      then have "cl s' = cl s" "frames s' = frames s" by (simp_all add: s' notify_section_def)
      with idle have "nobody s' \<and> hears i c s' [] \<and> (\<not> lost s' \<longrightarrow> pending (cl s') = [])"
        unfolding hears by (simp add: nobody_def s')
      then show ?thesis by (simp add: baton_ok_def)
    next
      case False
      then have "one_holder s' t Draining" using idle(1)
        by (simp add: one_holder_def nobody_def s' notify_section_def Let_def)
      moreover have "hears i c s' (owes i Draining)" using idle(2) by (simp add: hears)
      ultimately show ?thesis unfolding baton_ok_def by blast
    qed
  next
    case (busy u f)
    then have "fst (notify_section E (cl s)) = False" "delivering (cl s')"
      by (auto simp: one_holder_def s' notify_section_def Let_def)
    moreover from this have "frames s' = frames s" by (simp add: s')
    ultimately have "one_holder s' u f" using busy(1) by (simp add: one_holder_def)
    then show ?thesis using busy(2) unfolding baton_ok_def hears by blast
  qed
qed

lemma baton_ok_change:
  assumes step: "chan_next E i s (Change d) = Some s'" and ok: "baton_ok i c s"
  shows "baton_ok i c s'"
proof -
  have s': "frames s' = frames s" "lost s' = lost s" "taken s' = taken s" "told i (cl s') = told i (cl s)"
      "pending (cl s') = pending (cl s)" "delivering (cl s') = delivering (cl s)"
    using step by (auto simp: other_change_def split: if_splits)
  show ?thesis using ok unfolding baton_ok_def hears_def nobody_def one_holder_def s' .
qed

text \<open>A step of the thread that holds the baton.\<close>

lemma holder_step:
  assumes h: "one_holder s t f" "hears i c s (owes i f)" and q: "queue_ok i c s"
    and e: "e = Take t \<or> e = Copy t \<or> e = Copy_fails t \<or> e = Call t \<or> e = Return t"
    and step: "chan_next E i s e = Some s'"
  shows "baton_ok i c s'"
proof (cases f)
  case Draining
  have fr: "frames s t = [Draining]" using h(1) Draining by (simp add: holder_frames)
  with e step have e: "e = Take t" by auto
  show ?thesis
  proof (cases "pending (cl s)")
    case Nil
    with step e fr have s': "s' = with_top t [] ((cl s)\<lparr>delivering := False\<rparr>) s" by (simp add: take_event_def)
    have "nobody s'" using h(1) by (simp add: s' nobody_def with_top_def one_holder_def)
    moreover have "hears i c s' []" using h(2) Draining by (simp add: s' hears_def with_top_def)
    moreover have "pending (cl s') = []" using Nil by (simp add: s' with_top_def)
    ultimately show ?thesis by (simp add: baton_ok_def)
  next
    case (Cons ev evs)
    with step e fr have s': "s' = with_top t [Fetched ev] ((cl s)\<lparr>pending := evs\<rparr>) (s\<lparr>taken := taken s @ [ev]\<rparr>)"
      by (simp add: take_event_def)
    have "one_holder s' t (Fetched ev)" using h(1) by (simp add: s' one_holder_def with_top_def)
    moreover have "subseq (told i (cl s) @ [ev]) ((told i c @ taken s) @ [ev])"
      using h(2) Draining by (subst subseq_append) (simp add: hears_def)
    then have "hears i c s' (owes i (Fetched ev))"
      using h(2) Draining by (simp add: s' hears_def with_top_def)
    ultimately show ?thesis unfolding baton_ok_def by blast
  qed
next
  case (Fetched ev)
  have fr: "frames s t = [Fetched ev]" using h(1) Fetched by (simp add: holder_frames)
  with e step consider "e = Copy t" | "e = Copy_fails t" by auto
  then show ?thesis
  proof cases
    case 1
    with step fr have s': "s' = with_top t [Telling ev (listeners (cl s))] (cl s) s" by simp
    have "one_holder s' t (Telling ev (listeners (cl s)))"
      using h(1) q by (simp add: s' one_holder_def with_top_def queue_ok_def)
    moreover have "hears i c s' (owes i (Telling ev (listeners (cl s))))"
      using h(2) q Fetched by (simp add: s' hears_def with_top_def queue_ok_def)
    ultimately show ?thesis unfolding baton_ok_def by blast
  next
    case 2
    with step fr have s': "s' = with_top t [] (baton_guard (cl s)) (s\<lparr>lost := True\<rparr>)" by simp
    have "subseq (told i (cl s)) (told i (cl s) @ [ev])" by (rule prefix_imp_subseq) simp
    then have "hears i c s' []"
      using h(2) Fetched by (auto simp: s' hears_def with_top_def baton_guard_def intro: subseq_order.trans)
    moreover have "nobody s'" using h(1) by (simp add: s' nobody_def with_top_def one_holder_def baton_guard_def)
    moreover have "lost s'" by (simp add: s' with_top_def)
    ultimately show ?thesis by (simp add: baton_ok_def)
  qed
next
  case (Telling ev ls)
  have fr: "frames s t = [Telling ev ls]" using h(1) Telling by (simp add: holder_frames)
  with e step have e: "e = Call t" by auto
  show ?thesis
  proof (cases ls)
    case Nil
    with step e fr have s': "s' = with_top t [Draining] (cl s) s" by simp
    have "one_holder s' t Draining" using h(1) by (simp add: s' one_holder_def with_top_def)
    moreover have "hears i c s' (owes i Draining)"
      using h(2) Telling Nil by (simp add: s' hears_def with_top_def)
    ultimately show ?thesis unfolding baton_ok_def by blast
  next
    case (Cons l ls')
    with step e fr have s': "s' = with_top t [Calling ev ls'] ((cl s)\<lparr>delivered := delivered (cl s) @ [Told l ev]\<rparr>) s"
      by simp
    have d: "distinct (l # ls')" using h(1) Telling Cons by (simp add: one_holder_def)
    then have "one_holder s' t (Calling ev ls')" using h(1) by (simp add: s' one_holder_def with_top_def)
    moreover have "hears i c s' (owes i (Calling ev ls'))"
      using h(2) Telling Cons d by (auto simp: s' hears_def with_top_def)
    ultimately show ?thesis unfolding baton_ok_def by blast
  qed
next
  case (Calling ev ls)
  have fr: "frames s t = [Calling ev ls]" using h(1) Calling by (simp add: holder_frames)
  with e step have "e = Return t" by auto
  with step fr have s': "s' = with_top t [Telling ev ls] (cl s) s" by simp
  have "one_holder s' t (Telling ev ls)" using h(1) Calling by (simp add: s' one_holder_def with_top_def)
  moreover have "hears i c s' (owes i (Telling ev ls))"
    using h(2) Calling by (simp add: s' hears_def with_top_def)
  ultimately show ?thesis unfolding baton_ok_def by blast
qed

text \<open>A thread without a frame can only notify.\<close>

lemma frame_step:
  assumes "chan_next E i s e = Some s'" "e = Take t \<or> e = Copy t \<or> e = Copy_fails t \<or> e = Call t \<or> e = Return t"
  shows "frames s t \<noteq> []"
  using assms by auto

lemma baton_ok_next:
  assumes step: "chan_next E i s e = Some s'" and ok: "baton_ok i c s" and q: "queue_ok i c s"
  shows "baton_ok i c s'"
proof -
  have top: "baton_ok i c s'" if e: "e = Take t \<or> e = Copy t \<or> e = Copy_fails t \<or> e = Call t \<or> e = Return t" for t
  proof -
    have "frames s t \<noteq> []" by (rule frame_step [OF step e])
    with ok obtain f where "one_holder s t f" "hears i c s (owes i f)"
      by (cases rule: chan_ok_cases) (auto simp: nobody_def holder_frames split: if_splits)
    from holder_step [OF this q e step] show ?thesis .
  qed
  show ?thesis
  proof (cases e)
    case (Notify t)
    then show ?thesis using baton_ok_notify step ok by blast
  next
    case (Change d)
    then show ?thesis using baton_ok_change step ok by blast
  qed (use top in blast)+
qed

lemma chan_reachable_ok: "chan_reachable E i c s \<Longrightarrow> queue_ok i c s \<and> baton_ok i c s"
proof (induction rule: chan_reachable.induct)
  case chan_begin
  then show ?case
    by (simp add: queue_ok_def baton_ok_def nobody_def hears_def quiet_def chan_start_def)
next
  case (chan_more s e s')
  then show ?case using queue_ok_next baton_ok_next by blast
qed

section \<open>What every interleaving keeps\<close>

lemma idle_frames:
  assumes "baton_ok i c s" "frames s = (\<lambda>u. [])"
  shows "nobody s \<and> hears i c s [] \<and> (\<not> lost s \<longrightarrow> pending (cl s) = [])"
  using assms(1)
proof (cases rule: chan_ok_cases)
  case (busy t f)
  then show ?thesis using holder_frames [OF busy(1), of t] assms(2) by simp
qed simp

lemma hears_some: "baton_ok i c s \<Longrightarrow> \<exists>x. hears i c s x"
  by (auto simp: baton_ok_def)

text \<open>
  C27. The event channel under any interleaving of notifying threads, callbacks that notify again, and
  listeners that come and go: one thread delivers at a time, and a re-entrant or concurrent notifier only
  queues; the events queued are exactly the changes of the reported state, in order; and a listener that
  stays subscribed is told a subsequence of them in that order, without a gap unless an allocation failed.
  When no thread is in the channel nothing is left queued, so what it was told last is what \<open>state()\<close> said
  at the last change.
\<close>
theorem events_in_order:
  assumes "chan_reachable E i c s"
  shows "(\<forall>t u. frames s t \<noteq> [] \<and> frames s u \<noteq> [] \<longrightarrow> t = u) \<and> (\<forall>t. length (frames s t) \<le> 1)
    \<and> distinct_adj (last_reported c # queued s) \<and> last (last_reported c # queued s) = last_reported (cl s)
    \<and> subseq (told i (cl s)) (told i c @ queued s)
    \<and> (\<not> lost s \<longrightarrow> prefix (told i (cl s)) (told i c @ queued s))
    \<and> (\<not> lost s \<and> frames s = (\<lambda>u. []) \<longrightarrow> pending (cl s) = [] \<and> told i (cl s) = told i c @ queued s)"
proof -
  have q: "queue_ok i c s" and b: "baton_ok i c s" using chan_reachable_ok [OF assms] by auto
  have queue: "queued s = taken s @ pending (cl s)" using q by (simp add: queue_ok_def)
  have one: "length (frames s t) \<le> 1" "frames s t \<noteq> [] \<and> frames s u \<noteq> [] \<longrightarrow> t = u" for t u
    using b by (cases rule: chan_ok_cases; simp add: nobody_def one_holder_def)+
  obtain x where x: "hears i c s x" using hears_some [OF b] ..
  have "subseq (told i (cl s)) (told i (cl s) @ x)" "subseq (told i c @ taken s) (told i c @ queued s)"
    by (simp_all add: queue prefix_imp_subseq)
  then have sub: "subseq (told i (cl s)) (told i c @ queued s)"
    using x unfolding hears_def by (meson subseq_order.trans)
  have pre: "prefix (told i (cl s)) (told i c @ queued s)" if "\<not> lost s"
  proof -
    have "told i c @ queued s = told i (cl s) @ x @ pending (cl s)" using x that by (simp add: hears_def queue)
    then show ?thesis by simp
  qed
  have idle: "pending (cl s) = [] \<and> told i (cl s) = told i c @ queued s" if "\<not> lost s" "frames s = (\<lambda>u. [])"
    using idle_frames [OF b that(2)] that(1) by (simp add: hears_def queue)
  show ?thesis using one sub pre idle q unfolding queue_ok_def by blast
qed

section \<open>The holder gets through\<close>

lemma chan_run_append:
  "chan_run E i s (es @ fs) = (case chan_run E i s es of None \<Rightarrow> None | Some s' \<Rightarrow> chan_run E i s' fs)"
  by (induction es arbitrary: s) (simp_all split: option.split)

lemma chan_run_reachable: "chan_run E i s es = Some s' \<Longrightarrow> chan_reachable E i c s \<Longrightarrow> chan_reachable E i c s'"
  by (induction es arbitrary: s) (auto intro: chan_more split: option.splits)

lemma with_top_again [simp]: "with_top t fs c (with_top t gs d s) = with_top t fs c s"
  by (simp add: with_top_def)

lemma with_top_fields [simp]:
  "cl (with_top t fs c s) = c" "frames (with_top t fs c s) t = fs" "taken (with_top t fs c s) = taken s"
  "queued (with_top t fs c s) = queued s" "lost (with_top t fs c s) = lost s"
  by (simp_all add: with_top_def)

text \<open>The steps of one thread other than a failing allocation.\<close>

definition own_steps :: "nat \<Rightarrow> 'w chan_event set" where
  "own_steps t = {Take t, Copy t, Call t, Return t}"

lemma tell_run:
  "frames s t = [Telling ev ls] \<Longrightarrow> \<exists>es. set es \<subseteq> own_steps t \<and> chan_run E i s es =
     Some (with_top t [Draining] ((cl s)\<lparr>delivered := delivered (cl s) @ map (\<lambda>l. Told l ev) ls\<rparr>) s)"
proof (induction ls arbitrary: s)
  case Nil
  then show ?case by (intro exI [of _ "[Call t]"]) (simp add: own_steps_def)
next
  case (Cons l ls)
  let ?s = "with_top t [Telling ev ls] ((cl s)\<lparr>delivered := delivered (cl s) @ [Told l ev]\<rparr>) s"
  obtain es where "set es \<subseteq> own_steps t" "chan_run E i ?s es =
      Some (with_top t [Draining] ((cl ?s)\<lparr>delivered := delivered (cl ?s) @ map (\<lambda>l. Told l ev) ls\<rparr>) ?s)"
    using Cons.IH [of ?s] by auto
  with Cons.prems show ?case by (intro exI [of _ "Call t # Return t # es"]) (simp add: own_steps_def)
qed

lemma drain_run:
  "frames s t = [Draining] \<Longrightarrow> \<exists>es. set es \<subseteq> own_steps t \<and> chan_run E i s es =
     Some (with_top t [] (deliver_all (pending (cl s)) (cl s)) (s\<lparr>taken := taken s @ pending (cl s)\<rparr>))"
proof (induction "pending (cl s)" arbitrary: s)
  case Nil
  then show ?case by (intro exI [of _ "[Take t]"]) (simp add: own_steps_def take_event_def with_top_def)
next
  case (Cons ev evs)
  let ?c = "(cl s)\<lparr>pending := evs\<rparr>"
  let ?s1 = "with_top t [Telling ev (listeners (cl s))] ?c (s\<lparr>taken := taken s @ [ev]\<rparr>)"
  obtain es where es: "set es \<subseteq> own_steps t" "chan_run E i ?s1 es = Some (with_top t [Draining]
      (?c\<lparr>delivered := delivered ?c @ map (\<lambda>l. Told l ev) (listeners ?c)\<rparr>) (s\<lparr>taken := taken s @ [ev]\<rparr>))"
    (is "_ = Some ?s2") using tell_run [of ?s1 t ev "listeners (cl s)" E i] by auto
  have "evs = pending (cl ?s2)" "frames ?s2 t = [Draining]" by simp_all
  from Cons.hyps(1) [OF this] obtain fs where fs: "set fs \<subseteq> own_steps t"
    "chan_run E i ?s2 fs = Some (with_top t [] (deliver_all evs (cl ?s2)) (?s2\<lparr>taken := taken ?s2 @ evs\<rparr>))" by auto
  have "chan_run E i s (Take t # Copy t # es @ fs) = chan_run E i ?s2 fs"
    using Cons.prems Cons.hyps(2) [symmetric] es by (simp add: chan_run_append take_event_def)
  moreover have "with_top t [] (deliver_all evs (cl ?s2)) (?s2\<lparr>taken := taken ?s2 @ evs\<rparr>)
      = with_top t [] (deliver_all (pending (cl s)) (cl s)) (s\<lparr>taken := taken s @ pending (cl s)\<rparr>)"
    using Cons.hyps(2) [symmetric] by (simp add: with_top_def)
  ultimately show ?case
    using es(1) fs by (intro exI [of _ "Take t # Copy t # es @ fs"]) (simp add: own_steps_def)
qed

lemma to_head_run:
  assumes "frames s t = [f]"
  shows "\<exists>es d. set es \<subseteq> own_steps t \<and> chan_run E i s es = Some (with_top t [Draining] ((cl s)\<lparr>delivered := d\<rparr>) s)"
proof -
  have tell: ?thesis if "chan_run E i s es = Some (with_top t [Telling ev ls] (cl s) s)" "set es \<subseteq> own_steps t" for es ev ls
  proof -
    obtain fs where "set fs \<subseteq> own_steps t" "chan_run E i (with_top t [Telling ev ls] (cl s) s) fs =
        Some (with_top t [Draining] ((cl s)\<lparr>delivered := delivered (cl s) @ map (\<lambda>l. Told l ev) ls\<rparr>) s)"
      using tell_run [of "with_top t [Telling ev ls] (cl s) s" t ev ls E i] by auto
    with that show ?thesis by (intro exI [of _ "es @ fs"]) (auto simp: chan_run_append)
  qed
  show ?thesis
  proof (cases f)
    case Draining
    with assms show ?thesis
      by (intro exI [of _ "[]"] exI [of _ "delivered (cl s)"]) (simp add: with_top_def fun_upd_idem)
  next
    case (Fetched ev)
    with assms show ?thesis by (intro tell [of "[Copy t]"]) (simp_all add: own_steps_def)
  next
    case (Telling ev ls)
    with assms show ?thesis by (intro tell [of "[]" ev ls]) (simp_all add: with_top_def fun_upd_idem)
  next
    case (Calling ev ls)
    with assms show ?thesis by (intro tell [of "[Return t]"]) (simp_all add: own_steps_def)
  qed
qed

text \<open>The sequential \<open>notify\<close> is a run of these steps by one thread alone.\<close>

theorem notify_refines:
  assumes "quiet (cl s)" "frames s = (\<lambda>u. [])"
  shows "\<exists>es s'. set es \<subseteq> own_steps t \<and> chan_run E i s (Notify t # es) = Some s'
    \<and> cl s' = snd (run_state (notify E) (cl s)) \<and> frames s' = frames s"
proof (cases "last_reported (cl s) = client_state E (cl s)")
  case True
  then show ?thesis using assms
    by (intro exI [of _ "[]"]) (simp add: notify_section_def notify_def with_top_def)
next
  case False
  let ?r = "client_state E (cl s)"
  let ?c = "(cl s)\<lparr>pending := [?r], last_reported := ?r, delivering := True\<rparr>"
  let ?s = "with_top t [Draining] ?c (s\<lparr>queued := queued s @ [?r]\<rparr>)"
  have step: "chan_next E i s (Notify t) = Some ?s"
    using False assms by (simp add: notify_section_def quiet_def Let_def)
  obtain es where es: "set es \<subseteq> own_steps t" "chan_run E i ?s es =
      Some (with_top t [] (deliver_all [?r] ?c) (?s\<lparr>taken := taken ?s @ [?r]\<rparr>))"
    using drain_run [of ?s t E i] by auto
  have "cl (with_top t [] (deliver_all [?r] ?c) (?s\<lparr>taken := taken ?s @ [?r]\<rparr>)) = snd (run_state (notify E) (cl s))"
    using False assms(1) by (simp add: run_notify quiet_def deliver_all_eq)
  moreover have "frames (with_top t [] (deliver_all [?r] ?c) (?s\<lparr>taken := taken ?s @ [?r]\<rparr>)) = frames s"
    using assms(2) by (simp add: with_top_def)
  ultimately show ?thesis using step es by (intro exI [of _ es]) (simp del: chan_next.simps)
qed

lemma holder_drains:
  assumes "chan_reachable E i c s" "frames s t \<noteq> []"
  shows "\<exists>es s'. set es \<subseteq> own_steps t \<and> chan_run E i s es = Some s' \<and> frames s' = (\<lambda>u. [])
    \<and> queued s' = queued s \<and> lost s' = lost s \<and> last_reported (cl s') = last_reported (cl s)"
proof -
  have "baton_ok i c s" using chan_reachable_ok [OF assms(1)] by simp
  then obtain f where f: "one_holder s t f"
    by (cases rule: chan_ok_cases) (use assms(2) in \<open>auto simp: nobody_def holder_frames split: if_splits\<close>)
  obtain es d where es: "set es \<subseteq> own_steps t"
    "chan_run E i s es = Some (with_top t [Draining] ((cl s)\<lparr>delivered := d\<rparr>) s)" (is "_ = Some ?s1")
    using to_head_run [of s t f E i] f by (auto simp: holder_frames)
  obtain fs where fs: "set fs \<subseteq> own_steps t" "chan_run E i ?s1 fs =
      Some (with_top t [] (deliver_all (pending (cl ?s1)) (cl ?s1)) (?s1\<lparr>taken := taken ?s1 @ pending (cl ?s1)\<rparr>))"
    (is "_ = Some ?s2") using drain_run [of ?s1 t E i] by auto
  have "frames ?s2 = (\<lambda>u. [])" using f by (simp add: with_top_def one_holder_def)
  moreover have "last_reported (cl ?s2) = last_reported (cl s)" by (simp add: deliver_all_eq)
  moreover have "queued ?s2 = queued s" "lost ?s2 = lost s" by (simp_all add: with_top_def)
  moreover have "chan_run E i s (es @ fs) = Some ?s2" using es fs by (simp add: chan_run_append)
  ultimately show ?thesis using es(1) fs(1) by (intro exI [of _ "es @ fs"] exI [of _ ?s2]) auto
qed

text \<open>
  C28. No event is stranded: whatever the interleaving so far (without an allocation failure), if a thread
  holds the baton then that thread, moving alone, comes out of the channel again, and then every event
  queued by anybody has been told to a listener that stayed subscribed, the last being the state last
  reported; a thread that returned early because another held the baton has lost nothing.
\<close>
theorem no_event_is_stranded:
  assumes "chan_reachable E i c s" "\<not> lost s" "frames s t \<noteq> []"
  shows "\<exists>es s'. set es \<subseteq> own_steps t \<and> chan_run E i s es = Some s' \<and> frames s' = (\<lambda>u. [])
    \<and> pending (cl s') = [] \<and> told i (cl s') = told i c @ queued s
    \<and> last (last_reported c # queued s) = last_reported (cl s')"
proof -
  obtain es s' where run: "set es \<subseteq> own_steps t" "chan_run E i s es = Some s'" "frames s' = (\<lambda>u. [])"
    "queued s' = queued s" "lost s' = lost s" "last_reported (cl s') = last_reported (cl s)"
    using holder_drains [OF assms(1,3)] by blast
  have "queue_ok i c s'" "baton_ok i c s'"
    using chan_reachable_ok [OF chan_run_reachable [OF run(2) assms(1)]] by auto
  then have "pending (cl s') = []" "told i (cl s') = told i c @ queued s"
      "last (last_reported c # queued s) = last_reported (cl s')"
    using idle_frames [of i c s'] run(3-5) assms(2) by (auto simp: hears_def queue_ok_def)
  with run show ?thesis by blast
qed

section \<open>A concrete interleaving\<close>

text \<open>Thread 0 is in the callback for \<open>Trial\<close> when the state becomes \<open>Licensed\<close> and thread 1 notifies.\<close>

definition quiet_client :: "tworld client" where
  "quiet_client = (blank_client test_config (test_world 1000 []))\<lparr>listeners := [1], next_listener_id := 1\<rparr>"

definition overtaken :: "tworld channel_state" where
  "overtaken =
     \<lparr>cl = quiet_client\<lparr>raw_state := Licensed, last_reported := Licensed, pending := [Licensed], delivering := True,
        delivered := [Told 1 Trial]\<rparr>,
      frames = (\<lambda>u. [])(0 := [Calling Trial []]), queued = [Trial, Licensed], taken = [Trial], lost = False\<rparr>"

lemma overtaken_run:
  "chan_run scripted 1 (chan_start quiet_client)
     [Change (quiet_client\<lparr>raw_state := Trial\<rparr>), Notify 0, Take 0, Copy 0, Call 0,
      Change (quiet_client\<lparr>raw_state := Licensed, last_reported := Trial, delivering := True,
        delivered := [Told 1 Trial]\<rparr>), Notify 1] = Some overtaken"
  by (simp add: chan_start_def overtaken_def quiet_client_def blank_client_def other_change_def told_def
      notify_section_def take_event_def with_top_def client_state_def clock_untrusted_def Let_def)
    (simp add: fun_eq_iff)

lemma overtaken_reachable: "chan_reachable scripted 1 quiet_client overtaken"
  by (rule chan_run_reachable [OF overtaken_run], rule chan_begin)
    (simp_all add: quiet_def quiet_client_def blank_client_def)

theorem events_in_order_witness:
  "prefix (told 1 (cl overtaken)) (told 1 quiet_client @ [Trial, Licensed])"
  using events_in_order [OF overtaken_reachable] by (simp add: overtaken_def)

theorem no_event_is_stranded_witness:
  "\<exists>es s'. set es \<subseteq> own_steps 0 \<and> chan_run scripted 1 overtaken es = Some s'
    \<and> told 1 (cl s') = told 1 quiet_client @ [Trial, Licensed]"
proof -
  have "\<not> lost overtaken" "frames overtaken 0 \<noteq> []" "queued overtaken = [Trial, Licensed]"
    by (simp_all add: overtaken_def)
  with no_event_is_stranded [OF overtaken_reachable this(1,2)] show ?thesis by auto
qed

end
