(* ===== verification/Host_Adapter.thy ===== *)
theory Host_Adapter
  imports Client_Channel
begin

text \<open>
  What the engine adapters under \<open>integrations/\<close> share: C strings, the iteration order of a
  \<open>std::map\<close>, and which calls leave the subscriptions of the client alone.
\<close>

definition c_str :: "string \<Rightarrow> string" where
  "c_str s = takeWhile (\<lambda>c. c \<noteq> char_of (0 :: nat)) s"

text \<open>The entries of a \<open>std::map\<close> in the order of its iteration.\<close>

definition map_entries :: "(string \<rightharpoonup> string) \<Rightarrow> (string \<times> string) list" where
  "map_entries m = map (\<lambda>k. (k, the (m k))) (sorted_list_of_set (dom m))"

lemma reachable_more: "reachable E g c \<Longrightarrow> api_step E c c' \<Longrightarrow> reachable E g c'"
  unfolding reachable_def by (meson rtranclp.rtrancl_into_rtrancl)

section \<open>Calls that leave the subscriptions alone\<close>

definition same_listeners :: "'w client \<Rightarrow> 'w client \<Rightarrow> bool" where
  "same_listeners c c' \<longleftrightarrow> listeners c' = listeners c"

interpretation subscribed: evolution same_listeners
  by unfold_locales (auto simp: same_listeners_def)

lemma subscribed_notify: "subscribed.keeps (notify E)"
  unfolding notify_def
  by (intro subscribed.keeps_intros subscribed.keeps_modify) (simp_all add: same_listeners_def deliver_all_eq)

lemma subscribed_lifecycle: "subscribed.keeps (notify_lifecycle E ev)"
  unfolding notify_lifecycle_def by (intro subscribed.keeps_modify) (simp add: same_listeners_def)

lemma subscribed_heartbeat: "subscribed.keeps (start_heartbeat E)"
  unfolding start_heartbeat_def
  by (intro subscribed.keeps_intros subscribed.keeps_modify) (simp add: same_listeners_def)

lemma subscribed_set_state: "subscribed.keeps (set_client_state E s)"
  unfolding set_client_state_def
  by (intro subscribed.keeps_Let subscribed.keeps_intros subscribed_notify subscribed_lifecycle
      subscribed_heartbeat subscribed.keeps_modify) (simp_all add: same_listeners_def)

interpretation subscribed: cache_evolution E same_listeners for E
proof unfold_locales
  fix E :: "'a env" and c :: "'a client"
  show "same_listeners c (snd (run_state (notify E) c))" by (rule subscribed.keepsD [OF subscribed_notify])
qed (simp_all add: same_listeners_def)

interpretation subscribed: client_calls E same_listeners for E
proof unfold_locales
  fix E :: "'a env" and c :: "'a client" and s
  show "same_listeners c (snd (run_state (set_client_state E s) c))" by (rule subscribed.keepsD [OF subscribed_set_state])
qed

end
