(* ===== verification/Juce.thy ===== *)
theory Juce
  imports Host_Adapter Client_Restart Store "HOL-Library.Sublist"
begin

text \<open>
  The JUCE adapter (\<open>integrations/juce/KeylightJuce.h\<close>): \<open>JuceUrlTransport::request\<close> and \<open>Licensing\<close>.
  JUCE is a parameter: what a URL string parses to, the stream it opens, the conversion of C strings,
  the application-data directory are the fields of \<open>juce_env\<close>; the message queue of \<open>callAsync\<close> is a
  list of what was posted.

  The subscription callback runs on the thread that drains the client's event queue, in the queue's
  order (\<open>Notify\<close>), at any time after the change: events told to the subscription and not yet handled
  are \<open>ju_inbox\<close>, and \<open>ju_entered\<close> is the one whose callback has passed its check of \<open>alive_\<close>. That thread may
  be one of the application's, which the destructor does not join; the model does not say which it is.
\<close>

section \<open>\<open>JuceUrlTransport\<close>\<close>

record juce_call =
  j_url :: string
  j_post :: "string option"
  j_headers :: string
  j_timeout_ms :: nat
  j_redirects :: nat
  j_method :: string

record 'w juce_env =
  jstring :: "string \<Rightarrow> string" \<comment> \<open>\<open>juce::String\<close> of a C string, as the UTF-8 it stands for\<close>
  url_is_empty :: "string \<Rightarrow> bool"
  open_stream :: "juce_call \<Rightarrow> 'w \<Rightarrow> (int \<times> string) option \<times> 'w" \<comment> \<open>status code and content of the stream\<close>
  app_data :: string
  child_file :: "string \<Rightarrow> string \<Rightarrow> string"

definition extra_headers :: "'w juce_env \<Rightarrow> (string \<rightharpoonup> string) \<Rightarrow> string" where
  "extra_headers J hs =
     concat (map (\<lambda>(k, v). jstring J (c_str k) @ '': '' @ jstring J (c_str v) @ [char_of (13 :: nat), char_of (10 :: nat)])
       (map_entries hs))"

definition juce_request :: "'w juce_env \<Rightarrow> 'w transport" where
  "juce_request J r w =
     (let url = jstring J (c_str (req_url r))
      in if url_is_empty J url then (err EC_Network ''JuceUrlTransport: malformed URL'', w)
         else (case open_stream J
                 \<lparr>j_url = url, j_post = (if req_body r = [] then None else Some (req_body r)),
                  j_headers = extra_headers J (req_headers r), j_timeout_ms = 15000, j_redirects = 5,
                  j_method = jstring J (c_str (req_method r))\<rparr> w of
               (None, w') \<Rightarrow> (err EC_Network ''JuceUrlTransport: createInputStream returned null'', w')
             | (Some (st, content), w') \<Rightarrow> (Inr \<lparr>http_status = st, body = content, headers = Map.empty\<rparr>, w')))"

section \<open>\<open>Licensing\<close>\<close>

datatype job =
    J_activate string | J_validate | J_deactivate | J_checkOnLaunch | J_startTrial
  | J_report KeylessState bool \<comment> \<open>with a callback\<close>

text \<open>What lies in the message queue: a state change, or the answer to a call.\<close>

datatype posted =
    P_state State | P_result nat "State result" | P_void nat "unit result" | P_reported nat

record 'w licensing =
  ju_client :: "'w client"
  ju_sub :: "nat option"
  ju_alive :: bool
  ju_gone :: bool \<comment> \<open>the destructor has ended\<close>
  state_snapshot :: State
  pro_enabled :: bool
  generic_entitlement_enabled :: bool
  ju_worker :: "(nat \<times> job) option" \<comment> \<open>the dispatched thread, while it runs\<close>
  ju_jobs :: nat
  ju_inbox :: "State list"
  ju_entered :: "State option"
  ju_posted :: "posted list"
  ju_shown :: "State list" \<comment> \<open>calls of \<open>onStateChanged\<close>\<close>
  ju_answered :: "nat list" \<comment> \<open>calls whose callback ran\<close>
  ju_dangling :: bool

definition refresh_entitlement_cache :: "'w env \<Rightarrow> 'w licensing \<Rightarrow> 'w licensing" where
  "refresh_entitlement_cache E l = l\<lparr>pro_enabled := hasEntitlement E (ju_client l) ''pro''\<rparr>"

definition licensing_new :: "'w env \<Rightarrow> Config \<Rightarrow> 'w \<Rightarrow> 'w licensing" where
  "licensing_new E g w =
     (let c = new_client E g w;
          l = \<lparr>ju_client = c, ju_sub = None, ju_alive = True, ju_gone = False, state_snapshot = client_state E c,
               pro_enabled = False, generic_entitlement_enabled = False, ju_worker = None, ju_jobs = 0,
               ju_inbox = [], ju_entered = None, ju_posted = [], ju_shown = [], ju_answered = [], ju_dangling = False\<rparr>;
          l1 = refresh_entitlement_cache E l;
          (sub, c1) = run_state subscribe c
      in l1\<lparr>ju_client := c1, ju_sub := sub\<rparr>)"

definition resolve_store_path :: "'w juce_env \<Rightarrow> Config \<Rightarrow> string \<Rightarrow> string" where
  "resolve_store_path J g override_path =
     (if override_path \<noteq> [] then override_path
      else child_file J (child_file J (app_data J) ''Keylight'')
             (jstring J (c_str (tenantId g)) @ ''-'' @ jstring J (c_str (productId g)) @ ''.lease''))"

text \<open>The client has moved on; what the subscription was told meanwhile waits for the callback.\<close>

definition move_client :: "'w client \<Rightarrow> 'w licensing \<Rightarrow> 'w licensing" where
  "move_client c' l =
     l\<lparr>ju_client := c',
       ju_inbox := ju_inbox l @ (case ju_sub l of
           None \<Rightarrow> []
         | Some i \<Rightarrow> drop (length (told i (ju_client l))) (told i c'))\<rparr>"

definition juce_beacon :: "State \<Rightarrow> KeylessState option" where
  "juce_beacon s =
     (case s of
        Trial \<Rightarrow> Some KS_Trial
      | FreeTier \<Rightarrow> Some KS_FreeTier
      | Expired \<Rightarrow> Some KS_Expired
      | Licensed \<Rightarrow> None
      | Invalid \<Rightarrow> None
      | Limited \<Rightarrow> None)"

text \<open>The callback, once past its check of \<open>alive_\<close>.\<close>

definition on_state :: "'w env \<Rightarrow> State \<Rightarrow> 'w licensing \<Rightarrow> 'w licensing" where
  "on_state E newState l =
     (let l1 = refresh_entitlement_cache E (l\<lparr>state_snapshot := newState\<rparr>);
          l2 = (case juce_beacon newState of
                  None \<Rightarrow> l1
                | Some ks \<Rightarrow> move_client (snd (run_state (reportKeylessState E ks) (ju_client l1))) l1)
      in l2\<lparr>ju_posted := ju_posted l2 @ [P_state newState]\<rparr>)"

text \<open>A lambda of the message queue; \<open>onStateChanged\<close> is set.\<close>

definition run_posted :: "posted \<Rightarrow> 'w licensing \<Rightarrow> 'w licensing" where
  "run_posted p l =
     (case p of
        P_state s \<Rightarrow> if \<not> ju_alive l then l else l\<lparr>ju_shown := ju_shown l @ [s]\<rparr>
      | P_result n r \<Rightarrow> l\<lparr>ju_answered := ju_answered l @ [n]\<rparr>
      | P_void n r \<Rightarrow> l\<lparr>ju_answered := ju_answered l @ [n]\<rparr>
      | P_reported n \<Rightarrow> if ju_alive l then l\<lparr>ju_answered := ju_answered l @ [n]\<rparr> else l)"

definition job_body :: "'w env \<Rightarrow> nat \<Rightarrow> job \<Rightarrow> ('w, posted list) act" where
  "job_body E n q =
     (case q of
        J_activate key \<Rightarrow> do { r \<leftarrow> activate E key; State_Monad.return [P_result n r] }
      | J_validate \<Rightarrow> do { r \<leftarrow> validate E; State_Monad.return [P_result n r] }
      | J_deactivate \<Rightarrow> do { r \<leftarrow> deactivate E; State_Monad.return [P_void n r] }
      | J_checkOnLaunch \<Rightarrow> do { r \<leftarrow> checkOnLaunch E; State_Monad.return [P_result n r] }
      | J_startTrial \<Rightarrow> do { r \<leftarrow> startTrial E; State_Monad.return [P_result n r] }
      | J_report ks cb \<Rightarrow> do { u \<leftarrow> reportKeylessState E ks; State_Monad.return (if cb then [P_reported n] else []) })"

definition run_job :: "'w env \<Rightarrow> nat \<Rightarrow> job \<Rightarrow> 'w licensing \<Rightarrow> 'w licensing" where
  "run_job E n q l =
     (let (ps, c') = run_state (job_body E n q) (ju_client l);
          l1 = move_client c' l
      in l1\<lparr>ju_posted := ju_posted l1 @ ps, ju_worker := None\<rparr>)"

definition dispatch_job :: "job \<Rightarrow> 'w licensing \<Rightarrow> 'w licensing" where
  "dispatch_job q l = l\<lparr>ju_worker := Some (ju_jobs l, q), ju_jobs := Suc (ju_jobs l)\<rparr>"

definition hasFeature :: "string \<Rightarrow> 'w licensing \<Rightarrow> bool" where
  "hasFeature feature l = (if feature = ''pro'' then pro_enabled l else generic_entitlement_enabled l)"

text \<open>The first steps of the destructor: the flag, the subscription (and \<open>stopAutoValidation\<close>).\<close>

definition close_licensing :: "'w licensing \<Rightarrow> 'w licensing" where
  "close_licensing l =
     (let l1 = l\<lparr>ju_alive := False\<rparr>
      in l1\<lparr>ju_client := snd (run_state (unsubscribe (ju_sub l1)) (ju_client l1)), ju_sub := None\<rparr>)"

section \<open>Steps\<close>

text \<open>
  \<open>jt_client\<close>: the client moves by itself (auto-validation, the heartbeat, calls through \<open>underlying()\<close>)
  or its world does. A call of the adapter blocks until the dispatched thread is done, so it is a step
  only then; so is the end of the destructor. The subscription belongs to the adapter alone.
\<close>

inductive ju_step :: "'w env \<Rightarrow> 'w licensing \<Rightarrow> 'w licensing \<Rightarrow> bool" for E :: "'w env" where
  jt_client: "\<not> ju_gone l \<Longrightarrow> api_step E (ju_client l) c'
    \<Longrightarrow> (\<forall>i. ju_sub l = Some i \<longrightarrow> i \<in> set (listeners c')) \<Longrightarrow> ju_step E l (move_client c' l)"
| jt_enter: "ju_inbox l = ev # evs \<Longrightarrow> ju_entered l = None \<Longrightarrow> ju_alive l
    \<Longrightarrow> ju_step E l (l\<lparr>ju_inbox := evs, ju_entered := Some ev\<rparr>)"
| jt_drop: "ju_inbox l = ev # evs \<Longrightarrow> \<not> ju_alive l \<Longrightarrow> ju_step E l (l\<lparr>ju_inbox := evs\<rparr>)"
| jt_use: "ju_entered l = Some ev \<Longrightarrow> \<not> ju_gone l \<Longrightarrow> ju_step E l (on_state E ev (l\<lparr>ju_entered := None\<rparr>))"
| jt_use_after_free: "ju_entered l = Some ev \<Longrightarrow> ju_gone l
    \<Longrightarrow> ju_step E l (l\<lparr>ju_entered := None, ju_dangling := True\<rparr>)"
| jt_dispatch: "ju_alive l \<Longrightarrow> ju_worker l = None \<Longrightarrow> ju_step E l (dispatch_job q l)"
| jt_work: "ju_worker l = Some (n, q) \<Longrightarrow> ju_step E l (run_job E n q l)"
| jt_pump: "ju_posted l = p # ps \<Longrightarrow> ju_step E l (run_posted p (l\<lparr>ju_posted := ps\<rparr>))"
| jt_close: "ju_alive l \<Longrightarrow> ju_step E l (close_licensing l)"
| jt_end: "\<not> ju_alive l \<Longrightarrow> ju_worker l = None \<Longrightarrow> ju_step E l (l\<lparr>ju_gone := True\<rparr>)"

inductive ju_reachable :: "'w env \<Rightarrow> Config \<Rightarrow> 'w \<Rightarrow> 'w licensing \<Rightarrow> bool"
  for E :: "'w env" and g :: Config and w :: 'w where
  ju_start: "ju_reachable E g w (licensing_new E g w)"
| ju_more: "ju_reachable E g w l \<Longrightarrow> ju_step E l l' \<Longrightarrow> ju_reachable E g w l'"

section \<open>The snapshot\<close>

definition states_posted :: "posted list \<Rightarrow> State list" where
  "states_posted ps = List.map_filter (\<lambda>p. case p of P_state s \<Rightarrow> Some s | _ \<Rightarrow> None) ps"

lemma states_posted_simps [simp]:
  "states_posted [] = []" "states_posted (P_state s # ps) = s # states_posted ps"
  "states_posted (P_result n r # ps) = states_posted ps" "states_posted (P_void n u # ps) = states_posted ps"
  "states_posted (P_reported n # ps) = states_posted ps" "states_posted (ps @ qs) = states_posted ps @ states_posted qs"
  by (simp_all add: states_posted_def List.map_filter_def)

definition latest :: "State \<Rightarrow> State list \<Rightarrow> State" where
  "latest s0 ss = last (s0 # ss)"

lemma latest_simps [simp]:
  "latest s0 [] = s0" "latest s0 (s # ss) = latest s ss" "latest s0 (ss @ ts) = latest (latest s0 ss) ts"
  by (simp_all add: latest_def)

text \<open>The callbacks that have run, as the message queue and the message thread show them.\<close>

definition handled :: "'w licensing \<Rightarrow> State list" where
  "handled l = ju_shown l @ states_posted (ju_posted l)"

definition on_its_way :: "'w licensing \<Rightarrow> State list" where
  "on_its_way l = (case ju_entered l of None \<Rightarrow> [] | Some ev \<Rightarrow> [ev]) @ ju_inbox l"

definition sub_ok :: "State \<Rightarrow> nat \<Rightarrow> 'w licensing \<Rightarrow> bool" where
  "sub_ok s0 i l \<longleftrightarrow> ju_sub l = Some i
     \<and> i \<in> set (listeners (ju_client l)) \<and> i \<le> next_listener_id (ju_client l) \<and> channel_ok (ju_client l)
     \<and> told i (ju_client l) = handled l @ on_its_way l
     \<and> last_reported (ju_client l) = latest s0 (handled l @ on_its_way l)
     \<and> state_snapshot l = latest s0 (handled l)"

definition juce_ok :: "State \<Rightarrow> 'w licensing \<Rightarrow> bool" where
  "juce_ok s0 l \<longleftrightarrow> (\<exists>i. sub_ok s0 i l)"

lemma sub_ok_cong:
  assumes "sub_ok s0 i l" "ju_sub l' = ju_sub l" "ju_client l' = ju_client l"
    "handled l' @ on_its_way l' = handled l @ on_its_way l" "state_snapshot l' = latest s0 (handled l')"
  shows "sub_ok s0 i l'"
  using assms by (simp only: sub_ok_def)

lemma licensing_new_ok: "juce_ok (last_reported (new_client E g w)) (licensing_new E g w)"
proof -
  let ?c = "new_client E g w" and ?c1 = "snd (run_state subscribe (new_client E g w))"
  have ok: "channel_ok ?c" by (rule channel_new_client)
  then have "channel_ok ?c1" using channel.keepsD [OF channel_new_listener(1), of ?c] by (simp add: channel_step_def)
  moreover have "told (Suc (next_listener_id ?c)) ?c = []" using ok by (simp add: channel_ok_def)
  moreover have "client_state E ?c = last_reported ?c"
    by (simp add: new_client_def split_beta client_state_def clock_untrusted_def)
  ultimately show ?thesis
    by (simp add: juce_ok_def sub_ok_def handled_def on_its_way_def licensing_new_def refresh_entitlement_cache_def
        subscribe_def told_def Let_def)
qed

lemma sub_ok_move:
  assumes ok: "sub_ok s0 i l" and h: "hears_on (ju_client l) c'" and i: "i \<in> set (listeners c')"
  shows "sub_ok s0 i (move_client c' l)"
proof -
  have sub: "channel_ok (ju_client l)" "i \<le> next_listener_id (ju_client l)"
    using ok by (simp_all add: sub_ok_def)
  from hears_onD [OF h sub(1)] obtain new where on: "channel_ok c'" "next_listener_id (ju_client l) \<le> next_listener_id c'"
      "last_reported c' = last (last_reported (ju_client l) # new)"
      "\<forall>i \<le> next_listener_id (ju_client l). i \<in> set (listeners c')
        \<longrightarrow> i \<in> set (listeners (ju_client l)) \<and> told i c' = told i (ju_client l) @ new" by blast
  then have new: "told i c' = told i (ju_client l) @ new" "last_reported c' = latest (last_reported (ju_client l)) new"
    using sub(2) i by (simp_all add: latest_def)
  have "i \<le> next_listener_id c'" using sub(2) on(2) by simp
  note on = on(1) this
  have "handled (move_client c' l) = handled l" "on_its_way (move_client c' l) = on_its_way l @ new"
    using ok new(1) by (simp_all add: handled_def on_its_way_def move_client_def sub_ok_def)
  then show ?thesis
    using ok i on(1,2) new by (simp add: sub_ok_def) (simp add: move_client_def)
qed

lemma api_step_hears: "api_step E c c' \<Longrightarrow> hears_on c c'"
  by (rule hearing.api_step_R)

lemma op_listeners_same:
  "run_state (activate E key) c = (r, c') \<Longrightarrow> listeners c' = listeners c"
  "run_state (validate E) c = (r, c') \<Longrightarrow> listeners c' = listeners c"
  "run_state (deactivate E) c = (u, c') \<Longrightarrow> listeners c' = listeners c"
  "run_state (checkOnLaunch E) c = (r, c') \<Longrightarrow> listeners c' = listeners c"
  "run_state (startTrial E) c = (r, c') \<Longrightarrow> listeners c' = listeners c"
  "run_state (reportKeylessState E ks) c = (v, c') \<Longrightarrow> listeners c' = listeners c"
  using subscribed.keepsD [OF subscribed.keeps_activate, of c E key] subscribed.keepsD [OF subscribed.keeps_validate, of c E]
    subscribed.keepsD [OF subscribed.keeps_deactivate, of c E] subscribed.keepsD [OF subscribed.keeps_checkOnLaunch, of c E]
    subscribed.keepsD [OF subscribed.keeps_startTrial, of c E] subscribed.keepsD [OF subscribed.keeps_keyless, of c E ks]
  by (simp_all add: same_listeners_def)

lemma job_body_step:
  assumes "run_state (job_body E n q) c = (ps, c')"
  shows "api_step E c c' \<and> listeners c' = listeners c \<and> states_posted ps = []"
proof (cases q)
  case (J_activate key)
  with assms obtain r where "run_state (activate E key) c = (r, c')" "ps = [P_result n r]"
    by (cases "run_state (activate E key) c") (auto simp: job_body_def)
  then show ?thesis using st_call [OF st_activate] op_listeners_same(1) by auto
next
  case J_validate
  with assms obtain r where "run_state (validate E) c = (r, c')" "ps = [P_result n r]"
    by (cases "run_state (validate E) c") (auto simp: job_body_def)
  then show ?thesis using st_call [OF st_validate] op_listeners_same(2) by auto
next
  case J_deactivate
  with assms obtain r where "run_state (deactivate E) c = (r, c')" "ps = [P_void n r]"
    by (cases "run_state (deactivate E) c") (auto simp: job_body_def)
  then show ?thesis using st_call [OF st_deactivate] op_listeners_same(3) by auto
next
  case J_checkOnLaunch
  with assms obtain r where "run_state (checkOnLaunch E) c = (r, c')" "ps = [P_result n r]"
    by (cases "run_state (checkOnLaunch E) c") (auto simp: job_body_def)
  then show ?thesis using st_call [OF st_launch] op_listeners_same(4) by auto
next
  case J_startTrial
  with assms obtain r where "run_state (startTrial E) c = (r, c')" "ps = [P_result n r]"
    by (cases "run_state (startTrial E) c") (auto simp: job_body_def)
  then show ?thesis using st_call [OF st_trial] op_listeners_same(5) by auto
next
  case (J_report ks cb)
  with assms obtain u where "run_state (reportKeylessState E ks) c = (u, c')" "states_posted ps = []"
    by (cases "run_state (reportKeylessState E ks) c") (auto simp: job_body_def split: if_splits)
  then show ?thesis using st_call [OF st_keyless] op_listeners_same(6) by auto
qed

lemma sub_ok_work:
  assumes ok: "sub_ok s0 i l"
  shows "sub_ok s0 i (run_job E n q l)"
proof -
  obtain ps c' where run: "run_state (job_body E n q) (ju_client l) = (ps, c')"
    by (cases "run_state (job_body E n q) (ju_client l)")
  note step = job_body_step [OF run]
  have m: "sub_ok s0 i (move_client c' l)"
    by (rule sub_ok_move [OF ok api_step_hears]) (use step ok in \<open>auto simp: sub_ok_def\<close>)
  show ?thesis
    by (rule sub_ok_cong [OF m])
      (use step m in \<open>simp_all add: run_job_def run Let_def handled_def on_its_way_def sub_ok_def\<close>)
qed

lemma sub_ok_use:
  assumes ok: "sub_ok s0 i l" and ev: "ju_entered l = Some ev"
  shows "sub_ok s0 i (on_state E ev (l\<lparr>ju_entered := None\<rparr>))"
proof -
  define l1 where "l1 = refresh_entitlement_cache E (l\<lparr>ju_entered := None, state_snapshot := ev\<rparr>)"
  let ?l = "l1\<lparr>ju_posted := ju_posted l1 @ [P_state ev]\<rparr>"
  have l1: "sub_ok s0 i ?l"
    by (rule sub_ok_cong [OF ok])
      (simp_all add: ev l1_def refresh_entitlement_cache_def handled_def on_its_way_def)
  show ?thesis
  proof (cases "juce_beacon ev")
    case None
    with l1 show ?thesis by (simp add: on_state_def l1_def Let_def)
  next
    case (Some ks)
    obtain u c' where run: "run_state (reportKeylessState E ks) (ju_client l1) = (u, c')"
      by (cases "run_state (reportKeylessState E ks) (ju_client l1)")
    have "hears_on (ju_client ?l) c'" using api_step_hears [OF st_call [OF st_keyless [OF run]]] by simp
    then have "sub_ok s0 i (move_client c' ?l)"
      by (rule sub_ok_move [OF l1]) (use op_listeners_same(6) [OF run] l1 in \<open>simp add: sub_ok_def\<close>)
    moreover have "on_state E ev (l\<lparr>ju_entered := None\<rparr>) = move_client c' ?l"
      using Some run by (simp add: on_state_def l1_def refresh_entitlement_cache_def Let_def move_client_def split: option.split)
    ultimately show ?thesis by simp
  qed
qed

lemma ju_alive_fields [simp]:
  "ju_alive (move_client c' l) = ju_alive l" "ju_alive (on_state E ev l) = ju_alive l"
  "ju_alive (run_job E n q l) = ju_alive l" "ju_alive (dispatch_job q l) = ju_alive l"
  "ju_alive (run_posted p l) = ju_alive l" "\<not> ju_alive (close_licensing l)"
  by (simp_all add: move_client_def on_state_def run_job_def dispatch_job_def run_posted_def close_licensing_def
      refresh_entitlement_cache_def Let_def split: option.split prod.split posted.split)

lemma sub_ok_pump:
  assumes "sub_ok s0 i l" "ju_posted l = p # ps" "ju_alive l"
  shows "sub_ok s0 i (run_posted p (l\<lparr>ju_posted := ps\<rparr>))"
proof -
  have "handled (run_posted p (l\<lparr>ju_posted := ps\<rparr>)) = handled l"
    using assms(2,3) by (cases p) (simp_all add: handled_def run_posted_def)
  moreover have "on_its_way (run_posted p (l\<lparr>ju_posted := ps\<rparr>)) = on_its_way l"
      "ju_sub (run_posted p (l\<lparr>ju_posted := ps\<rparr>)) = ju_sub l" "ju_client (run_posted p (l\<lparr>ju_posted := ps\<rparr>)) = ju_client l"
      "state_snapshot (run_posted p (l\<lparr>ju_posted := ps\<rparr>)) = state_snapshot l"
    using assms(3) by (cases p; simp add: on_its_way_def run_posted_def)+
  ultimately show ?thesis
    by (intro sub_ok_cong [OF assms(1)]) (use assms(1) in \<open>simp_all add: sub_ok_def\<close>)
qed

lemma sub_ok_quiet:
  assumes "sub_ok s0 i l" "ju_sub l' = ju_sub l" "ju_client l' = ju_client l" "handled l' = handled l"
    "on_its_way l' = on_its_way l" "state_snapshot l' = state_snapshot l"
  shows "sub_ok s0 i l'"
  using assms by (simp add: sub_ok_def)

lemma sub_ok_step:
  assumes "ju_step E l l'" "sub_ok s0 i l" "ju_alive l'" "\<not> ju_gone l"
  shows "sub_ok s0 i l'"
  using assms(1)
proof (cases rule: ju_step.cases)
  case (jt_client c')
  then show ?thesis using sub_ok_move [OF assms(2) api_step_hears] assms(2) by (simp add: sub_ok_def)
next
  case (jt_use ev)
  then show ?thesis using sub_ok_use [OF assms(2)] by simp
next
  case (jt_work n q)
  then show ?thesis using sub_ok_work [OF assms(2)] by simp
next
  case (jt_pump p ps)
  then show ?thesis using sub_ok_pump [OF assms(2)] assms(3) by simp
next
  case (jt_enter ev evs)
  show ?thesis by (rule sub_ok_quiet [OF assms(2)]) (simp_all add: jt_enter handled_def on_its_way_def)
next
  case (jt_dispatch q)
  show ?thesis by (rule sub_ok_quiet [OF assms(2)]) (simp_all add: jt_dispatch dispatch_job_def handled_def on_its_way_def)
qed (use assms(3,4) in simp_all)

lemma alive_before: "ju_step E l l' \<Longrightarrow> ju_alive l' \<Longrightarrow> ju_alive l"
  by (cases rule: ju_step.cases, assumption) simp_all

lemma ju_gone_fields [simp]:
  "ju_gone (move_client c' l) = ju_gone l" "ju_gone (on_state E ev l) = ju_gone l"
  "ju_gone (run_job E n q l) = ju_gone l" "ju_gone (dispatch_job q l) = ju_gone l"
  "ju_gone (run_posted p l) = ju_gone l" "ju_gone (close_licensing l) = ju_gone l"
  by (simp_all add: move_client_def on_state_def run_job_def dispatch_job_def run_posted_def close_licensing_def
      refresh_entitlement_cache_def Let_def split: option.split prod.split posted.split)

lemma gone_is_closed: "ju_reachable E g w l \<Longrightarrow> ju_gone l \<Longrightarrow> \<not> ju_alive l"
proof (induction rule: ju_reachable.induct)
  case ju_start
  then show ?case by (simp add: licensing_new_def refresh_entitlement_cache_def Let_def split: prod.splits)
next
  case (ju_more l l')
  from ju_more(2) show ?case
    by (cases rule: ju_step.cases) (use ju_more(3,4) in auto)
qed

lemma ju_reachable_ok:
  "ju_reachable E g w l \<Longrightarrow> ju_alive l \<Longrightarrow> juce_ok (last_reported (new_client E g w)) l"
proof (induction rule: ju_reachable.induct)
  case ju_start
  show ?case by (rule licensing_new_ok)
next
  case (ju_more l l')
  have alive: "ju_alive l" by (rule alive_before [OF ju_more(2,4)])
  then have "\<not> ju_gone l" using gone_is_closed [OF ju_more(1)] by blast
  moreover obtain i where "sub_ok (last_reported (new_client E g w)) i l"
    using ju_more(3) alive unfolding juce_ok_def by blast
  ultimately show ?case using sub_ok_step [OF ju_more(2) _ ju_more(4)] unfolding juce_ok_def by blast
qed

lemma generic_fields [simp]:
  "generic_entitlement_enabled (refresh_entitlement_cache E l) = generic_entitlement_enabled l"
  "generic_entitlement_enabled (move_client c' l) = generic_entitlement_enabled l"
  "generic_entitlement_enabled (dispatch_job q l) = generic_entitlement_enabled l"
  "generic_entitlement_enabled (close_licensing l) = generic_entitlement_enabled l"
  by (simp_all add: refresh_entitlement_cache_def move_client_def dispatch_job_def close_licensing_def Let_def)

lemma generic_jobs [simp]:
  "generic_entitlement_enabled (on_state E ev l) = generic_entitlement_enabled l"
  "generic_entitlement_enabled (run_job E n q l) = generic_entitlement_enabled l"
  by (cases "juce_beacon ev") (simp_all add: on_state_def run_job_def split_beta Let_def)

lemma generic_posted [simp]:
  "generic_entitlement_enabled (run_posted p l) = generic_entitlement_enabled l"
  by (cases p) (simp_all add: run_posted_def)

lemma generic_step: "ju_step E l l' \<Longrightarrow> generic_entitlement_enabled l' = generic_entitlement_enabled l"
  by (cases rule: ju_step.cases, assumption) simp_all

lemma generic_never: "ju_reachable E g w l \<Longrightarrow> \<not> generic_entitlement_enabled l"
proof (induction rule: ju_reachable.induct)
  case ju_start
  show ?case by (simp add: licensing_new_def refresh_entitlement_cache_def Let_def split: prod.split)
next
  case (ju_more l l')
  then show ?case using generic_step by blast
qed

text \<open>Only a callback writes the snapshots, and it writes both.\<close>

lemma client_moves_quietly [simp]:
  "state_snapshot (move_client c' l) = state_snapshot l" "pro_enabled (move_client c' l) = pro_enabled l"
  "ju_entered (move_client c' l) = ju_entered l"
  by (simp_all add: move_client_def)

lemma on_state_writes [simp]:
  "state_snapshot (on_state E ev l) = ev" "pro_enabled (on_state E ev l) = hasEntitlement E (ju_client l) ''pro''"
  "ju_entered (on_state E ev l) = ju_entered l"
  by (cases "juce_beacon ev"; simp add: on_state_def refresh_entitlement_cache_def Let_def)+

lemma others_write_nothing [simp]:
  "state_snapshot (run_job E n q l) = state_snapshot l" "pro_enabled (run_job E n q l) = pro_enabled l"
  "ju_entered (run_job E n q l) = ju_entered l"
  "state_snapshot (run_posted p l) = state_snapshot l" "pro_enabled (run_posted p l) = pro_enabled l"
  "ju_entered (run_posted p l) = ju_entered l"
  by (simp_all add: run_job_def split_beta Let_def) (cases p; simp add: run_posted_def)+

lemma snapshots_step:
  assumes "ju_step E l l'" "\<not> ju_gone l"
  shows "if ju_entered l \<noteq> None \<and> ju_entered l' = None
    then state_snapshot l' = the (ju_entered l) \<and> pro_enabled l' = hasEntitlement E (ju_client l) ''pro''
    else state_snapshot l' = state_snapshot l \<and> pro_enabled l' = pro_enabled l"
  using assms(1)
proof (cases rule: ju_step.cases)
  case jt_dispatch
  then show ?thesis by (auto simp: dispatch_job_def)
next
  case jt_close
  then show ?thesis by (auto simp: close_licensing_def Let_def)
qed (use assms(2) in auto)

text \<open>
  C29. What the audio thread reads: whatever the client, the dispatched jobs, the beacons the callback
  sends and the message thread do, the state snapshot is the state of the last callback that ran, the
  message thread is shown the same states in the same order, and what the client has told the
  subscription is those and the events still on their way; with none on its way the snapshot is what
  the client last reported. The \<open>"pro"\<close> snapshot is the client's answer at construction; the step in which
  a callback runs sets both snapshots, the second to the client's answer at that moment, and no other
  step changes either (so it may lag: \<open>pro_outlives_the_lease\<close>). Any other feature is never enabled.
\<close>
theorem snapshot_is_the_clients_state:
  assumes "ju_reachable E g w l" "ju_alive l"
  shows "state_snapshot l = latest (client_state E (new_client E g w)) (handled l)
    \<and> prefix (ju_shown l) (handled l)
    \<and> (\<exists>i. ju_sub l = Some i \<and> told i (ju_client l) = handled l @ on_its_way l)
    \<and> (on_its_way l = [] \<longrightarrow> state_snapshot l = last_reported (ju_client l))
    \<and> hasFeature ''pro'' (licensing_new E g w) = hasEntitlement E (new_client E g w) ''pro''
    \<and> (\<forall>l'. ju_step E l l' \<longrightarrow>
          (if ju_entered l \<noteq> None \<and> ju_entered l' = None
           then state_snapshot l' = the (ju_entered l) \<and> hasFeature ''pro'' l' = hasEntitlement E (ju_client l) ''pro''
           else state_snapshot l' = state_snapshot l \<and> hasFeature ''pro'' l' = hasFeature ''pro'' l))
    \<and> (feature \<noteq> ''pro'' \<longrightarrow> \<not> hasFeature feature l)"
proof (intro conjI)
  have new: "client_state E (new_client E g w) = last_reported (new_client E g w)"
    by (simp add: new_client_def split_beta client_state_def clock_untrusted_def)
  obtain i where ok: "sub_ok (last_reported (new_client E g w)) i l"
    using ju_reachable_ok [OF assms] unfolding juce_ok_def by blast
  show "state_snapshot l = latest (client_state E (new_client E g w)) (handled l)"
    "\<exists>i. ju_sub l = Some i \<and> told i (ju_client l) = handled l @ on_its_way l"
    "on_its_way l = [] \<longrightarrow> state_snapshot l = last_reported (ju_client l)"
    using ok new by (auto simp: sub_ok_def)
  show "prefix (ju_shown l) (handled l)" by (simp add: handled_def)
  show "hasFeature ''pro'' (licensing_new E g w) = hasEntitlement E (new_client E g w) ''pro''"
    by (simp add: hasFeature_def licensing_new_def refresh_entitlement_cache_def Let_def split: prod.split)
  have "\<not> ju_gone l" using gone_is_closed [OF assms(1)] assms(2) by blast
  then show "\<forall>l'. ju_step E l l' \<longrightarrow>
          (if ju_entered l \<noteq> None \<and> ju_entered l' = None
           then state_snapshot l' = the (ju_entered l) \<and> hasFeature ''pro'' l' = hasEntitlement E (ju_client l) ''pro''
           else state_snapshot l' = state_snapshot l \<and> hasFeature ''pro'' l' = hasFeature ''pro'' l)"
    using snapshots_step [of E l] unfolding hasFeature_def by (simp only: simp_thms if_True) blast
  show "feature \<noteq> ''pro'' \<longrightarrow> \<not> hasFeature feature l"
    using generic_never [OF assms(1)] by (simp add: hasFeature_def)
qed

theorem snapshot_is_the_clients_state_witness:
  "let l = licensing_new lease_server test_config
      (disk_world 1100 (build_blob (licensed_cache (test_lease ''active'' 900000))))
   in state_snapshot l = last_reported (ju_client l) \<and> \<not> hasFeature ''cloud'' l"
proof -
  let ?l = "licensing_new lease_server test_config
      (disk_world 1100 (build_blob (licensed_cache (test_lease ''active'' 900000))))"
  have "ju_alive ?l \<and> on_its_way ?l = []"
    by (simp add: licensing_new_def refresh_entitlement_cache_def on_its_way_def Let_def split: prod.split)
  then show ?thesis
    using snapshot_is_the_clients_state [OF ju_start, where feature = "''cloud''" and E = lease_server]
    unfolding Let_def by blast
qed

section \<open>The age of \<open>pro_enabled_\<close>\<close>

lemma pro_at:
  assumes "cache c = licensed_cache (test_lease ''active'' 900000)" "cfg c = test_config" "last_validated_online_atomic c = 1000"
    "e_now lease_server (world c) = t" "in64 t" "1000 \<le> t"
  shows "hasEntitlement lease_server c ''pro'' \<longleftrightarrow> t \<le> 900300"
proof -
  let ?l = "test_lease ''active'' 900000"
  have fields: "cached_lease (cache c) = Some ?l" "cached_last_validated_online (cache c) = 1000"
    by (simp_all add: assms licensed_cache_def)
  have "is_trusted (verify_lease lease_server c ?l)" by (simp add: trusted_iff_vouched assms)
  moreover have "expired (verify_lease lease_server c ?l) \<longleftrightarrow> 900300 < t"
    using assms by (simp add: verify_lease_def expired_verify)
      (simp add: test_lease_def in64_def INT64_MIN_def INT64_MAX_def)
  moreover have "\<not> clock_untrusted lease_server c"
    using assms by (simp add: clock_untrusted_def fields clock_rolled_back_def CLOCK_BACKWARD_TOLERANCE_def
        in64_def INT64_MIN_def INT64_MAX_def)
  ultimately show ?thesis by (auto simp: hasEntitlement_def fields)
qed

text \<open>
  "Currently enabled" is as of the last state change: a plugin that starts on a valid lease and is left
  running past the lease's expiry and its tolerance, with no callback outstanding, still answers
  \<open>hasFeature("pro")\<close> on the audio thread while the client itself, asked for the same entitlement, refuses.
\<close>
theorem pro_outlives_the_lease:
  "\<exists>w l. ju_reachable lease_server test_config w l \<and> ju_alive l \<and> on_its_way l = [] \<and> ju_posted l = []
    \<and> hasFeature ''pro'' l \<and> \<not> hasEntitlement lease_server (ju_client l) ''pro''"
proof -
  let ?w = "disk_world 1100 (build_blob (licensed_cache (test_lease ''active'' 900000)))"
  let ?l = "licensing_new lease_server test_config ?w"
  let ?c = "ju_client ?l" let ?c' = "?c\<lparr>world := disk_world 2000000 []\<rparr>" let ?l' = "move_client ?c' ?l"
  have start: "?c = snd (run_state subscribe licensed_start)" "pro_enabled ?l = hasEntitlement lease_server licensed_start ''pro''"
    "ju_alive ?l" "\<not> ju_gone ?l" "on_its_way ?l = []" "ju_posted ?l = []" "ju_sub ?l = fst (run_state subscribe licensed_start)"
    by (simp_all add: licensing_new_def refresh_entitlement_cache_def on_its_way_def licensed_start_def Let_def split_beta)
  have now: "e_now lease_server (world licensed_start) = 1100" "e_now lease_server (disk_world 2000000 []) = 2000000"
    by (simp_all add: licensed_start_facts lease_server_def scripted64_def disk_world_def in64_def INT64_MIN_def INT64_MAX_def)
  note c = licensed_start_resumed
  have "hasEntitlement lease_server licensed_start ''pro''"
    using pro_at [of licensed_start 1100] now(1)
    by (simp add: c in64_def INT64_MIN_def INT64_MAX_def) (simp add: licensed_cache_def)
  moreover have "\<not> hasEntitlement lease_server ?c' ''pro''"
    using pro_at [of ?c' 2000000] now(2)
    by (simp add: start(1) subscribe_def c in64_def INT64_MIN_def INT64_MAX_def) (simp add: licensed_cache_def)
  moreover have "ju_step lease_server ?l ?l'"
    by (rule ju_step.jt_client [OF start(4) st_world]) (simp add: start subscribe_def)
  then have "ju_reachable lease_server test_config ?w ?l'" by (rule ju_more [OF ju_start])
  moreover have "told i ?c' = told i ?c" for i by (simp add: told_def)
  then have "on_its_way ?l' = []" "ju_posted ?l' = []" "ju_alive ?l'" "pro_enabled ?l' = pro_enabled ?l" "ju_client ?l' = ?c'"
    using start(3,5,6) by (simp_all add: move_client_def on_its_way_def split: option.splits)
  ultimately show ?thesis using start(2) by (intro exI [of _ ?w] exI [of _ ?l']) (simp add: hasFeature_def)
qed

section \<open>Teardown\<close>

definition frozen :: "'w licensing \<Rightarrow> 'w licensing \<Rightarrow> bool" where
  "frozen l l' \<longleftrightarrow> \<not> ju_alive l' \<and> ju_entered l' = None \<and> state_snapshot l' = state_snapshot l
     \<and> pro_enabled l' = pro_enabled l \<and> ju_shown l' = ju_shown l \<and> ju_dangling l' = ju_dangling l"

lemma frozen_same:
  assumes "frozen l a" "\<not> ju_alive b" "ju_entered b = ju_entered a" "state_snapshot b = state_snapshot a"
    "pro_enabled b = pro_enabled a" "ju_shown b = ju_shown a" "ju_dangling b = ju_dangling a"
  shows "frozen l b"
  using assms by (simp add: frozen_def)

lemma frozen_step:
  assumes "ju_step E a b" "frozen l a"
  shows "frozen l b"
  using assms(1)
proof (cases rule: ju_step.cases)
  case (jt_client c')
  show ?thesis by (rule frozen_same [OF assms(2)]) (use assms(2) in \<open>simp_all add: jt_client move_client_def frozen_def\<close>)
next
  case (jt_work n q)
  show ?thesis
    by (rule frozen_same [OF assms(2)])
      (use assms(2) in \<open>simp_all add: jt_work frozen_def\<close>, simp_all add: run_job_def move_client_def split_beta Let_def)
next
  case (jt_pump p ps)
  have "\<not> ju_alive a" using assms(2) by (simp add: frozen_def)
  then show ?thesis
    by (intro frozen_same [OF assms(2)]) (simp_all add: jt_pump, (cases p; simp add: run_posted_def)+)
qed (use assms(2) in \<open>simp_all add: frozen_def\<close>)

text \<open>
  C30. Teardown is quiet: from the moment the destructor of \<open>Licensing\<close> has lowered the flag and dropped the
  subscription, whatever the client, its threads, the dispatched job and the message thread still do,
  and also after the destructor has ended, the message thread is shown no further state, neither snapshot
  changes and no callback touches the destroyed object, provided no callback had passed its check before.
\<close>
theorem teardown_is_quiet:
  assumes "(ju_step E)\<^sup>*\<^sup>* (close_licensing l) l'" "ju_entered l = None" "\<not> ju_dangling l"
  shows "ju_shown l' = ju_shown l \<and> state_snapshot l' = state_snapshot l \<and> pro_enabled l' = pro_enabled l
    \<and> \<not> ju_dangling l'"
proof -
  have "frozen l l'"
    using assms(1)
  proof (induction rule: rtranclp_induct)
    case base
    show ?case using assms(2) by (simp add: frozen_def close_licensing_def Let_def)
  next
    case (step a b)
    then show ?case using frozen_step by blast
  qed
  with assms(3) show ?thesis by (simp add: frozen_def)
qed

text \<open>
  The proviso is needed, as the constructor's comment concedes: a callback past its check on a thread of the
  application outlives an object whose destructor has ended.
\<close>

lemma late_callback_dangles:
  assumes "ju_entered l = Some ev" "ju_worker l = None"
  shows "\<exists>l'. (ju_step E)\<^sup>*\<^sup>* (close_licensing l) l' \<and> ju_gone l' \<and> ju_dangling l'"
proof -
  let ?a = "close_licensing l" let ?b = "?a\<lparr>ju_gone := True\<rparr>" let ?d = "?b\<lparr>ju_entered := None, ju_dangling := True\<rparr>"
  have "ju_step E ?a ?b" by (rule jt_end) (simp_all add: assms(2) close_licensing_def Let_def)
  moreover have "ju_step E ?b ?d"
    by (rule jt_use_after_free [of _ ev]) (simp_all add: assms(1) close_licensing_def Let_def)
  ultimately have "(ju_step E)\<^sup>*\<^sup>* ?a ?d" by (meson converse_rtranclp_into_rtranclp r_into_rtranclp)
  then show ?thesis by (intro exI [of _ ?d]) simp
qed

theorem teardown_is_quiet_witness:
  "let l = dispatch_job J_validate (licensing_new lease_server test_config (disk_world 5 []));
       l' = run_job lease_server 0 J_validate (close_licensing l)
   in ju_shown l' = [] \<and> state_snapshot l' = state_snapshot l \<and> pro_enabled l' = pro_enabled l"
proof -
  let ?l = "dispatch_job J_validate (licensing_new lease_server test_config (disk_world 5 []))"
  let ?l' = "run_job lease_server 0 J_validate (close_licensing ?l)"
  have l: "ju_entered ?l = None" "\<not> ju_dangling ?l" "ju_shown ?l = []" "ju_worker (close_licensing ?l) = Some (0, J_validate)"
    by (simp_all add: dispatch_job_def licensing_new_def refresh_entitlement_cache_def close_licensing_def Let_def
        split: prod.split)
  have "(ju_step lease_server)\<^sup>*\<^sup>* (close_licensing ?l) ?l'"
    by (rule r_into_rtranclp, rule jt_work, rule l(4))
  then show ?thesis using teardown_is_quiet [OF _ l(1,2)] l(3) by (simp add: Let_def)
qed

end
