(* ===== verification/Unreal.thy ===== *)
theory Unreal
  imports Host_Adapter Client_History Client_Ops Client_Props Store
begin

text \<open>
  The Unreal plugin (\<open>integrations/unreal\<close>): \<open>FHttpTransport::request\<close>, \<open>UELicenseStore\<close> and
  \<open>UKeylightSubsystem\<close>. The engine is a parameter: its HTTP module, its text conversions, its paths and
  build version are the fields of \<open>engine\<close>; its task queues are lists in the subsystem's state
  (background tasks end in any order, game-thread tasks run in the order they were posted).

  An \<open>FString\<close> is represented by the text \<open>std::string(TCHAR_TO_UTF8(*s))\<close> it converts to; \<open>tchar\<close> is what
  \<open>UTF8_TO_TCHAR\<close> makes of a C string in this representation. A \<open>Client\<close> has an address, so that a task that still holds the
  pointer of a destroyed one can be told from one that does not.
\<close>

section \<open>The engine\<close>

record ue_request =
  ue_verb :: string
  ue_url :: string
  ue_headers :: "(string \<times> string) list"
  ue_content :: "string option"

record 'w engine =
  tchar :: "string \<Rightarrow> string"
  http_run :: "ue_request \<Rightarrow> 'w \<Rightarrow> (bool \<times> (int \<times> string) option) \<times> 'w"
    \<comment> \<open>whether it connected, and the valid response's code and content\<close>
  saved_dir :: string
  build_version :: string
  combine :: "string \<Rightarrow> string \<Rightarrow> string"

section \<open>\<open>FHttpTransport\<close>\<close>

definition fhttp_call :: "'w engine \<Rightarrow> HttpRequest \<Rightarrow> ue_request" where
  "fhttp_call U r =
     \<lparr>ue_verb = tchar U (c_str (req_method r)), ue_url = tchar U (c_str (req_url r)),
      ue_headers = map (\<lambda>(k, v). (tchar U (c_str k), tchar U (c_str v))) (map_entries (req_headers r)),
      ue_content = (if req_body r = [] then None else Some (req_body r))\<rparr>"

definition fhttp_request :: "'w engine \<Rightarrow> 'w transport" where
  "fhttp_request U r w =
     (case http_run U (fhttp_call U r) w of
        ((bConnected, response), w') \<Rightarrow>
          (case (if bConnected then response else None) of
             None \<Rightarrow> (err EC_Network ''FHttpTransport: network error or timeout'', w')
           | Some (st, content) \<Rightarrow> (Inr \<lparr>http_status = st, body = content, headers = Map.empty\<rparr>, w')))"

section \<open>\<open>UELicenseStore\<close>\<close>

definition ue_store_path :: "'w engine \<Rightarrow> string \<Rightarrow> string \<Rightarrow> string" where
  "ue_store_path U tenant product =
     combine U (combine U (saved_dir U) ''Keylight'') (tenant @ ''-'' @ product @ ''.lease'')"

definition ue_load :: "'w engine \<Rightarrow> faults \<Rightarrow> string \<Rightarrow> string \<Rightarrow> disk \<Rightarrow> string result \<times> disk" where
  "ue_load U F tenant product = file_load F (ue_store_path U tenant product)"

definition ue_save :: "'w engine \<Rightarrow> faults \<Rightarrow> string \<Rightarrow> string \<Rightarrow> string \<Rightarrow> disk \<Rightarrow> unit result \<times> disk" where
  "ue_save U F tenant product = file_save F (ue_store_path U tenant product)"

definition ue_clear :: "'w engine \<Rightarrow> faults \<Rightarrow> string \<Rightarrow> string \<Rightarrow> disk \<Rightarrow> unit result \<times> disk" where
  "ue_clear U F tenant product = file_clear F (ue_store_path U tenant product)"

section \<open>States for Blueprint\<close>

datatype EKeylightState = UE_Licensed | UE_Trial | UE_Expired | UE_Invalid | UE_FreeTier | UE_Limited

text \<open>\<open>static_cast<int>\<close> of a state: its place in the declaration.\<close>

fun state_int :: "State \<Rightarrow> int" where
  "state_int Licensed = 0"
| "state_int Trial = 1"
| "state_int Expired = 2"
| "state_int Invalid = 3"
| "state_int FreeTier = 4"
| "state_int Limited = 5"

definition ToUEState :: "int \<Rightarrow> EKeylightState" where
  "ToUEState n =
     (if n = state_int Licensed then UE_Licensed
      else if n = state_int Trial then UE_Trial
      else if n = state_int Expired then UE_Expired
      else if n = state_int FreeTier then UE_FreeTier
      else if n = state_int Limited then UE_Limited
      else UE_Invalid)"

lemma ToUEState_inj: "ToUEState (state_int s) = ToUEState (state_int t) \<longleftrightarrow> s = t"
  by (cases s; cases t) (simp_all add: ToUEState_def)

section \<open>\<open>UKeylightSubsystem\<close>\<close>

datatype ue_op = UE_activate string | UE_validate | UE_deactivate

text \<open>A broadcast: the call it answers, success, state, message.\<close>

type_synonym ue_answer = "nat \<times> ue_op \<times> bool \<times> EKeylightState \<times> string"

record 'w subsystem =
  us_client :: "(nat \<times> 'w client) option" \<comment> \<open>address and object\<close>
  us_configured :: bool
  us_world :: 'w \<comment> \<open>the world while there is no client\<close>
  us_next :: nat \<comment> \<open>the next address\<close>
  us_calls :: nat
  us_tasks :: "(nat \<times> nat \<times> ue_op) list" \<comment> \<open>call, client address, operation\<close>
  us_game :: "ue_answer list"
  us_fired :: "ue_answer list"
  us_alive :: bool
  us_dangling :: bool

definition us_init :: "'w \<Rightarrow> 'w subsystem" where
  "us_init w = \<lparr>us_client = None, us_configured = False, us_world = w, us_next = 0, us_calls = 0, us_tasks = [],
     us_game = [], us_fired = [], us_alive = True, us_dangling = False\<rparr>"

definition present_world :: "'w subsystem \<Rightarrow> 'w" where
  "present_world s = (case us_client s of None \<Rightarrow> us_world s | Some (a, c) \<Rightarrow> world c)"

text \<open>\<open>Client_.Reset()\<close> and the resets of store and transport.\<close>

definition us_reset :: "'w subsystem \<Rightarrow> 'w subsystem" where
  "us_reset s = s\<lparr>us_world := present_world s, us_client := None\<rparr>"

definition us_deinitialize :: "'w subsystem \<Rightarrow> 'w subsystem" where
  "us_deinitialize s = (us_reset s)\<lparr>us_configured := False\<rparr>"

definition ue_config :: "'w engine \<Rightarrow> string \<Rightarrow> string \<Rightarrow> keyset \<Rightarrow> Config" where
  "ue_config U tenant product keys =
     default_config\<lparr>tenantId := tenant, productId := product, trustedKeys := keys, appVersion := build_version U\<rparr>"

definition us_configure ::
    "'w env \<Rightarrow> 'w engine \<Rightarrow> string \<Rightarrow> string \<Rightarrow> keyset \<Rightarrow> 'w subsystem \<Rightarrow> 'w subsystem" where
  "us_configure E U tenant product keys s =
     (let s1 = us_reset s
      in s1\<lparr>us_client := Some (us_next s1, new_client E (ue_config U tenant product keys) (us_world s1)),
            us_next := Suc (us_next s1), us_configured := True\<rparr>)"

text \<open>\<open>Activate\<close>, \<open>Validate\<close> and \<open>Deactivate\<close>: the guard, or a background task with the client's pointer.\<close>

definition us_call :: "ue_op \<Rightarrow> 'w subsystem \<Rightarrow> 'w subsystem" where
  "us_call q s =
     (let n = us_calls s; s1 = s\<lparr>us_calls := Suc n\<rparr>
      in if \<not> us_configured s then
           s1\<lparr>us_fired := us_fired s @ [(n, q, False, UE_Invalid, ''Not configured. Call Configure() first.'')]\<rparr>
         else (case us_client s of
            None \<Rightarrow> s1\<lparr>us_fired := us_fired s @ [(n, q, False, UE_Invalid, ''Not configured. Call Configure() first.'')]\<rparr>
          | Some (a, c) \<Rightarrow> s1\<lparr>us_tasks := us_tasks s @ [(n, a, q)]\<rparr>))"

text \<open>The body of a background task: the SDK call, and what its completion will broadcast.\<close>

definition result_answer :: "'w engine \<Rightarrow> State result \<Rightarrow> bool \<times> EKeylightState \<times> string" where
  "result_answer U r =
     (case r of
        Inr st \<Rightarrow> (True, ToUEState (state_int st), [])
      | Inl e \<Rightarrow> (False, ToUEState (state_int Invalid), tchar U (c_str (message e))))"

definition task_body :: "'w env \<Rightarrow> 'w engine \<Rightarrow> ue_op \<Rightarrow> ('w, bool \<times> EKeylightState \<times> string) act" where
  "task_body E U q =
     (case q of
        UE_activate key \<Rightarrow> do { r \<leftarrow> activate E key; State_Monad.return (result_answer U r) }
      | UE_validate \<Rightarrow> do { r \<leftarrow> validate E; State_Monad.return (result_answer U r) }
      | UE_deactivate \<Rightarrow> do {
          r \<leftarrow> deactivate E;
          State_Monad.return (case r of
             Inr u \<Rightarrow> (True, ToUEState (state_int Invalid), [])
           | Inl e \<Rightarrow> (False, ToUEState (state_int Invalid), tchar U (c_str (message e)))) })"

definition HasEntitlement :: "'w env \<Rightarrow> string \<Rightarrow> 'w subsystem \<Rightarrow> bool" where
  "HasEntitlement E feature s = (case us_client s of None \<Rightarrow> False | Some (a, c) \<Rightarrow> hasEntitlement E c feature)"

definition GetState :: "'w env \<Rightarrow> 'w subsystem \<Rightarrow> EKeylightState" where
  "GetState E s =
     (case us_client s of None \<Rightarrow> UE_Invalid | Some (a, c) \<Rightarrow> ToUEState (state_int (client_state E c)))"

text \<open>
  Steps. \<open>U_run i\<close> runs the \<open>i\<close>-th background task to its end; if its pointer is no longer that of
  the live client it is a use after free. \<open>U_game\<close> runs the next completion on the game thread, which
  drops it if the subsystem is gone (\<open>U_collect\<close>). \<open>U_client\<close>: what else happens to the live client.
\<close>

datatype 'w ue_event =
    U_configure string string keyset | U_call ue_op | U_run nat | U_game | U_deinitialize | U_collect
  | U_client "'w client"

definition us_run_task :: "'w env \<Rightarrow> 'w engine \<Rightarrow> nat \<times> nat \<times> ue_op \<Rightarrow> 'w subsystem \<Rightarrow> 'w subsystem" where
  "us_run_task E U t s =
     (case t of (n, p, q) \<Rightarrow>
        (case us_client s of
           None \<Rightarrow> s\<lparr>us_dangling := True\<rparr>
         | Some (a, c) \<Rightarrow>
             if a \<noteq> p then s\<lparr>us_dangling := True\<rparr>
             else (let (ans, c') = run_state (task_body E U q) c
                   in s\<lparr>us_client := Some (a, c'), us_game := us_game s @ [(n, q, ans)]\<rparr>)))"

inductive us_step :: "'w env \<Rightarrow> 'w engine \<Rightarrow> 'w subsystem \<Rightarrow> 'w ue_event \<Rightarrow> 'w subsystem \<Rightarrow> bool"
  for E :: "'w env" and U :: "'w engine" where
  us_conf: "us_alive s \<Longrightarrow> us_step E U s (U_configure tenant product keys) (us_configure E U tenant product keys s)"
| us_ask: "us_alive s \<Longrightarrow> us_step E U s (U_call q) (us_call q s)"
| us_work: "i < length (us_tasks s)
    \<Longrightarrow> us_step E U s (U_run i)
          (us_run_task E U (us_tasks s ! i) (s\<lparr>us_tasks := take i (us_tasks s) @ drop (Suc i) (us_tasks s)\<rparr>))"
| us_show: "us_game s = a # as
    \<Longrightarrow> us_step E U s U_game (s\<lparr>us_game := as, us_fired := (if us_alive s then us_fired s @ [a] else us_fired s)\<rparr>)"
| us_down: "us_step E U s U_deinitialize (us_deinitialize s)"
| us_gone: "us_client s = None \<Longrightarrow> us_step E U s U_collect (s\<lparr>us_alive := False\<rparr>)"
| us_else: "us_client s = Some (a, c) \<Longrightarrow> api_step E c c' \<Longrightarrow> us_step E U s (U_client c') (s\<lparr>us_client := Some (a, c')\<rparr>)"

inductive_cases us_stepE: "us_step E U s e s'"

inductive us_runs :: "'w env \<Rightarrow> 'w engine \<Rightarrow> 'w \<Rightarrow> 'w ue_event list \<Rightarrow> 'w subsystem \<Rightarrow> bool"
  for E :: "'w env" and U :: "'w engine" and w :: 'w where
  us_nil: "us_runs E U w [] (us_init w)"
| us_snoc: "us_runs E U w es s \<Longrightarrow> us_step E U s e s' \<Longrightarrow> us_runs E U w (es @ [e]) s'"

section \<open>Every call is answered once\<close>

text \<open>What the documentation asks of the title: no \<open>Configure\<close> and no teardown with a call in flight.\<close>

fun tears_down :: "'w ue_event \<Rightarrow> bool" where
  "tears_down (U_configure tenant product keys) = True"
| "tears_down U_deinitialize = True"
| "tears_down _ = False"

inductive us_orderly :: "'w env \<Rightarrow> 'w engine \<Rightarrow> 'w \<Rightarrow> 'w subsystem \<Rightarrow> bool"
  for E :: "'w env" and U :: "'w engine" and w :: 'w where
  uo_start: "us_orderly E U w (us_init w)"
| uo_step: "us_orderly E U w s \<Longrightarrow> us_step E U s e s' \<Longrightarrow> tears_down e \<longrightarrow> us_tasks s = [] \<Longrightarrow> us_orderly E U w s'"

definition well_formed_answer :: "ue_answer \<Rightarrow> bool" where
  "well_formed_answer a =
     (case a of (n, q, ok, st, msg) \<Rightarrow> (\<not> ok \<longrightarrow> st = UE_Invalid) \<and> (ok \<longrightarrow> msg = []) \<and> (q = UE_deactivate \<longrightarrow> st = UE_Invalid))"

definition us_ok :: "'w subsystem \<Rightarrow> bool" where
  "us_ok s \<longleftrightarrow> \<not> us_dangling s
     \<and> (\<forall>(n, p, q) \<in> set (us_tasks s). \<exists>c. us_client s = Some (p, c))
     \<and> (us_alive s \<longrightarrow> mset (map fst (us_fired s)) + mset (map fst (us_game s)) + mset (map fst (us_tasks s))
           = mset [0..<us_calls s])
     \<and> list_all well_formed_answer (us_fired s @ us_game s)"

lemma task_answer: "well_formed_answer (n, q, fst (run_state (task_body E U q) c))"
  by (cases q)
    (auto simp: task_body_def well_formed_answer_def result_answer_def ToUEState_def split_beta split: sum.splits)

lemma us_ok_call:
  assumes "us_ok s"
  shows "us_ok (us_call q s)"
  using assms
  by (auto simp: us_call_def us_ok_def Let_def well_formed_answer_def atLeast0_lessThan_Suc split: option.splits)

lemma mset_nth_out: "i < length xs \<Longrightarrow> mset (map f (take i xs @ drop (Suc i) xs)) + {#f (xs ! i)#} = mset (map f xs)"
proof -
  assume i: "i < length xs"
  have "mset (map f xs) = mset (map f (take i xs @ xs ! i # drop (Suc i) xs))"
    using id_take_nth_drop [OF i] by simp
  then show ?thesis by simp
qed

lemma us_ok_work:
  assumes ok: "us_ok s" and i: "i < length (us_tasks s)"
  shows "us_ok (us_run_task E U (us_tasks s ! i) (s\<lparr>us_tasks := take i (us_tasks s) @ drop (Suc i) (us_tasks s)\<rparr>))"
proof -
  obtain n p q where t: "us_tasks s ! i = (n, p, q)" by (cases "us_tasks s ! i")
  have "(n, p, q) \<in> set (us_tasks s)" using i t by (metis nth_mem)
  then obtain c where c: "us_client s = Some (p, c)" using ok by (auto simp: us_ok_def)
  obtain ans c' where run: "run_state (task_body E U q) c = (ans, c')"
    by (cases "run_state (task_body E U q) c")
  have a: "well_formed_answer (n, q, ans)" using task_answer [of n q E U c] run by simp
  have m: "mset (map fst (take i (us_tasks s) @ drop (Suc i) (us_tasks s))) + {#n#} = mset (map fst (us_tasks s))"
    using mset_nth_out [OF i, of fst] t by simp
  have rest: "set (take i (us_tasks s) @ drop (Suc i) (us_tasks s)) \<subseteq> set (us_tasks s)"
    using set_take_subset set_drop_subset by fastforce
  let ?F = "mset (map fst (us_fired s))" and ?G = "mset (map fst (us_game s))"
  let ?R = "mset (map fst (take i (us_tasks s) @ drop (Suc i) (us_tasks s)))"
  have "?F + (?G + {#n#}) + ?R = mset [0..<us_calls s]" if "us_alive s"
  proof -
    have "?F + (?G + {#n#}) + ?R = ?F + ?G + (?R + {#n#})" by (simp only: ac_simps)
    also have "\<dots> = ?F + ?G + mset (map fst (us_tasks s))" by (simp only: m)
    also have "\<dots> = mset [0..<us_calls s]" using ok that by (simp add: us_ok_def)
    finally show ?thesis .
  qed
  then show ?thesis
    using ok a rest c by (auto simp: us_run_task_def t run us_ok_def)
qed

lemma us_ok_step:
  assumes step: "us_step E U s e s'" and ok: "us_ok s" and calm: "tears_down e \<longrightarrow> us_tasks s = []"
  shows "us_ok s'"
  using step
proof (cases rule: us_step.cases)
  case us_conf
  then show ?thesis using ok calm by (auto simp: us_configure_def us_reset_def us_ok_def Let_def)
next
  case us_ask
  then show ?thesis using us_ok_call [OF ok] by simp
next
  case us_work
  then show ?thesis using us_ok_work [OF ok] by simp
next
  case (us_show a as)
  have "mset (map fst (us_fired s)) + mset (map fst (us_game s)) =
      mset (map fst (us_fired s @ [a])) + mset (map fst as)"
    using us_show by simp
  then show ?thesis using ok us_show by (auto simp: us_ok_def)
next
  case us_down
  then show ?thesis using ok calm by (auto simp: us_deinitialize_def us_reset_def us_ok_def)
next
  case us_gone
  then show ?thesis using ok by (auto simp: us_ok_def)
next
  case (us_else a c c')
  then show ?thesis using ok by (auto simp: us_ok_def)
qed

lemma us_orderly_ok: "us_orderly E U w s \<Longrightarrow> us_ok s"
proof (induction rule: us_orderly.induct)
  case uo_start
  show ?case by (simp add: us_ok_def us_init_def)
next
  case (uo_step s e s')
  then show ?case using us_ok_step by blast
qed

text \<open>
  The engine's own steps: a background task runs, or the game thread takes a completion. What is due is
  the number of them until everything is answered.
\<close>

definition us_serves :: "'w env \<Rightarrow> 'w engine \<Rightarrow> 'w subsystem \<Rightarrow> 'w subsystem \<Rightarrow> bool" where
  "us_serves E U s s' \<longleftrightarrow> (\<exists>i. us_step E U s (U_run i) s') \<or> us_step E U s U_game s'"

definition us_due :: "'w subsystem \<Rightarrow> nat" where
  "us_due s = 2 * length (us_tasks s) + length (us_game s)"

lemma us_serves_fields:
  assumes "us_serves E U s s'" "us_ok s" "us_alive s"
  shows "us_alive s' \<and> us_calls s' = us_calls s \<and> Suc (us_due s') = us_due s"
  using assms(1) unfolding us_serves_def
proof (elim disjE exE)
  fix i assume "us_step E U s (U_run i) s'"
  then have i: "i < length (us_tasks s)"
    and s': "s' = us_run_task E U (us_tasks s ! i) (s\<lparr>us_tasks := take i (us_tasks s) @ drop (Suc i) (us_tasks s)\<rparr>)"
    by (auto elim: us_stepE)
  obtain n p q where t: "us_tasks s ! i = (n, p, q)" by (cases "us_tasks s ! i")
  have "(n, p, q) \<in> set (us_tasks s)" using i t by (metis nth_mem)
  then obtain c where "us_client s = Some (p, c)" using assms(2) by (auto simp: us_ok_def)
  then show ?thesis using i assms(3) by (auto simp: s' t us_run_task_def us_due_def split_beta)
next
  assume "us_step E U s U_game s'"
  then show ?thesis using assms(3) by (auto simp: us_due_def elim: us_stepE)
qed

lemma us_serves_orderly:
  assumes "us_orderly E U w s" "us_serves E U s s'"
  shows "us_orderly E U w s'"
  using assms(2) uo_step [OF assms(1)] unfolding us_serves_def by (metis tears_down.simps(3,4,5))

lemma us_can_serve: "0 < us_due s \<Longrightarrow> \<exists>s'. us_serves E U s s'"
proof (cases "us_tasks s")
  case Nil
  assume "0 < us_due s"
  with Nil obtain a as where "us_game s = a # as" by (cases "us_game s") (auto simp: us_due_def)
  then show ?thesis using us_show unfolding us_serves_def by blast
next
  case (Cons t ts)
  then have "0 < length (us_tasks s)" by simp
  then show ?thesis using us_work unfolding us_serves_def by blast
qed

lemma us_served:
  assumes "us_orderly E U w s" "us_alive s"
  shows "\<exists>s'. (us_serves E U ^^ us_due s) s s'"
    "(us_serves E U ^^ us_due s) s s' \<Longrightarrow>
       us_orderly E U w s' \<and> us_alive s' \<and> us_calls s' = us_calls s \<and> us_due s' = 0"
proof -
  have "(\<exists>s'. (us_serves E U ^^ n) s s') \<and>
      (\<forall>s'. (us_serves E U ^^ n) s s' \<longrightarrow> us_orderly E U w s' \<and> us_alive s' \<and> us_calls s' = us_calls s \<and> us_due s' = 0)"
    if "us_due s = n" for n
    using assms that
  proof (induction n arbitrary: s)
    case (Suc n)
    note one = us_serves_fields [OF _ us_orderly_ok [OF Suc.prems(1)] Suc.prems(2)]
    obtain s1 where s1: "us_serves E U s s1" using us_can_serve [of s E U] Suc.prems(3) by auto
    have rest: "(\<exists>s'. (us_serves E U ^^ n) s2 s') \<and>
        (\<forall>s'. (us_serves E U ^^ n) s2 s' \<longrightarrow> us_orderly E U w s' \<and> us_alive s' \<and> us_calls s' = us_calls s \<and> us_due s' = 0)"
      if "us_serves E U s s2" for s2
      using Suc.IH [OF us_serves_orderly [OF Suc.prems(1) that]] one [OF that] Suc.prems(3) by simp
    show ?case
      using s1 rest by (meson relpowp_Suc_D2 relpowp_Suc_I2)
  qed auto
  from this [OF refl] show "\<exists>s'. (us_serves E U ^^ us_due s) s s'"
    "(us_serves E U ^^ us_due s) s s' \<Longrightarrow>
       us_orderly E U w s' \<and> us_alive s' \<and> us_calls s' = us_calls s \<and> us_due s' = 0" by blast+
qed

lemma us_ok_counts:
  assumes "us_ok s" "us_alive s" "n < us_calls s"
  shows "count_list (map fst (us_fired s) @ map fst (us_game s) @ map fst (us_tasks s)) n = 1"
proof -
  have "mset (map fst (us_fired s) @ map fst (us_game s) @ map fst (us_tasks s)) = mset [0..<us_calls s]"
    using assms(1,2) by (simp add: us_ok_def add.assoc)
  then have "count_list (map fst (us_fired s) @ map fst (us_game s) @ map fst (us_tasks s)) n = count (mset [0..<us_calls s]) n"
    by (metis count_mset)
  then show ?thesis using assms(3) by simp
qed

text \<open>
  C31. The Unreal subsystem answers every call exactly once and never touches a dead client, provided the
  title does not reconfigure or tear down with a call in flight: no task dereferences a pointer to a
  destroyed client; while the subsystem lives, every \<open>Activate\<close>, \<open>Validate\<close> and \<open>Deactivate\<close>, also one before
  \<open>Configure\<close>, is in exactly one of running, waiting for the game thread, and broadcast; and in whatever
  order the engine runs the tasks and the completions there are, it always can, and after exactly two steps
  for each task and one for each completion every call made so far has been broadcast, once. A broadcast
  that failed says \<open>Invalid\<close>, one that succeeded carries no message.
\<close>
theorem calls_are_answered_once:
  assumes "us_orderly E U w s"
  shows "\<not> us_dangling s
    \<and> (us_alive s \<longrightarrow> (\<forall>n < us_calls s. count_list (map fst (us_fired s) @ map fst (us_game s) @ map fst (us_tasks s)) n = 1))
    \<and> list_all well_formed_answer (us_fired s)
    \<and> (us_alive s \<longrightarrow> (\<exists>s'. (us_serves E U ^^ us_due s) s s')
         \<and> (\<forall>s'. (us_serves E U ^^ us_due s) s s' \<longrightarrow> us_tasks s' = [] \<and> us_game s' = []
              \<and> us_calls s' = us_calls s \<and> (\<forall>n < us_calls s. count_list (map fst (us_fired s')) n = 1)))"
proof -
  have ok: "us_ok s" by (rule us_orderly_ok [OF assms])
  have "us_tasks s' = [] \<and> us_game s' = [] \<and> us_calls s' = us_calls s
      \<and> (\<forall>n < us_calls s. count_list (map fst (us_fired s')) n = 1)"
    if "us_alive s" "(us_serves E U ^^ us_due s) s s'" for s'
  proof -
    note served = us_served(2) [OF assms that]
    then have "us_tasks s' = []" "us_game s' = []" by (simp_all add: us_due_def)
    then show ?thesis using served us_ok_counts [OF us_orderly_ok, of E U w s'] by auto
  qed
  with ok us_ok_counts [OF ok] us_served(1) [OF assms] show ?thesis by (auto simp: us_ok_def)
qed

text \<open>Without the proviso a task does reach a freed client: reconfiguring with one call in flight.\<close>

lemma reconfigure_dangles:
  "\<exists>s. us_runs E U w [U_configure t p k, U_call UE_validate, U_configure t p k, U_run 0] s \<and> us_dangling s"
proof -
  define s1 where "s1 = us_configure E U t p k (us_init w)"
  define s2 where "s2 = us_call UE_validate s1"
  define s3 where "s3 = us_configure E U t p k s2"
  note defs = s1_def s2_def s3_def us_init_def us_configure_def us_reset_def us_call_def Let_def
  have "us_runs E U w ([] @ [U_configure t p k]) s1"
    unfolding s1_def by (rule us_snoc [OF us_nil us_conf]) (simp add: us_init_def)
  then have "us_runs E U w (([] @ [U_configure t p k]) @ [U_call UE_validate]) s2"
    unfolding s2_def by (rule us_snoc [OF _ us_ask]) (simp_all add: defs)
  then have "us_runs E U w ((([] @ [U_configure t p k]) @ [U_call UE_validate]) @ [U_configure t p k]) s3"
    unfolding s3_def by (rule us_snoc [OF _ us_conf]) (simp_all add: defs)
  moreover have tasks: "us_tasks s3 = [(0, 0, UE_validate)]" by (simp add: defs)
  then have "us_step E U s3 (U_run 0) (us_run_task E U (0, 0, UE_validate) (s3\<lparr>us_tasks := []\<rparr>))"
    using us_work [of 0 s3 E U] by simp
  ultimately have "us_runs E U w (((([] @ [U_configure t p k]) @ [U_call UE_validate]) @ [U_configure t p k]) @ [U_run 0])
      (us_run_task E U (0, 0, UE_validate) (s3\<lparr>us_tasks := []\<rparr>))" by (rule us_snoc)
  moreover have "us_dangling (us_run_task E U (0, 0, UE_validate) (s3\<lparr>us_tasks := []\<rparr>))"
    by (simp add: us_run_task_def defs)
  ultimately show ?thesis by auto
qed

section \<open>Broadcasts and \<open>GetState\<close>\<close>

lemma run_result_task:
  "truthful E m \<Longrightarrow> run_state (do { r \<leftarrow> m; State_Monad.return (result_answer U r) }) c = (ans, c') \<Longrightarrow> fst ans
    \<Longrightarrow> fst (snd ans) = ToUEState (state_int (client_state E c'))"
  by (cases "run_state m c"; cases "fst (run_state m c)")
    (auto simp: truthful_def result_answer_def split_beta dest: spec [of _ c])

lemma report_state_ok: "run_state (report_state E s) c = (r, c') \<Longrightarrow> is_ok r"
  by (auto simp: report_state_def is_ok_def split: if_splits)

lemma keep_reported_ok: "run_state (keep_reported E) c = (r, c') \<Longrightarrow> is_ok r"
  by (auto simp: keep_reported_def dest: report_state_ok)

lemma validate_is_ok: "run_state (validate E) c = (r, c') \<Longrightarrow> is_ok r"
  by (auto simp: validate_def split_beta Let_def split: sum.splits if_splits option.splits prod.splits
      dest!: report_state_ok keep_reported_ok)

text \<open>
  C32. What a completion tells the title, against what \<open>GetState\<close> answers when the task has ended: after
  \<open>Activate\<close> and \<open>Validate\<close> a successful broadcast carries exactly that state, and \<open>Validate\<close> always reports
  success, whatever the transport answered; after \<open>Deactivate\<close> the broadcast always says \<open>Invalid\<close>, while
  \<open>GetState\<close> answers what the trial and the free tier give (a trial, the free tier, \<open>Expired\<close> or \<open>Invalid\<close>)
  if the store's writes succeed, and if they all fail the state from before, also \<open>Licensed\<close>, beside a
  broadcast of failure.
\<close>
theorem broadcast_against_state:
  assumes "us_client s = Some (a, c)" "us_run_task E U (n, a, q) s = s'"
  shows "\<exists>ans c'. us_game s' = us_game s @ [(n, q, ans)] \<and> us_client s' = Some (a, c')
    \<and> (q \<noteq> UE_deactivate \<and> fst ans \<longrightarrow> fst (snd ans) = GetState E s')
    \<and> (q = UE_validate \<longrightarrow> fst ans)
    \<and> (q = UE_deactivate \<longrightarrow> fst (snd ans) = UE_Invalid
         \<and> (store_works E \<longrightarrow> GetState E s' = ToUEState (state_int (resolve_with_trial E c' Invalid)))
         \<and> (store_fails E \<longrightarrow> \<not> fst ans \<and> GetState E s' = ToUEState (state_int (raw_state c))))"
proof -
  obtain ans c' where run: "run_state (task_body E U q) c = (ans, c')"
    by (cases "run_state (task_body E U q) c")
  have s': "us_game s' = us_game s @ [(n, q, ans)]" "us_client s' = Some (a, c')"
    using assms(1,2) run by (auto simp: us_run_task_def)
  have get: "GetState E s' = ToUEState (state_int (client_state E c'))" by (simp add: GetState_def s')
  have "fst (snd ans) = GetState E s'" if q: "q \<noteq> UE_deactivate" "fst ans"
  proof (cases q)
    case (UE_activate key)
    with run have "run_state (do { r \<leftarrow> activate E key; State_Monad.return (result_answer U r) }) c = (ans, c')"
      by (simp add: task_body_def)
    from run_result_task [OF truthful_ops(1) this q(2)] show ?thesis by (simp add: get)
  next
    case UE_validate
    with run have "run_state (do { r \<leftarrow> validate E; State_Monad.return (result_answer U r) }) c = (ans, c')"
      by (simp add: task_body_def)
    from run_result_task [OF truthful_ops(2) this q(2)] show ?thesis by (simp add: get)
  qed (use q in simp)
  moreover have "fst (snd ans) = UE_Invalid
      \<and> (store_works E \<longrightarrow> GetState E s' = ToUEState (state_int (resolve_with_trial E c' Invalid)))
      \<and> (store_fails E \<longrightarrow> \<not> fst ans \<and> GetState E s' = ToUEState (state_int (raw_state c)))"
    if q: "q = UE_deactivate"
  proof -
    obtain x c1 where rel: "run_state (release_seat E) c = (x, c1)" by (cases "run_state (release_seat E) c")
    have c': "c' = snd (run_state (deactivate E) c)" and "fst (snd ans) = UE_Invalid"
      and ans: "fst ans = is_ok (fst (run_state (deactivate E) c))"
      using run q by (auto simp: task_body_def split_beta ToUEState_def is_ok_def split: sum.splits)
    moreover have "client_state E c' = raw_state c'"
      using run_deactivate(2) [OF rel] by (simp add: client_state_def clock_untrusted_def c' Let_def)
    ultimately show ?thesis
      using run_deactivate(4) [OF rel] deactivate_store_fails [of E c] by (simp add: get)
  qed
  moreover have "fst ans" if "q = UE_validate"
  proof -
    obtain r c1 where v: "run_state (validate E) c = (r, c1)" by (cases "run_state (validate E) c")
    then have "ans = result_answer U r" using run that by (simp add: task_body_def)
    with validate_is_ok [OF v] show ?thesis by (auto simp: result_answer_def is_ok_def split: sum.splits)
  qed
  ultimately show ?thesis using s' by blast
qed

text \<open>The same in one concrete run: a trial of fourteen days, on its second day.\<close>

definition trial_subsystem :: "tworld subsystem" where
  "trial_subsystem = (us_init (disk_world 90000 []))\<lparr>
     us_client := Some (0, new_client scripted64 test_config (disk_world 90000 (build_blob trial_cache))),
     us_configured := True, us_next := 1\<rparr>"

lemma deactivated_trial:
  assumes "cache c = trial_cache" "world c = disk_world 90000 d"
  shows "resolve_with_trial scripted64 (snd (run_state (deactivate scripted64) c)) Invalid = Trial"
proof -
  let ?c = "snd (run_state (deactivate scripted64) c)"
  have drop: "drop_paid trial_cache = trial_cache" by (simp add: drop_paid_def trial_cache_def empty_cache_def)
  have "run_state (release_seat scripted64) c = (None, c)"
    using assms(1) by (simp add: release_seat_def load_instance_id_def trial_cache_def empty_cache_def)
  then have "cache ?c = trial_cache \<and> t_now (world ?c) = 90000"
    using assms by (simp add: deactivate_def drop save_cache_def split_beta scripted64_def scripted_def disk_world_def)
  then show ?thesis
    by (simp add: resolve_with_trial_def checkTrial_def effectiveTrialDurationDays_def days_left_from_def Let_def
        scripted64_def in64_def INT64_MIN_def INT64_MAX_def)
qed

definition plain_engine :: "tworld engine" where
  "plain_engine = \<lparr>tchar = (\<lambda>s. s), http_run = (\<lambda>r w. ((False, None), w)), saved_dir = ''saved'',
     build_version = ''1.0'', combine = (\<lambda>a b. a @ ''/'' @ b)\<rparr>"

theorem broadcast_against_state_witness:
  "let s = us_run_task scripted64 plain_engine (0, 0, UE_deactivate) trial_subsystem
   in \<exists>ok msg. us_game s = [(0, UE_deactivate, ok, UE_Invalid, msg)] \<and> GetState scripted64 s = UE_Trial"
proof -
  let ?c = "new_client scripted64 test_config (disk_world 90000 (build_blob trial_cache))"
  let ?s = "us_run_task scripted64 plain_engine (0, 0, UE_deactivate) trial_subsystem"
  have live: "us_client trial_subsystem = Some (0, ?c)" and game: "us_game trial_subsystem = []"
    by (simp_all add: trial_subsystem_def us_init_def)
  have works: "store_works scripted64" by (simp add: store_works_def scripted64_def scripted_def)
  have "world ?c = disk_world 90000 (build_blob trial_cache)"
    using new_client_resumes [OF trial_cache_facts(1), of scripted64 _ _ test_config] by simp
  note trial = deactivated_trial [OF cache_new_trial this]
  from broadcast_against_state [OF live refl, of scripted64 plain_engine 0 UE_deactivate] obtain ans c' where
    ans: "us_game ?s = [(0, UE_deactivate, ans)]" "us_client ?s = Some (0, c')" "fst (snd ans) = UE_Invalid"
      "GetState scripted64 ?s = ToUEState (state_int (resolve_with_trial scripted64 c' Invalid))"
    by (auto simp: game works)
  have "c' = snd (run_state (deactivate scripted64) ?c)"
    using ans(2) by (auto simp: us_run_task_def live task_body_def split_beta)
  with ans(4) trial have "GetState scripted64 ?s = UE_Trial" by (simp add: ToUEState_def)
  with ans(1,3) show ?thesis by (cases ans) (auto simp: Let_def)
qed

theorem calls_are_answered_once_witness:
  "let s = us_call UE_validate (us_configure scripted64 plain_engine ''acme'' ''synth'' Map.empty
       (us_call (UE_activate []) (us_init (disk_world 5 []))))
   in us_calls s = 2 \<and> (\<exists>s'. (us_serves scripted64 plain_engine ^^ 2) s s'
        \<and> (\<forall>n < 2. count_list (map fst (us_fired s')) n = 1))"
proof -
  let ?s1 = "us_call (UE_activate []) (us_init (disk_world 5 []))"
  let ?s2 = "us_configure scripted64 plain_engine ''acme'' ''synth'' Map.empty ?s1"
  let ?s = "us_call UE_validate ?s2"
  note defs = us_init_def us_configure_def us_reset_def us_call_def Let_def
  have "us_orderly scripted64 plain_engine (disk_world 5 []) ?s1"
    by (rule uo_step [OF uo_start us_ask]) (simp_all add: us_init_def)
  then have "us_orderly scripted64 plain_engine (disk_world 5 []) ?s2"
    by (rule uo_step [OF _ us_conf]) (simp_all add: defs)
  then have "us_orderly scripted64 plain_engine (disk_world 5 []) ?s"
    by (rule uo_step [OF _ us_ask]) (simp_all add: defs)
  note all = calls_are_answered_once [OF this]
  have "us_calls ?s = 2" "us_due ?s = 2" "us_alive ?s" by (simp_all add: us_due_def defs)
  with all have "us_calls ?s = 2 \<and> (\<exists>s'. (us_serves scripted64 plain_engine ^^ 2) ?s s'
        \<and> (\<forall>n < 2. count_list (map fst (us_fired s')) n = 1))" by auto
  then show ?thesis unfolding Let_def .
qed

section \<open>The SDK key\<close>

definition ue_clients :: "'w env \<Rightarrow> 'w engine \<Rightarrow> 'w subsystem \<Rightarrow> bool" where
  "ue_clients E U s \<longleftrightarrow>
     (\<forall>a c. us_client s = Some (a, c) \<longrightarrow> (\<exists>tenant product keys. reachable E (ue_config U tenant product keys) c))"

lemma task_is_call: "run_state (task_body E U q) c = (ans, c') \<Longrightarrow> api_step E c c'"
proof (cases q)
  case (UE_activate key)
  then show "run_state (task_body E U q) c = (ans, c') \<Longrightarrow> ?thesis"
    by (cases "run_state (activate E key) c") (auto simp: task_body_def intro: st_call st_activate)
next
  case UE_validate
  then show "run_state (task_body E U q) c = (ans, c') \<Longrightarrow> ?thesis"
    by (cases "run_state (validate E) c") (auto simp: task_body_def intro: st_call st_validate)
next
  case UE_deactivate
  then show "run_state (task_body E U q) c = (ans, c') \<Longrightarrow> ?thesis"
    by (cases "run_state (deactivate E) c") (auto simp: task_body_def intro: st_call st_deactivate)
qed

lemma ue_clients_step:
  assumes "us_step E U s e s'" "ue_clients E U s"
  shows "ue_clients E U s'"
  using assms(1)
proof (cases rule: us_step.cases)
  case us_conf
  then show ?thesis by (auto simp: ue_clients_def us_configure_def Let_def intro: reachable_new)
next
  case (us_ask q)
  have "us_client (us_call q s) = us_client s" by (simp add: us_call_def Let_def split: option.split)
  then show ?thesis using us_ask assms(2) by (simp add: ue_clients_def)
next
  case (us_work i)
  show ?thesis
  proof (cases "us_client s' = us_client s")
    case True
    then show ?thesis using assms(2) by (simp add: ue_clients_def)
  next
    case False
    obtain n p q where t: "us_tasks s ! i = (n, p, q)" by (cases "us_tasks s ! i")
    with False us_work obtain c c' ans where c: "us_client s = Some (p, c)"
        "run_state (task_body E U q) c = (ans, c')" "us_client s' = Some (p, c')"
      by (auto simp: us_run_task_def split: option.splits prod.splits if_splits)
    show ?thesis
      using assms(2) c(1) reachable_more [OF _ task_is_call [OF c(2)]] by (auto simp: ue_clients_def c(3))
  qed
next
  case (us_else a c c')
  then show ?thesis using assms(2) reachable_more by (auto simp: ue_clients_def) blast
qed (use assms(2) in \<open>auto simp: ue_clients_def us_deinitialize_def us_reset_def\<close>)

text \<open>
  C33. The plugin never sends the SDK key: \<open>Configure\<close> has no parameter for it and leaves the field empty, so
  whatever the title does, no request any client of the subsystem builds carries \<open>X-Keylight-SDK-Key\<close>,
  which the README calls required on every API call.
\<close>
theorem requests_lack_the_sdk_key:
  assumes "us_runs E U w es s" "us_client s = Some (a, c)"
  shows "sdkKey (cfg c) = [] \<and> fst (run_state (json_headers E) c) ''X-Keylight-SDK-Key'' = None"
proof -
  have "ue_clients E U s"
    using assms(1)
  proof (induction rule: us_runs.induct)
    case us_nil
    show ?case by (simp add: ue_clients_def us_init_def)
  next
    case (us_snoc es s e s')
    then show ?case using ue_clients_step by blast
  qed
  then obtain tenant product keys where "reachable E (ue_config U tenant product keys) c"
    using assms(2) by (auto simp: ue_clients_def)
  then have "cfg c = ue_config U tenant product keys" by (rule reachable_cfg)
  then have "sdkKey (cfg c) = []" by (simp add: ue_config_def default_config_def)
  then show ?thesis by (simp add: json_headers_def split_beta)
qed

theorem requests_lack_the_sdk_key_witness:
  "\<exists>a c. us_client (us_configure scripted64 plain_engine ''acme'' ''synth'' Map.empty (us_init (disk_world 5 []))) = Some (a, c)
    \<and> fst (run_state (json_headers scripted64) c) ''X-Keylight-SDK-Key'' = None"
proof -
  let ?s = "us_configure scripted64 plain_engine ''acme'' ''synth'' Map.empty (us_init (disk_world 5 []))"
  have "us_runs scripted64 plain_engine (disk_world 5 []) ([] @ [U_configure ''acme'' ''synth'' Map.empty]) ?s"
    by (rule us_snoc [OF us_nil us_conf]) (simp add: us_init_def)
  moreover obtain a c where "us_client ?s = Some (a, c)" by (simp add: us_configure_def Let_def)
  ultimately have "us_client ?s = Some (a, c) \<and> fst (run_state (json_headers scripted64) c) ''X-Keylight-SDK-Key'' = None"
    using requests_lack_the_sdk_key [of scripted64 plain_engine "disk_world 5 []" _ ?s a c] by blast
  then show ?thesis by (intro exI)
qed

end
