(* ===== verification/Spec2Isabelle.thy ===== *)
theory Spec2Isabelle
  imports Base64 Json Sha256 Policy Device Lease Transport Client_Props Client_Traffic Client_Channel
    Client_History Client_Upgrade Client_Disk Ed25519_Verify Client_Heartbeat Notify Juce Unreal
begin

text \<open>
  A verification library for the Keylight C++ SDK (the headers under \<open>include/keylight/\<close>): a client
  that activates a license key online, keeps a signed lease on disk, and answers at any time, online
  or not, whether the product is licensed.

  \<^bold>\<open>Parts and theories.\<close>

  \<^item> \<open>Prelude\<close>: errors as values (\<open>Result<T>\<close> is a sum), \<open>int64_t\<close> and \<open>int\<close> on HOL integers with the
    wrap-around written out, characters and bytes, decimal printing.
  \<^item> \<open>Base64\<close> (\<open>result.hpp\<close>, \<open>verifier.hpp\<close>), \<open>Binary64\<close> and \<open>Json\<close> (\<open>json.hpp\<close>; \<open>double\<close> as rounded
    rationals), \<open>Block_Hash\<close> and \<open>Sha256\<close> (\<open>sha256.hpp\<close>).
  \<^item> \<open>Policy\<close> (\<open>clock.hpp\<close>, \<open>retry.hpp\<close>, \<open>lifecycle.hpp\<close>) and \<open>Device\<close> (\<open>device_info.hpp\<close>,
    \<open>machine_id.hpp\<close>).
  \<^item> \<open>Lease\<close> (\<open>lease.hpp\<close>, \<open>config_payload.hpp\<close>, \<open>verifier.hpp\<close>) and \<open>Transport\<close> (\<open>transport.hpp\<close>,
    \<open>transport/httplib.hpp\<close>, \<open>keyset.hpp\<close>).
  \<^item> \<open>Chacha20\<close>, \<open>Poly1305\<close> (the models), \<open>Poly1305_Field\<close> (the limbs as numbers modulo \<open>2^130 - 5\<close>),
    \<open>Poly1305_Tag\<close> (the tag of RFC 8439) and \<open>Aead\<close> (\<open>chacha20poly1305.hpp\<close>).
  \<^item> \<open>Sha512\<close>, \<open>Gf25519\<close>, \<open>Ed25519\<close> (\<open>ed25519.hpp\<close>): the hash, the field and the points on signed 64-bit
    limbs, as the code computes them; \<open>Little_Endian\<close>, \<open>Limbs\<close>: numbers in a radix and the passage
    between words and integers. \<open>Gf25519_Field\<close>, \<open>Gf25519_Pack\<close>: the limbs compute modulo
    \<open>2^255 - 19\<close>; \<open>Ed25519_Points\<close>: the point formulas of RFC 8032; \<open>Ed25519_Curve\<close>: every point is on
    the curve; \<open>Ed25519_Scalar\<close>: reduction modulo the group order; \<open>Ed25519_Verify\<close>: the whole check,
    and what a trusted lease is with it.
  \<^item> \<open>Store\<close> (\<open>store.hpp\<close>): the two file stores over a disk whose every call may fail; \<open>Store_Laws\<close>: their
    common contract as a locale, authenticity, the import of an old plaintext store.
  \<^item> \<open>Client_State\<close>, \<open>Client_Events\<close>, \<open>Client_Store\<close>, \<open>Client_Net\<close>, \<open>Client_Api\<close> (\<open>client.hpp\<close>): the members
    of \<open>Client\<close> as a record, its methods as computations of the state monad over it, the network,
    store, clock and random source as an environment over a world.
  \<^item> \<open>Client_Evolution\<close>, \<open>Client_Inv\<close>: the invariant argument as a locale interface (what each atomic
    change keeps, every operation keeps) and its interpretations over histories of public calls.
  \<^item> \<open>Scripted\<close>: a concrete world for witnesses. \<open>Client_Props\<close>: no answer contradicts \<open>state()\<close>.
    \<open>Client_Paid\<close>: a \<open>Licensed\<close> state rests on a signed lease. \<open>Client_Restart\<close>: construction and
    restart. \<open>Client_Ops\<close>: revocation, transient failure, deactivation. \<open>Client_World\<close>,
    \<open>Client_Traffic\<close>: what is sent. \<open>Client_Channel\<close>: what listeners hear, as
    interpretations of the locales of \<open>Client_Evolution\<close>. \<open>Client_History\<close>: what no
    history changes, settings, entitlements, the trial. \<open>Client_Upgrade\<close>: the polling loop.
    \<open>Client_Disk\<close>: the client over the encrypted store, so that a restart at any point finds the cache.
  \<^item> The threads of \<open>client.hpp\<close>, as step relations over what their mutexes guard, one atomic section a
    step: \<open>Client_Workers\<close> (auto-validation: epochs, the retired list, joins, the destructor),
    \<open>Client_Heartbeat\<close> (the beacon thread and its shutdown latch), \<open>Notify\<close> (the event queue and the
    delivery baton under overlapping and re-entrant notifiers). \<open>Client_Events\<close>, \<open>Client_Net\<close> and
    \<open>Client_Api\<close> are what one call does when it runs alone; \<open>notify_refines\<close> and the refinement lemmas
    of \<open>Client_Heartbeat\<close> relate the two.
  \<^item> The engine adapters under \<open>integrations/\<close>, each a step relation over the client model:
    \<open>Host_Adapter\<close> (what they share: C strings, and which calls leave the subscriptions alone, one more
    interpretation of the locales of \<open>Client_Evolution\<close>), \<open>Juce\<close> (\<open>juce/KeylightJuce.h\<close>: the
    transport, the subscription callback with its beacon, the audio thread's snapshots, the
    dispatched jobs, the message queue, teardown) and \<open>Unreal\<close> (\<open>FHttpTransport\<close>, \<open>UELicenseStore\<close>,
    \<open>UKeylightSubsystem\<close> with its background tasks and the client pointers they hold).

  \<^bold>\<open>Bounds and fuel.\<close> The JSON parser and the scanners terminate by the length of their input; the
  retry loop by its three rounds; the polling loop of \<open>refreshAfterUpgrade\<close> takes fuel, of which
  \<open>upgrade_terminates\<close> shows how much is enough. The worker, heartbeat and event threads are step
  relations and need none; what must end is bounded there by a count of steps.

  \<^bold>\<open>Not modelled.\<close> The HTTP library, the operating-system reads of device facts, the single header
  (generated from the headers modelled here), the example plug-ins and the demo, tests and tools; the
  futures of the asynchronous overloads and the test seams of \<open>client.hpp\<close>, which only wrap modelled
  calls. JUCE and the Unreal engine are not part of the repository: what the adapters ask of them is a
  parameter (\<open>juce_env\<close>, \<open>engine\<close>), and their queues are lists. The weak memory of the relaxed atomics
  is not modelled either: a read sees the last write. Of Ed25519, that the curve points form a group and
  that the square root finds every point (both rest on \<open>2^255 - 19\<close> being prime) is not proved: the
  specification of the check uses the formulas of RFC 8032, not the group. The client theories keep the
  signature check as a parameter; \<open>Ed25519_Verify\<close> puts the modelled one in its place.
\<close>

end
